(* ===== verification/Ltp_Prelude.thy ===== *)
theory Ltp_Prelude
  imports Main "HOL-Library.Signed_Division"
begin

text \<open>
  Shared vocabulary of the development: C strings, the character classes of
  \<^verbatim>\<open>ctype.h\<close>, the string functions of \<^verbatim>\<open>string.h\<close> the sources call, truncating
  integer division, and a bounded array stack with the interface its clients use.

  Conventions. A C string is the list of its characters without the terminator;
  \<open>cat s i\<close> is the read \<^verbatim>\<open>s[i]\<close> for an index up to the terminator. Where the code
  could leave an object, the read or write is an option and \<open>None\<close> is undefined
  behaviour. Collections of rewrite rules: \<open>cstr_simps\<close> for strings, \<open>stack_simps\<close>
  for the stack interface.
\<close>

named_theorems cstr_simps "reads and comparisons of C strings"
named_theorems stack_simps "operations of the bounded array stack"

section \<open>C strings\<close>

abbreviation NUL :: char where "NUL \<equiv> CHR 0x00"
abbreviation TAB :: char where "TAB \<equiv> CHR 0x09"
abbreviation LF :: char where "LF \<equiv> CHR 0x0A"
abbreviation DQUOTE :: char where "DQUOTE \<equiv> CHR 0x22"
abbreviation SQUOTE :: char where "SQUOTE \<equiv> CHR 0x27"
abbreviation BSLASH :: char where "BSLASH \<equiv> CHR 0x5C"

definition cat :: "string \<Rightarrow> nat \<Rightarrow> char" where
  "cat s i = (if i < length s then s ! i else NUL)"

lemma cat_Nil [simp]: "cat [] i = NUL"
  by (simp add: cat_def)

lemma cat_Cons_0 [simp]: "cat (c # s) 0 = c"
  by (simp add: cat_def)

lemma cat_Cons_Suc [simp]: "cat (c # s) (Suc i) = cat s i"
  by (simp add: cat_def)

lemma cat_not_NUL_less: "cat s i \<noteq> NUL \<Longrightarrow> i < length s"
  by (auto simp: cat_def split: if_splits)

lemma cat_drop [cstr_simps]: "cat (drop k s) i = cat s (k + i)"
  by (auto simp: cat_def)

lemma drop_cat_Cons: "i < length s \<Longrightarrow> drop i s = cat s i # drop (Suc i) s"
  by (simp add: cat_def Cons_nth_drop_Suc)

text \<open>A read that checks the bounds of the object: the terminator is the last
  readable character.\<close>

definition cread :: "string \<Rightarrow> nat \<Rightarrow> char option" where
  "cread s i = (if i \<le> length s then Some (cat s i) else None)"

definition is_cstr :: "string \<Rightarrow> bool" where
  "is_cstr s = (NUL \<notin> set s)"

lemma is_cstr_simps [simp]:
  "is_cstr []"
  "is_cstr (c # s) \<longleftrightarrow> c \<noteq> NUL \<and> is_cstr s"
  "is_cstr (s @ t) \<longleftrightarrow> is_cstr s \<and> is_cstr t"
  by (auto simp: is_cstr_def)

lemma is_cstr_drop [intro]: "is_cstr s \<Longrightarrow> is_cstr (drop k s)"
  by (auto simp: is_cstr_def dest: in_set_dropD)

lemma is_cstr_take [intro]: "is_cstr s \<Longrightarrow> is_cstr (take k s)"
  by (auto simp: is_cstr_def dest: in_set_takeD)

lemma cat_eq_NUL_iff [cstr_simps]: "is_cstr s \<Longrightarrow> cat s i = NUL \<longleftrightarrow> length s \<le> i"
  by (auto simp: cat_def is_cstr_def not_less) (metis nth_mem)

section \<open>Character classes\<close>

abbreviation chr_code :: "char \<Rightarrow> nat" where "chr_code c \<equiv> of_char c"

definition isspace :: "char \<Rightarrow> bool" where
  "isspace c = (c \<in> {CHR '' '', CHR 0x09, CHR 0x0A, CHR 0x0B, CHR 0x0C, CHR 0x0D})"

definition isdigit :: "char \<Rightarrow> bool" where
  "isdigit c = (48 \<le> chr_code c \<and> chr_code c \<le> 57)"

definition isupper :: "char \<Rightarrow> bool" where
  "isupper c = (65 \<le> chr_code c \<and> chr_code c \<le> 90)"

definition islower :: "char \<Rightarrow> bool" where
  "islower c = (97 \<le> chr_code c \<and> chr_code c \<le> 122)"

definition isalnum :: "char \<Rightarrow> bool" where
  "isalnum c = (isdigit c \<or> isupper c \<or> islower c)"

lemma isspace_NUL [simp]: "\<not> isspace NUL"
  by (simp add: isspace_def)

lemma isalnum_NUL [simp]: "\<not> isalnum NUL" "\<not> isupper NUL" "\<not> isdigit NUL" "\<not> islower NUL"
  by (simp_all add: isalnum_def isdigit_def isupper_def islower_def)

section \<open>Functions of string.h\<close>

text \<open>\<^verbatim>\<open>strstr\<close> as the index of the first occurrence.\<close>

fun strstr :: "string \<Rightarrow> string \<Rightarrow> nat option" where
  "strstr [] n = (if n = [] then Some 0 else None)"
| "strstr (c # s) n =
     (if take (length n) (c # s) = n then Some 0 else map_option Suc (strstr s n))"

lemma strstr_Some:
  "strstr s n = Some k \<Longrightarrow> k \<le> length s \<and> take (length n) (drop k s) = n"
  by (induction s arbitrary: k) (auto split: if_splits)

lemma strstr_None: "strstr s n = None \<Longrightarrow> take (length n) (drop k s) \<noteq> n"
proof (induction s arbitrary: k)
  case Nil
  then show ?case by (auto split: if_splits)
next
  case (Cons c s)
  then show ?case by (cases k) (auto split: if_splits)
qed

text \<open>\<^verbatim>\<open>while (p(s[i])) i++\<close> for a class that excludes the terminator: the number of
  characters the loop passes.\<close>

definition span_len :: "(char \<Rightarrow> bool) \<Rightarrow> string \<Rightarrow> nat \<Rightarrow> nat" where
  "span_len p s i = length (takeWhile p (drop i s))"

lemma drop_span_len [cstr_simps]: "drop (i + span_len p s i) s = dropWhile p (drop i s)"
  by (simp add: span_len_def dropWhile_eq_drop add.commute)

lemma take_span_len [cstr_simps]: "take (span_len p s i) (drop i s) = takeWhile p (drop i s)"
  unfolding span_len_def by (rule takeWhile_eq_take [symmetric])

lemma cat_hd [cstr_simps]: "cat s i = (case drop i s of [] \<Rightarrow> NUL | c # _ \<Rightarrow> c)"
  by (cases "i < length s") (auto simp: cat_def drop_cat_Cons)

text \<open>\<^verbatim>\<open>!strncmp(a, b, n)\<close>, \<^verbatim>\<open>snprintf\<close> into \<open>n\<close> bytes, and \<^verbatim>\<open>fgets\<close>: the characters it
  stores and the rest of the stream.\<close>

definition strncmp_eq :: "string \<Rightarrow> string \<Rightarrow> nat \<Rightarrow> bool" where
  "strncmp_eq a b n = (take n a = take n b)"

definition snprintf :: "nat \<Rightarrow> string \<Rightarrow> string" where
  "snprintf n s = take (n - 1) s"

definition fgets :: "nat \<Rightarrow> string \<Rightarrow> (string \<times> string) option" where
  "fgets n s =
     (if s = [] then None
      else let k = min (n - 1) (length (takeWhile (\<lambda>c. c \<noteq> LF) s) + 1) in Some (take k s, drop k s))"

lemma fgets_shorter: "fgets n s = Some (l, r) \<Longrightarrow> 1 < n \<Longrightarrow> length r < length s"
  by (auto simp: fgets_def Let_def split: if_splits)

lemma fgets_append: "fgets n s = Some (l, r) \<Longrightarrow> s = l @ r"
  by (auto simp: fgets_def Let_def split: if_splits)

lemma fgets_line:
  assumes "LF \<notin> set l" "length l + 1 < n"
  shows "fgets n (l @ LF # r) = Some (l @ [LF], r)"
proof -
  have "takeWhile (\<lambda>c. c \<noteq> LF) (l @ LF # r) = l"
    using assms(1) by (subst takeWhile_append2) auto
  moreover have "min (n - 1) (length l + 1) = length l + 1" using assms(2) by simp
  ultimately show ?thesis by (simp only: fgets_def) (simp add: Let_def)
qed

section \<open>Truncating division\<close>

lemma smod_bounds: "0 < k \<Longrightarrow> - k < x smod k \<and> x smod k < (k :: int)"
  using smod_int_range [of k x] by auto

lemma sdiv_nonneg: "0 \<le> x \<Longrightarrow> 0 < k \<Longrightarrow> x sdiv k = x div (k :: int)"
  by (simp add: signed_divide_int_def sgn_if)

lemma smod_nonneg: "0 \<le> x \<Longrightarrow> 0 < k \<Longrightarrow> x smod k = x mod (k :: int)"
  by (metis add_left_cancel div_mult_mod_eq sdiv_mult_smod_eq sdiv_nonneg)

section \<open>Updates of arrays\<close>

text \<open>A field that an update of one element leaves alone.\<close>

lemma list_update_field: "f x = f (b ! k) \<Longrightarrow> f (b[k := x] ! i) = f (b ! i)"
  by (cases "k < length b") (auto simp: nth_list_update list_update_beyond)

section \<open>Bounded array stack\<close>

text \<open>
  A C array used as a stack: its cells (\<open>None\<close> for a cell not written yet) and the
  position of the first free one.
\<close>

record 'a cstack =
  cells :: "'a option list"
  spos :: nat

definition stack_new :: "nat \<Rightarrow> 'a cstack" where
  "stack_new n = \<lparr>cells = replicate n None, spos = 0\<rparr>"

text \<open>What an array stack stands for: its elements, top first.\<close>

definition stack_list :: "'a cstack \<Rightarrow> 'a list" where
  "stack_list s = rev (map the (take (spos s) (cells s)))"

definition stack_inv :: "'a cstack \<Rightarrow> bool" where
  "stack_inv s = (spos s \<le> length (cells s) \<and> None \<notin> set (take (spos s) (cells s)))"

definition stack_cap :: "'a cstack \<Rightarrow> nat" where
  "stack_cap s = length (cells s)"

text \<open>The interface a client relies on.\<close>

locale bounded_stack =
  fixes new :: "nat \<Rightarrow> 's"
    and push :: "'s \<Rightarrow> 'a \<Rightarrow> 's option"
    and pop :: "'s \<Rightarrow> 'a option \<times> 's"
    and peek :: "('a \<Rightarrow> 'b) \<Rightarrow> 's \<Rightarrow> 'b option"
    and elems :: "'s \<Rightarrow> 'a list"
    and cap :: "'s \<Rightarrow> nat"
    and inv :: "'s \<Rightarrow> bool"
  assumes new_inv: "inv (new n)"
    and new_elems: "elems (new n) = []"
    and new_cap: "cap (new n) = n"
    and elems_le_cap: "inv s \<Longrightarrow> length (elems s) \<le> cap s"
    and push_ok: "inv s \<Longrightarrow> length (elems s) < cap s \<Longrightarrow>
      \<exists>s'. push s x = Some s' \<and> inv s' \<and> elems s' = x # elems s \<and> cap s' = cap s"
    and push_full: "inv s \<Longrightarrow> length (elems s) = cap s \<Longrightarrow> push s x = None"
    and pop_empty: "inv s \<Longrightarrow> elems s = [] \<Longrightarrow> pop s = (None, s)"
    and pop_Cons: "inv s \<Longrightarrow> elems s = x # xs \<Longrightarrow>
      \<exists>s'. pop s = (Some x, s') \<and> inv s' \<and> elems s' = xs \<and> cap s' = cap s"
    and peek_elems: "inv s \<Longrightarrow> peek f s = (case elems s of [] \<Rightarrow> None | x # _ \<Rightarrow> Some (f x))"
begin

lemma push_Some_iff:
  assumes "inv s"
  shows "(\<exists>s'. push s x = Some s') \<longleftrightarrow> length (elems s) < cap s"
  using assms elems_le_cap [OF assms] push_ok [OF assms] push_full [OF assms]
  by (metis le_neq_implies_less option.distinct(1))

lemma push_SomeD:
  assumes "inv s" "push s x = Some s'"
  shows "inv s' \<and> elems s' = x # elems s \<and> cap s' = cap s"
  using assms push_Some_iff [OF assms(1), of x] push_ok [OF assms(1), of x] by auto

lemma pop_cases:
  assumes "inv s"
  obtains (empty) "elems s = []" "pop s = (None, s)"
  | (top) x xs s' where "elems s = x # xs" "pop s = (Some x, s')" "inv s'" "elems s' = xs"
      "cap s' = cap s"
  using assms pop_empty pop_Cons by (metis list.exhaust)

lemma pop_push:
  assumes "inv s" "push s x = Some s'"
  shows "\<exists>s''. pop s' = (Some x, s'') \<and> inv s'' \<and> elems s'' = elems s"
  using push_SomeD [OF assms] pop_Cons by blast

text \<open>Moving the top of one stack to another that has room for all of it.\<close>

lemma move_top:
  assumes "inv s" "inv t" "elems s = x # xs" "length (elems s) + length (elems t) \<le> cap t"
  obtains s' t' where "pop s = (Some x, s')" "push t x = Some t'" "inv s'" "inv t'"
    "elems s' = xs" "elems t' = x # elems t" "cap s' = cap s" "cap t' = cap t"
    "length (elems s') + length (elems t') \<le> cap t'"
proof -
  obtain s' where "pop s = (Some x, s')" "inv s'" "elems s' = xs" "cap s' = cap s"
    using pop_Cons [OF assms(1,3)] by blast
  moreover obtain t' where "push t x = Some t'" "inv t'" "elems t' = x # elems t" "cap t' = cap t"
    using push_ok [OF assms(2), of x] assms(3,4) by auto
  ultimately show ?thesis using that assms(3,4) by simp
qed

end

end
