(* ===== verification/Bool_Expr.thy ===== *)
theory Bool_Expr
  imports Ltp_Prelude
begin

text \<open>
  Model of \<^verbatim>\<open>ltp_src/lib/tst_bool_expr.c\<close> and \<^verbatim>\<open>ltp_src/include/tst_bool_expr.h\<close>:
  the tokenizer, the shunting-yard translation to postfix form with its error
  reports, the linked list it leaves in the token buffer, and the evaluator with its
  fixed stack. A token is identified by its index in the buffer, and the string of a
  token by its offset and length in the expression, as the pointers of the source do.
  \<open>None\<close> is undefined behaviour (a write past an array, a read of an unset cell) or,
  for the list walk, a walk that does not end.
\<close>

section \<open>Data\<close>

datatype tst_op =
    TST_OP_NOT | TST_OP_AND | TST_OP_OR | TST_OP_VAR | TST_OP_LPAR | TST_OP_RPAR

text \<open>The field \<^verbatim>\<open>next\<close> is not set by the tokenizer (\<open>Unset\<close>); \<^verbatim>\<open>priv\<close> holds nothing,
  an error message, or (set by the clients) an index in an array of variables.\<close>

datatype tok_link = Unset | NullTok | Tok nat

datatype tok_priv = PrivNull | PrivErr string | PrivVar nat

record tst_expr_tok =
  tok_op :: tst_op
  tok_pos :: nat
  tok_len :: nat
  tok_next :: tok_link
  tok_priv :: tok_priv

record tst_expr =
  rpn :: tok_link
  buf :: "tst_expr_tok list"

section \<open>Tokenizer\<close>

definition char_to_op :: "char \<Rightarrow> tst_op" where
  "char_to_op c =
     (if c = CHR ''('' then TST_OP_LPAR
      else if c = CHR '')'' then TST_OP_RPAR
      else if c = CHR ''&'' then TST_OP_AND
      else if c = CHR ''|'' then TST_OP_OR
      else if c = CHR ''!'' then TST_OP_NOT
      else TST_OP_VAR)"

text \<open>\<open>lst\<close> (\<^verbatim>\<open>last\<close>) is \<open>None\<close> for the null pointer of the counting pass, otherwise the tokens
  written so far. The result is the return value and the advanced \<^verbatim>\<open>*last\<close>.\<close>

definition new_tok ::
  "string \<Rightarrow> tst_expr_tok list option \<Rightarrow> nat \<Rightarrow> nat \<Rightarrow> nat \<times> tst_expr_tok list option" where
  "new_tok expr lst p len =
     (if len = 0 then (0, lst)
      else case lst of
        None \<Rightarrow> (1, None)
      | Some ts \<Rightarrow>
          (1, Some (ts @ [\<lparr>tok_op = char_to_op (cat expr p), tok_pos = p, tok_len = len,
                           tok_next = Unset, tok_priv = PrivNull\<rparr>])))"

text \<open>The inner loop of the double-quote case: advance to the last character before the closing
  quote or the end.\<close>

function skip_str :: "string \<Rightarrow> nat \<Rightarrow> nat" where
  "skip_str expr i =
     (if cat expr (i + 1) \<noteq> DQUOTE \<and> cat expr (i + 1) \<noteq> NUL then skip_str expr (i + 1) else i)"
  by pat_completeness auto
termination
  by (relation "measure (\<lambda>(expr, i). length expr - i)") (auto dest: cat_not_NUL_less)

declare skip_str.simps [simp del]

lemma skip_str_ge: "i \<le> skip_str expr i"
proof (induction expr i rule: skip_str.induct)
  case (1 expr i)
  then show ?case by (subst skip_str.simps) (auto dest: Suc_leD)
qed

definition quote_end :: "string \<Rightarrow> nat \<Rightarrow> nat" where
  "quote_end expr i =
     (let k = skip_str expr i in if cat expr (k + 1) = DQUOTE then k + 1 else k)"

lemma quote_end_ge: "i \<le> quote_end expr i"
  using skip_str_ge [of i expr] by (simp add: quote_end_def Let_def)

definition is_op_char :: "char \<Rightarrow> bool" where
  "is_op_char c = (c \<in> {CHR ''('', CHR '')'', CHR ''!'', CHR ''&'', CHR ''|''})"

definition is_blank :: "char \<Rightarrow> bool" where
  "is_blank c = (c \<in> {TAB, CHR '' ''})"

text \<open>The main loop at index \<open>i\<close> with the start \<open>j\<close> of the pending token and the count so far.\<close>

function tokenize_loop ::
  "string \<Rightarrow> nat \<Rightarrow> nat \<Rightarrow> nat \<Rightarrow> tst_expr_tok list option \<Rightarrow> nat \<times> tst_expr_tok list option" where
  "tokenize_loop expr i j cnt lst =
     (if cat expr i = NUL then
        (let (n, lst') = new_tok expr lst j (i - j) in (cnt + n, lst'))
      else if is_op_char (cat expr i) then
        (let (n1, lst1) = new_tok expr lst j (i - j);
             (n2, lst2) = new_tok expr lst1 i 1
         in tokenize_loop expr (i + 1) (i + 1) (cnt + n1 + n2) lst2)
      else if is_blank (cat expr i) then
        (let (n, lst') = new_tok expr lst j (i - j)
         in tokenize_loop expr (i + 1) (i + 1) (cnt + n) lst')
      else if cat expr i = DQUOTE then
        tokenize_loop expr (quote_end expr i + 1) j cnt lst
      else tokenize_loop expr (i + 1) j cnt lst)"
  by pat_completeness auto
termination
proof (relation "measure (\<lambda>(expr, i, j, cnt, lst). length expr - i)", goal_cases)
  case 1 then show ?case by simp
next
  case 2 then show ?case by (auto dest: cat_not_NUL_less)
next
  case 3 then show ?case by (auto dest: cat_not_NUL_less)
next
  case (4 expr i j cnt lst)
  then have "i < length expr" by (intro cat_not_NUL_less) simp
  then show ?case using quote_end_ge [of i expr] by simp
next
  case 5 then show ?case by (auto dest: cat_not_NUL_less)
qed

declare tokenize_loop.simps [simp del]

definition tokenize ::
  "string \<Rightarrow> tst_expr_tok list option \<Rightarrow> nat \<times> tst_expr_tok list option" where
  "tokenize expr lst = tokenize_loop expr 0 0 0 lst"

definition tok_text :: "string \<Rightarrow> tst_expr_tok \<Rightarrow> string" where
  "tok_text expr t = take (tok_len t) (drop (tok_pos t) expr)"

section \<open>Operator stack\<close>

definition stack_push :: "'a cstack \<Rightarrow> 'a \<Rightarrow> 'a cstack option" where
  "stack_push s x =
     (if spos s < length (cells s)
      then Some (s\<lparr>cells := (cells s)[spos s := Some x], spos := spos s + 1\<rparr>)
      else None)"

definition stack_empty :: "'a cstack \<Rightarrow> bool" where
  "stack_empty s = (spos s = 0)"

definition stack_pop :: "'a cstack \<Rightarrow> 'a option \<times> 'a cstack" where
  "stack_pop s =
     (if stack_empty s then (None, s)
      else (cells s ! (spos s - 1), s\<lparr>spos := spos s - 1\<rparr>))"

text \<open>The operation field of the top token, read through \<open>opf\<close>; \<open>None\<close> is \<^verbatim>\<open>TST_OP_NONE\<close>.\<close>

definition stack_peek_op :: "('a \<Rightarrow> tst_op) \<Rightarrow> 'a cstack \<Rightarrow> tst_op option" where
  "stack_peek_op opf s =
     (if stack_empty s then None else map_option opf (cells s ! (spos s - 1)))"

lemma stack_list_Cons:
  assumes "stack_inv s" "stack_list s = x # xs"
  shows "spos s \<noteq> 0 \<and> spos s \<le> length (cells s) \<and> cells s ! (spos s - 1) = Some x \<and>
    rev (map the (take (spos s - 1) (cells s))) = xs"
proof -
  have le: "spos s \<le> length (cells s)" and nn: "None \<notin> set (take (spos s) (cells s))"
    using assms(1) by (auto simp: stack_inv_def)
  obtain n where n: "spos s = Suc n"
    using assms(2) by (cases "spos s") (auto simp: stack_list_def)
  have tk: "take (spos s) (cells s) = take n (cells s) @ [cells s ! n]"
    using n le by (simp add: take_Suc_conv_app_nth)
  with nn obtain y where "cells s ! n = Some y" by (cases "cells s ! n") auto
  with assms(2) tk n le show ?thesis by (auto simp: stack_list_def)
qed

interpretation op_stack: bounded_stack stack_new stack_push stack_pop stack_peek_op
  stack_list stack_cap stack_inv
proof (unfold_locales, goal_cases)
  case (1 n) show ?case by (simp add: stack_inv_def stack_new_def)
next
  case (2 n) show ?case by (simp add: stack_list_def stack_new_def)
next
  case (3 n) show ?case by (simp add: stack_cap_def stack_new_def)
next
  case (4 s) then show ?case by (simp add: stack_inv_def stack_list_def stack_cap_def)
next
  case (5 s x)
  then have lt: "spos s < length (cells s)"
    by (simp add: stack_inv_def stack_list_def stack_cap_def split: if_splits)
  then have "take (Suc (spos s)) ((cells s)[spos s := Some x]) = take (spos s) (cells s) @ [Some x]"
    by (simp add: take_Suc_conv_app_nth)
  with lt 5 show ?case
    by (auto simp: stack_push_def stack_inv_def stack_list_def stack_cap_def)
next
  case (6 s x) then show ?case
    by (simp add: stack_push_def stack_inv_def stack_list_def stack_cap_def split: if_splits)
next
  case (7 s) then show ?case
    by (auto simp: stack_pop_def stack_empty_def stack_list_def stack_inv_def)
next
  case (8 s x xs)
  then show ?case using stack_list_Cons [OF 8]
    by (auto simp: stack_pop_def stack_empty_def stack_list_def stack_inv_def stack_cap_def
        dest: in_set_takeD)
      (metis (no_types, lifting) diff_le_self set_take_subset_set_take subsetD)
next
  case (9 s f)
  show ?case
  proof (cases "stack_list s")
    case Nil
    with 9 show ?thesis
      by (auto simp: stack_peek_op_def stack_empty_def stack_inv_def stack_list_def)
  next
    case (Cons x xs)
    then show ?thesis using stack_list_Cons [OF 9 Cons]
      by (simp add: stack_peek_op_def stack_empty_def)
  qed
qed

section \<open>Shunting yard\<close>

definition check_one :: "tst_op option \<Rightarrow> bool" where
  "check_one prev =
     (prev \<notin> {Some TST_OP_AND, Some TST_OP_OR, Some TST_OP_NOT, None, Some TST_OP_LPAR})"

definition check_two :: "tst_op option \<Rightarrow> bool" where
  "check_two prev = (prev \<in> {Some TST_OP_VAR, Some TST_OP_RPAR})"

definition op_of :: "tst_expr_tok list \<Rightarrow> nat \<Rightarrow> tst_op" where
  "op_of b i = tok_op (b ! i)"

record sy_state =
  op_stack :: "nat cstack"
  out :: "nat cstack"
  prev_op :: "tst_op option"

text \<open>\<^verbatim>\<open>while (stack_peek_op(op_stack, ...) == TST_OP_NOT) stack_push(out, ..., stack_pop(op_stack, ...))\<close>\<close>

function pop_nots ::
  "(nat \<Rightarrow> tst_op) \<Rightarrow> nat cstack \<Rightarrow> nat cstack \<Rightarrow> (nat cstack \<times> nat cstack) option" where
  "pop_nots opf st ou =
     (if stack_peek_op opf st = Some TST_OP_NOT then
        (case stack_pop st of
           (None, st') \<Rightarrow> None
         | (Some i, st') \<Rightarrow>
             (case stack_push ou i of None \<Rightarrow> None | Some ou' \<Rightarrow> pop_nots opf st' ou'))
      else Some (st, ou))"
  by pat_completeness auto
termination
  by (relation "measure (\<lambda>(opf, st, ou). spos st)")
    (auto simp: stack_pop_def stack_empty_def split: if_splits)

declare pop_nots.simps [simp del]

text \<open>The loop that pops everything up to the left parenthesis; \<open>Inl\<close> when there is none.\<close>

function pop_to_lpar ::
  "(nat \<Rightarrow> tst_op) \<Rightarrow> nat cstack \<Rightarrow> nat cstack \<Rightarrow> (string + nat cstack \<times> nat cstack) option" where
  "pop_to_lpar opf st ou =
     (case stack_pop st of
        (None, st') \<Rightarrow> Some (Inl ''Missing ('')
      | (Some i, st') \<Rightarrow>
          if opf i = TST_OP_LPAR then Some (Inr (st', ou))
          else (case stack_push ou i of None \<Rightarrow> None | Some ou' \<Rightarrow> pop_to_lpar opf st' ou'))"
  by pat_completeness auto
termination
  by (relation "measure (\<lambda>(opf, st, ou). spos st)")
    (auto simp: stack_pop_def stack_empty_def split: if_splits)

declare pop_to_lpar.simps [simp del]

text \<open>One iteration of the main loop on token \<open>i\<close>; \<open>Inl\<close> is the message stored in the token's
  \<^verbatim>\<open>priv\<close> before the jump to \<^verbatim>\<open>err\<close>.\<close>

definition sy_step :: "(nat \<Rightarrow> tst_op) \<Rightarrow> nat \<Rightarrow> sy_state \<Rightarrow> (string + sy_state) option" where
  "sy_step opf i s =
     (case opf i of
        TST_OP_VAR \<Rightarrow>
          if check_one (prev_op s) then Some (Inl ''Expected operation'')
          else (case stack_push (out s) i of
            None \<Rightarrow> None
          | Some ou \<Rightarrow> (case pop_nots opf (op_stack s) ou of
              None \<Rightarrow> None
            | Some (st, ou') \<Rightarrow>
                Some (Inr \<lparr>op_stack = st, out = ou', prev_op = Some (opf i)\<rparr>)))
      | TST_OP_LPAR \<Rightarrow>
          if check_one (prev_op s) then Some (Inl ''Expected operation'')
          else (case stack_push (op_stack s) i of
            None \<Rightarrow> None
          | Some st \<Rightarrow> Some (Inr \<lparr>op_stack = st, out = out s, prev_op = Some (opf i)\<rparr>))
      | TST_OP_RPAR \<Rightarrow>
          if \<not> check_two (prev_op s) then Some (Inl ''Expected variable or )'')
          else (case pop_to_lpar opf (op_stack s) (out s) of
            None \<Rightarrow> None
          | Some (Inl e) \<Rightarrow> Some (Inl e)
          | Some (Inr (st, ou)) \<Rightarrow> (case pop_nots opf st ou of
              None \<Rightarrow> None
            | Some (st', ou') \<Rightarrow>
                Some (Inr \<lparr>op_stack = st', out = ou', prev_op = Some (opf i)\<rparr>)))
      | TST_OP_NOT \<Rightarrow>
          if check_one (prev_op s) then Some (Inl ''Expected operation'')
          else (case stack_push (op_stack s) i of
            None \<Rightarrow> None
          | Some st \<Rightarrow> Some (Inr \<lparr>op_stack = st, out = out s, prev_op = Some (opf i)\<rparr>))
      | _ \<Rightarrow>
          if \<not> check_two (prev_op s) then Some (Inl ''Expected variable or ('')
          else (case (if stack_peek_op opf (op_stack s) \<in> {Some TST_OP_AND, Some TST_OP_OR}
                      then (case stack_pop (op_stack s) of
                          (None, st) \<Rightarrow> None
                        | (Some k, st) \<Rightarrow> map_option (Pair st) (stack_push (out s) k))
                      else Some (op_stack s, out s)) of
            None \<Rightarrow> None
          | Some (st, ou) \<Rightarrow> (case stack_push st i of
              None \<Rightarrow> None
            | Some st' \<Rightarrow> Some (Inr \<lparr>op_stack = st', out = ou, prev_op = Some (opf i)\<rparr>))))"

text \<open>The loop over the tokens that are left; \<open>Inl\<close> names the token the error is stored in.\<close>

fun sy_loop :: "(nat \<Rightarrow> tst_op) \<Rightarrow> nat list \<Rightarrow> sy_state \<Rightarrow> (nat \<times> string + sy_state) option" where
  "sy_loop opf [] s = Some (Inr s)"
| "sy_loop opf (i # is) s =
     (case sy_step opf i s of
        None \<Rightarrow> None
      | Some (Inl e) \<Rightarrow> Some (Inl (i, e))
      | Some (Inr s') \<Rightarrow> sy_loop opf is s')"

text \<open>Popping the operations that remain; \<open>Inl\<close> names an unmatched left parenthesis.\<close>

function pop_rest ::
  "(nat \<Rightarrow> tst_op) \<Rightarrow> nat cstack \<Rightarrow> nat cstack \<Rightarrow> (nat \<times> string + nat cstack) option" where
  "pop_rest opf st ou =
     (case stack_pop st of
        (None, st') \<Rightarrow> Some (Inr ou)
      | (Some i, st') \<Rightarrow>
          if opf i = TST_OP_LPAR then Some (Inl (i, ''Missing )''))
          else (case stack_push ou i of None \<Rightarrow> None | Some ou' \<Rightarrow> pop_rest opf st' ou'))"
  by pat_completeness auto
termination
  by (relation "measure (\<lambda>(opf, st, ou). spos st)")
    (auto simp: stack_pop_def stack_empty_def split: if_splits)

declare pop_rest.simps [simp del]

text \<open>\<^verbatim>\<open>out[j]->next = out[j + 1]\<close> for every entry, where \<^verbatim>\<open>out[out_pos]\<close> is the null pointer.\<close>

fun link_out :: "nat list \<Rightarrow> tst_expr_tok list \<Rightarrow> tst_expr_tok list" where
  "link_out [] b = b"
| "link_out (i # is) b =
     link_out is (b[i := (b ! i)\<lparr>tok_next := (case is of [] \<Rightarrow> NullTok | k # _ \<Rightarrow> Tok k)\<rparr>])"

definition set_err :: "nat \<Rightarrow> string \<Rightarrow> tst_expr_tok list \<Rightarrow> tst_expr_tok list" where
  "set_err i e b = b[i := (b ! i)\<lparr>tok_priv := PrivErr e\<rparr>]"

text \<open>What follows the main loop: the check of the last token, popping the remaining
  operations, building the list. \<open>Inl\<close> is the return value 1 with the buffer that holds the
  error, \<open>Inr\<close> the return value 0 with the expression.\<close>

definition sy_finish ::
  "tst_expr_tok list \<Rightarrow> nat \<Rightarrow> sy_state \<Rightarrow> (tst_expr_tok list + tst_expr) option" where
  "sy_finish b cnt s =
     (if \<not> check_two (Some (op_of b (cnt - 1)))
      then Some (Inl (set_err (cnt - 1) ''Unfinished expression'' b))
      else (case pop_rest (op_of b) (op_stack s) (out s) of
          None \<Rightarrow> None
        | Some (Inl (i, e)) \<Rightarrow> Some (Inl (set_err i e b))
        | Some (Inr ou) \<Rightarrow>
            if spos ou < length (cells ou) then
              (let outs = rev (stack_list ou)
               in Some (Inr \<lparr>rpn = (case outs of [] \<Rightarrow> NullTok | i # _ \<Rightarrow> Tok i),
                             buf = link_out outs b\<rparr>))
            else None))"

definition sy_start :: "nat \<Rightarrow> sy_state" where
  "sy_start cnt = \<lparr>op_stack = stack_new cnt, out = stack_new (cnt + 1), prev_op = None\<rparr>"

definition shunting_yard ::
  "tst_expr_tok list \<Rightarrow> nat \<Rightarrow> (tst_expr_tok list + tst_expr) option" where
  "shunting_yard b cnt =
     (case sy_loop (op_of b) [0..<cnt] (sy_start cnt) of
        None \<Rightarrow> None
      | Some (Inl (i, e)) \<Rightarrow> Some (Inl (set_err i e b))
      | Some (Inr s) \<Rightarrow> sy_finish b cnt s)"

section \<open>Error report, parse, print\<close>

definition print_spaces :: "nat \<Rightarrow> string" where
  "print_spaces n = replicate n (CHR '' '')"

text \<open>What \<^verbatim>\<open>tst_bool_expr_err\<close> prints; \<open>None\<close> when no token holds an error, where the source
  reads past the buffer.\<close>

definition tst_bool_expr_err :: "string \<Rightarrow> tst_expr_tok list \<Rightarrow> nat \<Rightarrow> string option" where
  "tst_bool_expr_err expr b cnt =
     (case find (\<lambda>i. tok_priv (b ! i) \<noteq> PrivNull) [0..<cnt] of
        None \<Rightarrow> None
      | Some i \<Rightarrow> (case tok_priv (b ! i) of
            PrivErr err \<Rightarrow>
              (let spaces = tok_pos (b ! i) - tok_pos (b ! 0)
               in Some (drop (tok_pos (b ! 0)) expr @ [LF] @ print_spaces spaces @ ''^'' @ [LF] @
                    (if length err < spaces then print_spaces (spaces - length err + 1) else []) @
                    err @ [LF]))
          | _ \<Rightarrow> None))"

text \<open>The returned pointer (\<open>None\<close> for NULL) and the text written to \<^verbatim>\<open>stderr\<close>;
  \<open>malloc_ok\<close> is whether the allocation succeeds.\<close>

definition tst_bool_expr_parse ::
  "bool \<Rightarrow> string \<Rightarrow> (tst_expr option \<times> string) option" where
  "tst_bool_expr_parse malloc_ok expr =
     (let tok_cnt = fst (tokenize expr None)
      in if tok_cnt = 0 then Some (None, [])
         else if \<not> malloc_ok then Some (None, [])
         else (case snd (tokenize expr (Some [])) of
             None \<Rightarrow> None
           | Some b \<Rightarrow>
               if length b \<noteq> tok_cnt then None
               else (case shunting_yard b tok_cnt of
                   None \<Rightarrow> None
                 | Some (Inl b') \<Rightarrow> map_option (Pair None) (tst_bool_expr_err expr b' tok_cnt)
                 | Some (Inr e) \<Rightarrow> Some (Some e, []))))"

section \<open>Walking the postfix list\<close>

partial_function (option) tst_bool_expr_print ::
  "string \<Rightarrow> tst_expr_tok list \<Rightarrow> tok_link \<Rightarrow> string option" where
  "tst_bool_expr_print expr b l =
     (case l of
        Unset \<Rightarrow> None
      | NullTok \<Rightarrow> Some []
      | Tok i \<Rightarrow>
          if i < length b then
            Option.bind (tst_bool_expr_print expr b (tok_next (b ! i)))
              (\<lambda>r. Some (tok_text expr (b ! i) @
                        (if tok_next (b ! i) \<noteq> NullTok then '' '' else []) @ r))
          else None)"

declare tst_bool_expr_print.simps [code]

definition MAX_STACK :: nat where "MAX_STACK = 16"

definition cell_get :: "int option list \<Rightarrow> int \<Rightarrow> int option" where
  "cell_get st p = (if 0 \<le> p \<and> nat p < length st then st ! nat p else None)"

definition cell_set :: "int option list \<Rightarrow> int \<Rightarrow> int \<Rightarrow> int option list option" where
  "cell_set st p v = (if 0 \<le> p \<and> nat p < length st then Some (st[nat p := Some v]) else None)"

definition c_bool :: "bool \<Rightarrow> int" where
  "c_bool b = (if b then 1 else 0)"

text \<open>The evaluation loop with the array \<^verbatim>\<open>stack\<close> and the index \<^verbatim>\<open>pos\<close> of its top. \<open>Some v\<close> is
  the value returned.\<close>

partial_function (option) eval_loop ::
  "tst_expr_tok list \<Rightarrow> (tst_expr_tok \<Rightarrow> int) \<Rightarrow> tok_link \<Rightarrow> int option list \<Rightarrow> int \<Rightarrow> int option" where
  "eval_loop b mp l st pos =
     (case l of
        Unset \<Rightarrow> None
      | NullTok \<Rightarrow> cell_get st 0
      | Tok i \<Rightarrow>
          if i < length b then
            (case tok_op (b ! i) of
               TST_OP_NOT \<Rightarrow>
                 Option.bind (cell_get st pos)
                   (\<lambda>v. Option.bind (cell_set st pos (c_bool (v = 0)))
                     (\<lambda>st'. eval_loop b mp (tok_next (b ! i)) st' pos))
             | TST_OP_OR \<Rightarrow>
                 Option.bind (cell_get st pos) (\<lambda>v. Option.bind (cell_get st (pos - 1))
                   (\<lambda>w. Option.bind (cell_set st (pos - 1) (c_bool (v \<noteq> 0 \<or> w \<noteq> 0)))
                     (\<lambda>st'. eval_loop b mp (tok_next (b ! i)) st' (pos - 1))))
             | TST_OP_AND \<Rightarrow>
                 Option.bind (cell_get st pos) (\<lambda>v. Option.bind (cell_get st (pos - 1))
                   (\<lambda>w. Option.bind (cell_set st (pos - 1) (c_bool (v \<noteq> 0 \<and> w \<noteq> 0)))
                     (\<lambda>st'. eval_loop b mp (tok_next (b ! i)) st' (pos - 1))))
             | TST_OP_VAR \<Rightarrow>
                 if int MAX_STACK \<le> pos + 1 then Some (- 1)
                 else Option.bind (cell_set st (pos + 1) (mp (b ! i)))
                   (\<lambda>st'. if mp (b ! i) = - 1 then Some (- 1)
                          else eval_loop b mp (tok_next (b ! i)) st' (pos + 1))
             | _ \<Rightarrow> eval_loop b mp (tok_next (b ! i)) st pos)
          else None)"

declare eval_loop.simps [code]

definition tst_bool_expr_eval :: "tst_expr \<Rightarrow> (tst_expr_tok \<Rightarrow> int) \<Rightarrow> int option" where
  "tst_bool_expr_eval expr mp =
     eval_loop (buf expr) mp (rpn expr) (replicate MAX_STACK None) (- 1)"

end
