(* ===== verification/Res_Flags.thy ===== *)
theory Res_Flags
  imports Ltp_Prelude
begin

text \<open>
  The result types of \<^verbatim>\<open>include/tst_res_flags.h\<close>, which every component reports with. A
  call of \<^verbatim>\<open>tst_res\<close> is an entry of a log, a call of \<^verbatim>\<open>tst_brk\<close>, which does not return, is
  the left value of a sum.
\<close>

unbundle bit_operations_syntax

definition TTYPE_MASK :: int where "TTYPE_MASK = 0x3f"
definition TPASS :: int where "TPASS = 0"
definition TFAIL :: int where "TFAIL = 1"
definition TBROK :: int where "TBROK = 2"
definition TWARN :: int where "TWARN = 4"
definition TINFO :: int where "TINFO = 16"
definition TCONF :: int where "TCONF = 32"
definition TERRNO :: int where "TERRNO = 0x100"
definition TTERRNO :: int where "TTERRNO = 0x200"
definition TRERRNO :: int where "TRERRNO = 0x400"

lemmas flag_defs = TTYPE_MASK_def TPASS_def TFAIL_def TBROK_def TWARN_def TINFO_def TCONF_def
  TERRNO_def TTERRNO_def TRERRNO_def

definition TTYPE_RESULT :: "int \<Rightarrow> int" where
  "TTYPE_RESULT ttype = ttype AND TTYPE_MASK"

type_synonym report = "int \<times> string"

section \<open>Outcomes\<close>

text \<open>Code that may call \<^verbatim>\<open>tst_brk\<close> or run into undefined behaviour: a value, the report of the
  call that does not return, or undefined behaviour.\<close>

datatype 'a outcome = Ok 'a | Brk report | UB

fun obind :: "'a outcome \<Rightarrow> ('a \<Rightarrow> 'b outcome) \<Rightarrow> 'b outcome" where
  "obind (Ok x) f = f x"
| "obind (Brk r) f = Brk r"
| "obind UB f = UB"

lemma obind_Ok_iff: "obind m f = Ok y \<longleftrightarrow> (\<exists>x. m = Ok x \<and> f x = Ok y)"
  by (cases m) auto

lemma obind_assoc: "obind (obind m f) g = obind m (\<lambda>x. obind (f x) g)"
  by (cases m) auto

text \<open>A computation that may not end (\<open>None\<close>), leave its buffers (\<open>UB\<close>) or leave the program.\<close>

type_synonym 'a run = "'a outcome option"

fun rbind :: "'a run \<Rightarrow> ('a \<Rightarrow> 'b run) \<Rightarrow> 'b run" where
  "rbind None f = None"
| "rbind (Some (Ok x)) f = f x"
| "rbind (Some (Brk r)) f = Some (Brk r)"
| "rbind (Some UB) f = Some UB"

lemma rbind_Ok_iff: "rbind m f = Some (Ok y) \<longleftrightarrow> (\<exists>x. m = Some (Ok x) \<and> f x = Some (Ok y))"
  by (cases "(m, f)" rule: rbind.cases) auto

lemma rbind_cong [fundef_cong]:
  "m = m' \<Longrightarrow> (\<And>x. m' = Some (Ok x) \<Longrightarrow> f x = g x) \<Longrightarrow> rbind m f = rbind m' g"
  by (cases "(m, f)" rule: rbind.cases) auto

section \<open>Signed machine integers\<close>

text \<open>Signed arithmetic of \<open>n\<close> bits is exact or undefined; the conversion of a value to a signed
  type of \<open>n\<close> bits keeps the low bits.\<close>

definition fits_signed :: "nat \<Rightarrow> int \<Rightarrow> bool" where
  "fits_signed n x = (- (2 ^ (n - 1)) \<le> x \<and> x < 2 ^ (n - 1))"

definition arith :: "nat \<Rightarrow> int \<Rightarrow> int outcome" where
  "arith n x = (if fits_signed n x then Ok x else UB)"

abbreviation ll :: "int \<Rightarrow> int outcome" where "ll \<equiv> arith 64"

definition to_signed :: "nat \<Rightarrow> int \<Rightarrow> int" where
  "to_signed n x = (x + 2 ^ (n - 1)) mod 2 ^ n - 2 ^ (n - 1)"

lemma arith_ok [simp]: "fits_signed n x \<Longrightarrow> arith n x = Ok x"
  by (simp add: arith_def)

lemma arith_Ok_iff: "arith n x = Ok y \<longleftrightarrow> y = x \<and> fits_signed n x"
  by (auto simp: arith_def)

lemma to_signed_id: "0 < n \<Longrightarrow> fits_signed n x \<Longrightarrow> to_signed n x = x"
proof -
  assume n: "0 < n" and x: "fits_signed n x"
  have "(2::int) ^ n = 2 * 2 ^ (n - 1)" using n by (metis power_eq_if not_gr_zero)
  then have "(x + 2 ^ (n - 1)) mod 2 ^ n = x + 2 ^ (n - 1)"
    using x by (intro mod_pos_pos_trivial) (auto simp: fits_signed_def)
  then show ?thesis by (simp add: to_signed_def)
qed

lemma to_signed_fits: "0 < n \<Longrightarrow> fits_signed n (to_signed n x)"
proof -
  assume "0 < n"
  then have "(2::int) ^ n = 2 * 2 ^ (n - 1)" by (metis power_eq_if not_gr_zero)
  moreover have "0 \<le> (x + 2 ^ (n - 1)) mod 2 ^ n" "(x + 2 ^ (n - 1)) mod 2 ^ n < 2 ^ n" by simp_all
  ultimately show ?thesis unfolding fits_signed_def to_signed_def by linarith
qed

lemma fits_signed_mono:
  assumes "fits_signed m x" "m \<le> n"
  shows "fits_signed n x"
proof -
  have "(2::int) ^ (m - 1) \<le> 2 ^ (n - 1)" using assms(2) by (intro power_increasing) auto
  then show ?thesis using assms(1) unfolding fits_signed_def by linarith
qed

text \<open>Conversion to an unsigned type of 32 bits.\<close>

definition u32 :: "nat \<Rightarrow> nat" where "u32 n = n mod 2 ^ 32"

section \<open>Decimal output\<close>

function show_nat :: "nat \<Rightarrow> string" where
  "show_nat n = (if n < 10 then [char_of (48 + n)] else show_nat (n div 10) @ [char_of (48 + n mod 10)])"
  by pat_completeness auto
termination
  by (relation "measure id") auto

declare show_nat.simps [simp del]

definition show_int :: "int \<Rightarrow> string" where
  "show_int i = (if i < 0 then CHR ''-'' # show_nat (nat (- i)) else show_nat (nat i))"

lemma isdigit_char: "d < 10 \<Longrightarrow> isdigit (char_of (48 + d :: nat))"
  by (simp add: isdigit_def)

lemma char_of_zero: "char_of (48 :: nat) = CHR ''0''"
  by (simp add: char_of_eq_iff take_bit_eq_mod)

lemma char_of_digit_zero: "d < 10 \<Longrightarrow> char_of (48 + d) = CHR ''0'' \<longleftrightarrow> d = (0 :: nat)"
  by (auto simp: char_of_zero dest: arg_cong [where f = "of_char :: char \<Rightarrow> nat"])

lemma show_nat_digits: "c \<in> set (show_nat n) \<Longrightarrow> isdigit c"
  by (induction n arbitrary: c rule: show_nat.induct)
    (subst (asm) show_nat.simps, auto simp: isdigit_char split: if_splits)

lemma show_nat_nonempty [simp]: "show_nat n \<noteq> []"
  by (subst show_nat.simps) simp

lemma show_nat_hd: "hd (show_nat n) = CHR ''0'' \<longleftrightarrow> n = 0"
proof (induction n rule: show_nat.induct)
  case (1 n)
  show ?case
  proof (cases "n < 10")
    case True
    then show ?thesis using char_of_digit_zero [of n] by (subst show_nat.simps) simp
  next
    case False
    then show ?thesis using "1.IH" by (subst show_nat.simps) simp
  qed
qed

text \<open>The number that decimal digits denote.\<close>

definition digits_val :: "string \<Rightarrow> nat" where
  "digits_val = foldl (\<lambda>n c. 10 * n + (chr_code c - 48)) 0"

lemma digits_val_snoc: "digits_val (s @ [c]) = 10 * digits_val s + (chr_code c - 48)"
  by (simp add: digits_val_def)

lemma digits_val_show: "digits_val (show_nat n) = n"
proof (induction n rule: show_nat.induct)
  case (1 n)
  then show ?case
    by (subst show_nat.simps) (auto simp: digits_val_snoc, simp add: digits_val_def)
qed

lemma show_nat_zero: "show_nat 0 = ''0''"
  by (subst show_nat.simps) (simp add: char_of_zero)

lemma digit_not_sep:
  "isdigit c \<Longrightarrow> c \<noteq> CHR '','' \<and> c \<noteq> CHR ''-'' \<and> c \<noteq> CHR '':'' \<and> c \<noteq> CHR ''+'' \<and> c \<noteq> CHR ''.'' \<and> \<not> isspace c"
  by (auto simp: isdigit_def isspace_def)

text \<open>Scanning a printed number: nothing to skip, no sign, and the digits end where it ends.\<close>

lemma show_nat_scan:
  assumes "r = [] \<or> \<not> isdigit (hd r)"
  shows "dropWhile isspace (show_nat n @ r) = show_nat n @ r" "show_nat n @ r \<noteq> []"
    "hd (show_nat n @ r) \<noteq> CHR ''-''" "hd (show_nat n @ r) \<noteq> CHR ''+''"
    "takeWhile isdigit (show_nat n @ r) = show_nat n" "dropWhile isdigit (show_nat n @ r) = r"
proof -
  obtain d ds where d: "show_nat n = d # ds" using show_nat_nonempty [of n] by (cases "show_nat n") auto
  have dig: "isdigit d" using show_nat_digits [of d n] d by simp
  show "dropWhile isspace (show_nat n @ r) = show_nat n @ r" "show_nat n @ r \<noteq> []"
    "hd (show_nat n @ r) \<noteq> CHR ''-''" "hd (show_nat n @ r) \<noteq> CHR ''+''"
    using digit_not_sep [OF dig] d by auto
  have all: "\<forall>c \<in> set (show_nat n). isdigit c" using show_nat_digits by blast
  have "takeWhile isdigit r = []" "dropWhile isdigit r = r" using assms by (cases r; auto)+
  then show "takeWhile isdigit (show_nat n @ r) = show_nat n" "dropWhile isdigit (show_nat n @ r) = r" using all by simp_all
qed

end
