(* ===== verification/Kconfig.thy ===== *)
theory Kconfig
  imports Bool_Expr Res_Flags
begin

text \<open>
  The kernel configuration checks of \<^verbatim>\<open>lib/tst_kconfig.c\<close>: locating and reading the config
  file, parsing its lines, validating and collecting the variables of the boolean expressions, and
  the check itself. The environment (variables, files, \<^verbatim>\<open>uname\<close>, allocation) is the record \<open>kenv\<close>.
  The line buffer keeps its 128 cells, \<open>None\<close> for a cell never written: what \<^verbatim>\<open>fgets\<close> leaves
  behind the terminator is there for the code to read. An outer \<open>None\<close> is undefined behaviour.
\<close>

section \<open>Data\<close>

record tst_kconfig_var =
  kv_id :: string
  id_len :: nat
  choice :: char
  kv_val :: "string option"

definition ID_SIZE :: nat where "ID_SIZE = 64"
definition LINE_SIZE :: nat where "LINE_SIZE = 128"

record kenv =
  env_skip :: "string option"
  env_path :: "string option"
  file_exists :: "string \<Rightarrow> bool"
  release :: string
  fopen_r :: "string \<Rightarrow> string option"
  popen_r :: "string \<Rightarrow> string option"
  malloc_ok :: "nat \<Rightarrow> bool"

section \<open>Finding and opening the file\<close>

definition kconfig_skip_check :: "kenv \<Rightarrow> report list \<times> bool" where
  "kconfig_skip_check env =
     (case env_skip env of
        Some _ \<Rightarrow> ([(TINFO, ''Skipping kernel config check as requested'')], True)
      | None \<Rightarrow> ([], False))"

fun first_existing :: "(string \<Rightarrow> bool) \<Rightarrow> string list \<Rightarrow> string option" where
  "first_existing ex [] = None"
| "first_existing ex (p # ps) = (if ex p then Some p else first_existing ex ps)"

definition kconfig_path :: "kenv \<Rightarrow> nat \<Rightarrow> report list \<times> string option" where
  "kconfig_path env path_buf_len =
     (let search =
        first_existing (file_exists env)
          [''/proc/config.gz'',
           snprintf path_buf_len (''/lib/modules/'' @ release env @ ''/build/.config''),
           snprintf path_buf_len (''/lib/modules/'' @ release env @ ''/config''),
           snprintf path_buf_len (''/boot/config-'' @ release env),
           snprintf path_buf_len (''/lib/kernel/config-'' @ release env)];
        not_found = (case search of None \<Rightarrow> [(TINFO, ''Couldn't locate kernel config!'')] | _ \<Rightarrow> [])
      in case env_path env of
           Some path \<Rightarrow>
             if file_exists env path then ([], Some path)
             else ((TWARN, ''KCONFIG_PATH='' @ [SQUOTE] @ path @ [SQUOTE] @ '' does not exist'')
                     # not_found, search)
         | None \<Rightarrow> (not_found, search))"

definition open_kconfig :: "kenv \<Rightarrow> report list \<times> (report + string option)" where
  "open_kconfig env =
     (let (log, path) = kconfig_path env 1024
      in case path of
           None \<Rightarrow> (log, Inr None)
         | Some p \<Rightarrow>
             let log' = log @ [(TINFO, ''Parsing kernel config '' @ [SQUOTE] @ p @ [SQUOTE])];
                 is_gzip = strstr p ''.gz'' \<noteq> None;
                 fp = (if is_gzip then popen_r env (snprintf 1064 (''zcat '' @ [SQUOTE] @ p @ [SQUOTE]))
                       else fopen_r env p)
             in (case fp of
                  None \<Rightarrow> (log', Inl (TBROK OR TERRNO, ''Failed to open '' @ [SQUOTE] @ p @ [SQUOTE]))
                | Some content \<Rightarrow> (log', Inr (Some content))))"

section \<open>Reading the file\<close>

type_synonym line_buf = "char option list"

text \<open>The string in the buffer, up to its terminator.\<close>

definition line_str :: "line_buf \<Rightarrow> string option" where
  "line_str b =
     (let cs = takeWhile (\<lambda>c. c \<noteq> None \<and> c \<noteq> Some NUL) b
      in if length cs < length b \<and> b ! length cs = Some NUL then Some (map the cs) else None)"

text \<open>\<^verbatim>\<open>while (!isspace(val[val_len])) val_len++\<close>, which does not stop at the terminator.\<close>

fun nonspace_run :: "line_buf \<Rightarrow> nat option" where
  "nonspace_run [] = None"
| "nonspace_run (None # b) = None"
| "nonspace_run (Some c # b) = (if isspace c then Some 0 else map_option Suc (nonspace_run b))"

definition is_id_char :: "char \<Rightarrow> bool" where
  "is_id_char c = (isupper c \<or> isdigit c \<or> c = CHR ''_'')"

text \<open>The loop over the variables that are left, for the name at \<open>var\<close> in the line.\<close>

fun parse_line_vars ::
  "line_buf \<Rightarrow> string \<Rightarrow> bool \<Rightarrow> nat \<Rightarrow> nat \<Rightarrow> tst_kconfig_var list \<Rightarrow> (bool \<times> tst_kconfig_var list) option" where
  "parse_line_vars b s is_not_set var var_len [] = Some (False, [])"
| "parse_line_vars b s is_not_set var var_len (v # vs) =
     (let next = (\<lambda>v'. map_option (\<lambda>(r, vs'). (r, v' # vs'))
                        (parse_line_vars b s is_not_set var var_len vs))
      in if id_len v \<noteq> var_len then next v
         else if \<not> strncmp_eq (kv_id v) (drop var s) var_len then next v
         else if is_not_set then Some (True, v\<lparr>choice := CHR ''n''\<rparr> # vs)
         else
           let e = var + var_len + span_len isspace s (var + var_len)
           in if cat s e \<noteq> CHR ''='' then Some (False, v # vs)
              else
                let val = e + 1 + span_len isspace s (e + 1)
                in case nonspace_run (drop val b) of
                     None \<Rightarrow> None
                   | Some val_len \<Rightarrow>
                       if val_len = 1 \<and> cat s val = CHR ''y'' then Some (True, v\<lparr>choice := CHR ''y''\<rparr> # vs)
                       else if val_len = 1 \<and> cat s val = CHR ''m'' then Some (True, v\<lparr>choice := CHR ''m''\<rparr> # vs)
                       else next (v\<lparr>choice := CHR ''v'', kv_val := Some (take val_len (drop val s))\<rparr>))"

definition kconfig_parse_line ::
  "line_buf \<Rightarrow> tst_kconfig_var list \<Rightarrow> (bool \<times> tst_kconfig_var list) option" where
  "kconfig_parse_line b vars =
     (case line_str b of
        None \<Rightarrow> None
      | Some s \<Rightarrow>
          let p = span_len isspace s 0; line = drop p s
          in if cat line 0 = CHR ''#'' \<and> strstr line ''is not set'' = None then Some (False, vars)
             else (case strstr line ''CONFIG_'' of
                 None \<Rightarrow> Some (False, vars)
               | Some k \<Rightarrow> parse_line_vars b s (cat line 0 = CHR ''#'') (p + k)
                             (span_len is_id_char s (p + k)) vars))"

text \<open>\<^verbatim>\<open>fgets\<close> into the buffer: the line, a terminator, and what was there before.\<close>

definition store_line :: "line_buf \<Rightarrow> string \<Rightarrow> line_buf" where
  "store_line b l = map Some l @ Some NUL # drop (length l + 1) b"

function read_loop ::
  "line_buf \<Rightarrow> string \<Rightarrow> nat \<Rightarrow> tst_kconfig_var list \<Rightarrow> tst_kconfig_var list option" where
  "read_loop b fp vars_found vars =
     (case fgets LINE_SIZE fp of
        None \<Rightarrow> Some vars
      | Some (l, rest) \<Rightarrow>
          (case kconfig_parse_line (store_line b l) vars of
             None \<Rightarrow> None
           | Some (r, vars') \<Rightarrow>
               let vars_found' = (if r then vars_found + 1 else vars_found)
               in if vars_found' = length vars then Some vars'
                  else read_loop (store_line b l) rest vars_found' vars'))"
  by pat_completeness auto
termination
  by (relation "measure (\<lambda>(b, fp, f, vars). length fp)") (auto simp: LINE_SIZE_def dest: fgets_shorter)

declare read_loop.simps [simp del]

definition tst_kconfig_read ::
  "kenv \<Rightarrow> tst_kconfig_var list \<Rightarrow> (report list \<times> (report + tst_kconfig_var list)) option" where
  "tst_kconfig_read env vars =
     (case open_kconfig env of
        (log, Inl e) \<Rightarrow> Some (log, Inl e)
      | (log, Inr None) \<Rightarrow> Some (log, Inl (TBROK, ''Cannot parse kernel .config''))
      | (log, Inr (Some fp)) \<Rightarrow>
          map_option (\<lambda>vars'. (log, Inr vars')) (read_loop (replicate LINE_SIZE None) fp 0 vars))"

section \<open>Variables of the expressions\<close>

text \<open>\<^verbatim>\<open>while (kconfigs[++i]);\<close> on the cells of the array; the cell 0 is not looked at.\<close>

fun null_index :: "string option list \<Rightarrow> nat option" where
  "null_index [] = None"
| "null_index (None # ks) = Some 0"
| "null_index (Some k # ks) = map_option Suc (null_index ks)"

definition array_len :: "string option list \<Rightarrow> nat option" where
  "array_len kconfigs = map_option Suc (null_index (drop 1 kconfigs))"

fun strnchr :: "string \<Rightarrow> char \<Rightarrow> nat \<Rightarrow> nat option" where
  "strnchr s c 0 = None"
| "strnchr s c (Suc len) =
     (if cat s 0 = c then Some 0 else map_option Suc (strnchr (drop 1 s) c len))"

definition get_len :: "string \<Rightarrow> nat \<Rightarrow> nat" where
  "get_len kconfig len = (case strnchr kconfig (CHR ''='') len of None \<Rightarrow> len | Some sep \<Rightarrow> sep)"

text \<open>The string a token points into; it runs on behind the token.\<close>

definition tok_ptr :: "string \<Rightarrow> tst_expr_tok \<Rightarrow> string" where
  "tok_ptr expr t = drop (tok_pos t) expr"

definition print_err :: "string \<Rightarrow> nat \<Rightarrow> nat \<Rightarrow> string \<Rightarrow> string" where
  "print_err tok len spaces err =
     map (cat tok) [0..<len] @ [LF] @ replicate spaces (CHR '' '') @ ''^'' @ [LF] @ err @ [LF, LF]"

text \<open>The loop over the name from index \<open>i\<close>: \<open>Inl\<close> is a return from the function, \<open>Inr\<close> the
  index behind the loop.\<close>

function validate_name :: "string \<Rightarrow> nat \<Rightarrow> nat \<Rightarrow> int \<times> string + nat" where
  "validate_name tok len i =
     (if cat tok i = NUL then Inr i
      else if len \<le> i then Inl (0, [])
      else if isupper (cat tok i) \<or> cat tok i = CHR ''_'' then validate_name tok len (i + 1)
      else if isdigit (cat tok i) then validate_name tok len (i + 1)
      else if cat tok i = CHR ''='' then Inr (i + 1)
      else Inl (1, print_err tok len i ''Unexpected character in variable name''))"
  by pat_completeness auto
termination
  by (relation "measure (\<lambda>(tok, len, i). len - i)") auto

declare validate_name.simps [simp del]

text \<open>\<^verbatim>\<open>do i++ while (i < tok_len && p(tok[i]))\<close>\<close>

definition do_skip :: "(char \<Rightarrow> bool) \<Rightarrow> string \<Rightarrow> nat \<Rightarrow> nat \<Rightarrow> nat" where
  "do_skip p tok len i = i + 1 + length (takeWhile p (map (cat tok) [i + 1..<len]))"

definition validate_var :: "string \<Rightarrow> nat \<Rightarrow> int \<times> string" where
  "validate_var tok len =
     (if len < 7 \<or> \<not> strncmp_eq tok ''CONFIG_'' 7
      then (1, print_err tok len 0 ''Expected CONFIG_ prefix'')
      else (case validate_name tok len 7 of
          Inl r \<Rightarrow> r
        | Inr i \<Rightarrow>
            if len \<le> i then
              if cat tok (i - 1) = CHR ''='' then (- 1, print_err tok len i ''Missing value'')
              else (0, [])
            else if cat tok i = DQUOTE then
              let j = do_skip (\<lambda>c. c \<noteq> DQUOTE) tok len i
              in if j < len - 1 then (1, print_err tok len j ''Garbage after a string'')
                 else if cat tok j \<noteq> DQUOTE then (1, print_err tok len j ''Untermianted string'')
                 else (0, [])
            else
              let j = do_skip isalnum tok len i
              in if j < len then (1, print_err tok len j ''Invalid character in variable value'')
                 else (0, [])))"

text \<open>\<^verbatim>\<open>for (j = expr->rpn; j; j = j->next)\<close>: the tokens the walk visits.\<close>

partial_function (option) rpn_walk :: "tst_expr_tok list \<Rightarrow> tok_link \<Rightarrow> nat list option" where
  "rpn_walk b l =
     (case l of
        Unset \<Rightarrow> None
      | NullTok \<Rightarrow> Some []
      | Tok i \<Rightarrow>
          if i < length b then Option.bind (rpn_walk b (tok_next (b ! i))) (\<lambda>is. Some (i # is)) else None)"

declare rpn_walk.simps [code]

text \<open>An expression with the string its tokens point into.\<close>

type_synonym kexpr = "string \<times> tst_expr"

definition var_toks :: "kexpr \<Rightarrow> nat list option" where
  "var_toks x =
     map_option (filter (\<lambda>i. op_of (buf (snd x)) i = TST_OP_VAR)) (rpn_walk (buf (snd x)) (rpn (snd x)))"

definition validate_tok :: "kexpr \<Rightarrow> nat \<Rightarrow> int \<times> string" where
  "validate_tok x i =
     (let t = buf (snd x) ! i in validate_var (tok_ptr (fst x) t) (tok_len t))"

fun validate_toks :: "kexpr \<Rightarrow> nat list \<Rightarrow> int \<Rightarrow> int \<times> string" where
  "validate_toks x [] ret = (ret, [])"
| "validate_toks x (i # is) ret =
     (let (r, e) = validate_tok x i; (r', e') = validate_toks x is (ret OR r) in (r', e @ e'))"

fun validate_vars_from :: "kexpr list \<Rightarrow> int \<Rightarrow> (int \<times> string) option" where
  "validate_vars_from [] ret = Some (ret, [])"
| "validate_vars_from (x # xs) ret =
     (case var_toks x of
        None \<Rightarrow> None
      | Some is \<Rightarrow>
          (let (r, e) = validate_toks x is ret
           in map_option (\<lambda>(r', e'). (r', e @ e')) (validate_vars_from xs r)))"

definition validate_vars :: "kexpr list \<Rightarrow> (int \<times> string) option" where
  "validate_vars exprs = validate_vars_from exprs 0"

fun get_var_cnt :: "kexpr list \<Rightarrow> nat option" where
  "get_var_cnt [] = Some 0"
| "get_var_cnt (x # xs) =
     (case (var_toks x, get_var_cnt xs) of (Some is, Some n) \<Rightarrow> Some (length is + n) | _ \<Rightarrow> None)"

section \<open>The variable array\<close>

type_synonym var_array = "tst_kconfig_var option list"

definition find_var :: "var_array \<Rightarrow> nat \<Rightarrow> string \<Rightarrow> nat option" where
  "find_var vars var_cnt var = find (\<lambda>i. map_option kv_id (vars ! i) = Some var) [0..<var_cnt]"

definition populate_tok ::
  "kexpr \<Rightarrow> nat \<Rightarrow> var_array \<Rightarrow> nat \<Rightarrow> (report + kexpr \<times> var_array \<times> nat) option" where
  "populate_tok x i vars cnt =
     (let t = buf (snd x) ! i; len = get_len (tok_ptr (fst x) t) (tok_len t);
          set_priv = (\<lambda>k. (fst x, (snd x)\<lparr>buf := (buf (snd x))[i := t\<lparr>tok_priv := PrivVar k\<rparr>]\<rparr>))
      in if length vars \<le> cnt then None
         else if ID_SIZE \<le> len + 1 then Some (Inl (TBROK, ''kconfig var id too long!''))
         else
           let v = \<lparr>kv_id = take len (tok_ptr (fst x) t), id_len = len, choice = NUL, kv_val = None\<rparr>;
               vars' = vars[cnt := Some v]
           in case find_var vars' cnt (kv_id v) of
                Some k \<Rightarrow> Some (Inr (set_priv k, vars', cnt))
              | None \<Rightarrow> Some (Inr (set_priv cnt, vars', cnt + 1)))"

fun populate_toks ::
  "kexpr \<Rightarrow> nat list \<Rightarrow> var_array \<Rightarrow> nat \<Rightarrow> (report + kexpr \<times> var_array \<times> nat) option" where
  "populate_toks x [] vars cnt = Some (Inr (x, vars, cnt))"
| "populate_toks x (i # is) vars cnt =
     (case populate_tok x i vars cnt of
        None \<Rightarrow> None
      | Some (Inl e) \<Rightarrow> Some (Inl e)
      | Some (Inr (x', vars', cnt')) \<Rightarrow> populate_toks x' is vars' cnt')"

fun populate_vars ::
  "kexpr list \<Rightarrow> var_array \<Rightarrow> nat \<Rightarrow> (report + kexpr list \<times> var_array \<times> nat) option" where
  "populate_vars [] vars cnt = Some (Inr ([], vars, cnt))"
| "populate_vars (x # xs) vars cnt =
     (case var_toks x of
        None \<Rightarrow> None
      | Some is \<Rightarrow>
          (case populate_toks x is vars cnt of
             None \<Rightarrow> None
           | Some (Inl e) \<Rightarrow> Some (Inl e)
           | Some (Inr (x', vars', cnt')) \<Rightarrow>
               map_option (map_sum id (\<lambda>(xs', r). (x' # xs', r))) (populate_vars xs vars' cnt')))"

section \<open>Evaluation\<close>

text \<open>The function \<^verbatim>\<open>map\<close> on the variable a token points to.\<close>

definition map_var :: "tst_kconfig_var \<Rightarrow> string \<Rightarrow> nat \<Rightarrow> int option" where
  "map_var var tok tlen =
     (if choice var = NUL then Some 0
      else (case strnchr tok (CHR ''='') tlen of
          None \<Rightarrow> Some (c_bool (choice var = CHR ''y'' \<or> choice var = CHR ''m''))
        | Some sep \<Rightarrow>
            let val = drop (sep + 1) tok; len = tlen - (sep + 1);
                ch = (if strncmp_eq val ''m'' len then CHR ''m''
                      else if strncmp_eq val ''y'' len then CHR ''y''
                      else if strncmp_eq val ''n'' len then CHR ''n'' else CHR ''v'')
            in if ch \<noteq> CHR ''v'' then Some (c_bool (choice var = ch))
               else if choice var \<noteq> CHR ''v'' then Some 0
               else (case kv_val var of
                   None \<Rightarrow> None
                 | Some w \<Rightarrow>
                     Some (if length w \<noteq> len then 0 else c_bool (strncmp_eq val w len)))))"

definition map_tok :: "tst_kconfig_var list \<Rightarrow> string \<Rightarrow> tst_expr_tok \<Rightarrow> int option" where
  "map_tok vars expr t =
     (case tok_priv t of
        PrivVar k \<Rightarrow> if k < length vars then map_var (vars ! k) (tok_ptr expr t) (tok_len t) else None
      | _ \<Rightarrow> None)"

definition dump_var :: "tst_kconfig_var \<Rightarrow> report" where
  "dump_var var =
     (TINFO, if choice var = NUL then '' '' @ kv_id var @ '' Undefined''
       else if choice var = CHR ''v'' then '' '' @ kv_id var @ ''='' @ the (kv_val var)
       else '' '' @ kv_id var @ ''='' @ [choice var])"

definition dump_vars :: "tst_kconfig_var list \<Rightarrow> tst_expr \<Rightarrow> nat list \<Rightarrow> report list" where
  "dump_vars vars x is =
     (TINFO, ''Variables:'') #
       concat (map (\<lambda>i. case tok_priv (buf x ! i) of PrivVar k \<Rightarrow> [dump_var (vars ! k)] | _ \<Rightarrow> []) is)"

section \<open>The check\<close>

text \<open>The texts written to \<^verbatim>\<open>stderr\<close>, and the expressions unless one is invalid.\<close>

fun parse_exprs ::
  "(nat \<Rightarrow> bool) \<Rightarrow> nat \<Rightarrow> string option list \<Rightarrow> (string \<times> (report + kexpr list)) option" where
  "parse_exprs malloc i [] = Some ([], Inr [])"
| "parse_exprs malloc i (None # ks) = None"
| "parse_exprs malloc i (Some k # ks) =
     (case tst_bool_expr_parse (malloc i) k of
        None \<Rightarrow> None
      | Some (None, err) \<Rightarrow> Some (err, Inl (TBROK, ''Invalid kconfig expression!''))
      | Some (Some x, err) \<Rightarrow>
          map_option (\<lambda>(err', r). (err @ err', map_sum id ((#) (k, x)) r)) (parse_exprs malloc (i + 1) ks))"

text \<open>The final loop: the value returned so far and the log.\<close>

fun check_exprs :: "tst_kconfig_var list \<Rightarrow> kexpr list \<Rightarrow> int \<Rightarrow> (report list \<times> int) option" where
  "check_exprs vars [] ret = Some ([], ret)"
| "check_exprs vars (x # xs) ret =
     (case var_toks x of
        None \<Rightarrow> None
      | Some is \<Rightarrow>
          if \<exists>i\<in>set is. map_tok vars (fst x) (buf (snd x) ! i) = None then None
          else (case tst_bool_expr_eval (snd x) (\<lambda>t. the (map_tok vars (fst x) t)) of
              None \<Rightarrow> None
            | Some val \<Rightarrow>
                if val \<noteq> 1 then
                  map_option (\<lambda>(log, r).
                    ((TINFO, ''Constraint '' @ [SQUOTE] @ fst x @ [SQUOTE] @ '' not satisfied!'')
                       # dump_vars vars (snd x) is @ log, r)) (check_exprs vars xs 1)
                else check_exprs vars xs ret))"

definition tst_kconfig_check ::
  "kenv \<Rightarrow> string option list \<Rightarrow> (string \<times> report list \<times> (report + int)) option" where
  "tst_kconfig_check env kconfigs =
     (case array_len kconfigs of
        None \<Rightarrow> None
      | Some expr_cnt \<Rightarrow>
          (let (log, skip) = kconfig_skip_check env in
           if skip then Some ([], log, Inr 0)
           else (case parse_exprs (malloc_ok env) 0 (take expr_cnt kconfigs) of
               None \<Rightarrow> None
             | Some (err, Inl e) \<Rightarrow> Some (err, log, Inl e)
             | Some (err, Inr exprs) \<Rightarrow>
                 (case validate_vars exprs of
                    None \<Rightarrow> None
                  | Some (ret, err') \<Rightarrow>
                      if ret \<noteq> 0 then Some (err @ err', log, Inl (TBROK, ''Invalid kconfig variables!''))
                      else (case get_var_cnt exprs of
                          None \<Rightarrow> None
                        | Some n \<Rightarrow>
                            (case populate_vars exprs (replicate n None) 0 of
                               None \<Rightarrow> None
                             | Some (Inl e) \<Rightarrow> Some (err @ err', log, Inl e)
                             | Some (Inr (exprs', vars, cnt)) \<Rightarrow>
                                 (case tst_kconfig_read env (map the (take cnt vars)) of
                                    None \<Rightarrow> None
                                  | Some (rlog, Inl e) \<Rightarrow> Some (err @ err', log @ rlog, Inl e)
                                  | Some (rlog, Inr vars') \<Rightarrow>
                                      map_option (\<lambda>(clog, r). (err @ err', log @ rlog @ clog, Inr r))
                                        (check_exprs vars' exprs' 0))))))))"

definition tst_kconfig_get ::
  "kenv \<Rightarrow> string \<Rightarrow> (report list \<times> (report + char)) option" where
  "tst_kconfig_get env confname =
     (let (log, skip) = kconfig_skip_check env in
      if skip then Some (log, Inr NUL)
      else if ID_SIZE \<le> length confname
      then Some (log, Inl (TBROK, ''Kconfig var name '' @ [DQUOTE] @ confname @ [DQUOTE] @ '' too long''))
      else (case tst_kconfig_read env
              [\<lparr>kv_id = confname, id_len = length confname, choice = NUL, kv_val = None\<rparr>] of
          None \<Rightarrow> None
        | Some (rlog, Inl e) \<Rightarrow> Some (log @ rlog, Inl e)
        | Some (rlog, Inr vars) \<Rightarrow> Some (log @ rlog, Inr (choice (hd vars)))))"

end
