(* ===== verification/Kconfig_Read.thy ===== *)
theory Kconfig_Read
  imports Kconfig
begin

text \<open>
  Reading the configuration. A configuration file is a list of lines as the kernel build writes them:
  an option with its value, an option that is not set, or a remark. On the text of such a file the
  reader does not look behind a terminator, its early exit loses nothing, and every variable gets
  the choice and value that \<^verbatim>\<open>include/tst_kconfig.h\<close> promises, as long as the value of a variable it is
  asked for has no white space in it.
\<close>

section \<open>Configuration files\<close>

datatype config_line =
    Assign string string
  | Not_Set string
  | Remark string

primrec show_line :: "config_line \<Rightarrow> string" where
  "show_line (Assign nm w) = nm @ CHR ''='' # w @ [LF]"
| "show_line (Not_Set nm) = ''# '' @ nm @ '' is not set'' @ [LF]"
| "show_line (Remark t) = t @ [LF]"

definition show_config :: "config_line list \<Rightarrow> string" where
  "show_config cs = concat (map show_line cs)"

text \<open>What a line says of an option: its name, and its value unless it is not set.\<close>

primrec setting :: "config_line \<Rightarrow> (string \<times> string option) option" where
  "setting (Assign nm w) = Some (nm, Some w)"
| "setting (Not_Set nm) = Some (nm, None)"
| "setting (Remark t) = None"

definition config_of :: "config_line list \<Rightarrow> string \<Rightarrow> string option option" where
  "config_of cs = map_of (List.map_filter setting cs)"

definition config_name :: "string \<Rightarrow> bool" where
  "config_name nm = (take 7 nm = ''CONFIG_'' \<and> list_all is_id_char nm)"

definition on_one_line :: "string \<Rightarrow> bool" where
  "on_one_line t = (NUL \<notin> set t \<and> LF \<notin> set t)"

text \<open>Lines of the format: an option that is off is written as not set, never as \<^verbatim>\<open>=n\<close>; a value is
  not empty and does not start with white space; a remark is blank, or a comment that does not
  contain \<^verbatim>\<open>is not set\<close>; and the line with its newline fits into the buffer.\<close>

primrec wf_shape :: "config_line \<Rightarrow> bool" where
  "wf_shape (Assign nm w) =
     (config_name nm \<and> on_one_line w \<and> w \<noteq> [] \<and> \<not> isspace (hd w) \<and> w \<noteq> ''n'')"
| "wf_shape (Not_Set nm) = config_name nm"
| "wf_shape (Remark t) =
     (on_one_line t \<and> (list_all isspace t \<or> hd t = CHR ''#'' \<and> strstr (t @ [LF]) ''is not set'' = None))"

definition wf_config :: "config_line list \<Rightarrow> bool" where
  "wf_config cs =
     (list_all wf_shape cs \<and> list_all (\<lambda>c. length (show_line c) < LINE_SIZE) cs \<and>
      distinct (map fst (List.map_filter setting cs)))"

definition one_word :: "string option option \<Rightarrow> bool" where
  "one_word r = (case r of Some (Some w) \<Rightarrow> list_all (\<lambda>c. \<not> isspace c) w | _ \<Rightarrow> True)"

section \<open>What the parser takes from a line\<close>

text \<open>The variable a line names, its choice, and its value up to the first white space.\<close>

definition line_read :: "string \<Rightarrow> (string \<times> char \<times> string) option" where
  "line_read ln =
     (let s = dropWhile isspace ln; comment = (s \<noteq> [] \<and> hd s = CHR ''#'')
      in if comment \<and> strstr s ''is not set'' = None then None
         else (case strstr s ''CONFIG_'' of
             None \<Rightarrow> None
           | Some k \<Rightarrow>
               let nm = takeWhile is_id_char (drop k s);
                   rest = dropWhile isspace (dropWhile is_id_char (drop k s));
                   w = takeWhile (\<lambda>c. \<not> isspace c) (dropWhile isspace (tl rest))
               in if comment then Some (nm, CHR ''n'', [])
                  else if rest = [] \<or> hd rest \<noteq> CHR ''='' then None
                  else Some (nm, if w = ''y'' then CHR ''y'' else if w = ''m'' then CHR ''m'' else CHR ''v'', w)))"

definition wf_line :: "string \<Rightarrow> bool" where
  "wf_line ln =
     (ln \<noteq> [] \<and> last ln = LF \<and> LF \<notin> set (butlast ln) \<and> is_cstr ln \<and> length ln < LINE_SIZE \<and>
      (case line_read ln of Some (nm, ch, w) \<Rightarrow> ch = CHR ''n'' \<or> w \<noteq> [] | None \<Rightarrow> True))"

definition wf_text :: "string list \<Rightarrow> bool" where
  "wf_text ls = (list_all wf_line ls \<and> distinct (map fst (List.map_filter line_read ls)))"

text \<open>What a variable is after its line was read.\<close>

definition assign :: "char \<times> string \<Rightarrow> tst_kconfig_var \<Rightarrow> tst_kconfig_var" where
  "assign m v =
     (if fst m = CHR ''v'' then v\<lparr>choice := fst m, kv_val := Some (snd m)\<rparr> else v\<lparr>choice := fst m\<rparr>)"

definition apply_line :: "(string \<times> char \<times> string) option \<Rightarrow> tst_kconfig_var \<Rightarrow> tst_kconfig_var" where
  "apply_line m v = (case m of None \<Rightarrow> v | Some (nm, r) \<Rightarrow> if kv_id v = nm then assign r v else v)"

definition read_of :: "string list \<Rightarrow> string \<Rightarrow> (char \<times> string) option" where
  "read_of ls = map_of (List.map_filter line_read ls)"

definition set_var :: "string list \<Rightarrow> tst_kconfig_var \<Rightarrow> tst_kconfig_var" where
  "set_var ls v = (case read_of ls (kv_id v) of None \<Rightarrow> v | Some r \<Rightarrow> assign r v)"

definition wf_var :: "tst_kconfig_var \<Rightarrow> bool" where
  "wf_var v = (id_len v = length (kv_id v))"

section \<open>The buffer\<close>

lemma line_str_store_line: "is_cstr l \<Longrightarrow> line_str (store_line b l) = Some l"
proof -
  assume l: "is_cstr l"
  have "takeWhile (\<lambda>c. c \<noteq> None \<and> c \<noteq> Some NUL) (map Some l @ Some NUL # xs) = map Some l" for xs
    using l by (subst takeWhile_append2) (auto simp: is_cstr_def)
  then show ?thesis by (simp add: line_str_def store_line_def nth_append Let_def)
qed

lemma drop_store_line: "i \<le> length l \<Longrightarrow> drop i (store_line b l) = store_line (drop i b) (drop i l)"
  by (simp add: store_line_def drop_map add.commute)

lemma nonspace_run_line:
  "\<exists>c\<in>set s. isspace c \<Longrightarrow>
    nonspace_run (map Some s @ r) = Some (length (takeWhile (\<lambda>c. \<not> isspace c) s))"
  by (induction s) auto

text \<open>A line that ends in whitespace: the scan of the value stops inside it.\<close>

lemma scan_value:
  assumes "i < length l" "isspace (last l)"
  shows "nonspace_run (drop i (store_line b l)) = Some (length (takeWhile (\<lambda>c. \<not> isspace c) (drop i l)))"
proof -
  have "last l \<in> set (drop i l)" using assms(1) by (metis last_drop last_in_set drop_eq_Nil not_le)
  then have "\<exists>c\<in>set (drop i l). isspace c" using assms(2) by blast
  then show ?thesis
    using assms(1) by (simp add: drop_store_line) (simp add: store_line_def nonspace_run_line)
qed

section \<open>One line\<close>

lemma names_var:
  assumes "wf_var v"
  shows "(id_len v = length (takeWhile p r) \<and> strncmp_eq (kv_id v) r (length (takeWhile p r)))
    \<longleftrightarrow> kv_id v = takeWhile p r"
  using assms by (auto simp: wf_var_def strncmp_eq_def simp flip: takeWhile_eq_take)

lemma parse_line_vars_miss:
  assumes "wf_var v" "kv_id v \<noteq> takeWhile is_id_char (drop var s)"
  shows "parse_line_vars b s ns var (span_len is_id_char s var) (v # vs) =
    map_option (\<lambda>(r, vs'). (r, v # vs')) (parse_line_vars b s ns var (span_len is_id_char s var) vs)"
proof (cases "id_len v = span_len is_id_char s var")
  case True
  then have "\<not> strncmp_eq (kv_id v) (drop var s) (span_len is_id_char s var)"
    using names_var [OF assms(1), of is_id_char "drop var s"] assms(2) by (simp add: span_len_def)
  with True show ?thesis by (simp add: Let_def)
qed (simp add: Let_def)

lemma parse_line_vars_other:
  assumes "\<forall>v\<in>set vars. wf_var v" "takeWhile is_id_char (drop var s) \<notin> kv_id ` set vars"
  shows "parse_line_vars b s ns var (span_len is_id_char s var) vars = Some (False, vars)"
  using assms
proof (induction vars)
  case (Cons v vs)
  then have "kv_id v \<noteq> takeWhile is_id_char (drop var s)" "wf_var v" by auto
  with Cons show ?case by (simp add: parse_line_vars_miss del: parse_line_vars.simps)
qed simp

text \<open>The variable the line names: what follows the name decides.\<close>

lemma parse_line_vars_hit:
  assumes v: "wf_var v" "kv_id v = takeWhile is_id_char (drop var s)"
    and rest: "rest = dropWhile isspace (dropWhile is_id_char (drop var s))"
    and w: "w = takeWhile (\<lambda>c. \<not> isspace c) (dropWhile isspace (tl rest))"
    and l: "isspace (last s)" "ns \<or> rest = [] \<or> hd rest \<noteq> CHR ''='' \<or> w \<noteq> []"
  shows "parse_line_vars (store_line b s) s ns var (span_len is_id_char s var) (v # vs) =
    (if ns then Some (True, v\<lparr>choice := CHR ''n''\<rparr> # vs)
     else if rest = [] \<or> hd rest \<noteq> CHR ''='' then Some (False, v # vs)
     else if w = ''y'' then Some (True, v\<lparr>choice := CHR ''y''\<rparr> # vs)
     else if w = ''m'' then Some (True, v\<lparr>choice := CHR ''m''\<rparr> # vs)
     else map_option (\<lambda>(r, vs'). (r, v\<lparr>choice := CHR ''v'', kv_val := Some w\<rparr> # vs'))
       (parse_line_vars (store_line b s) s ns var (span_len is_id_char s var) vs))"
proof -
  let ?n = "span_len is_id_char s var"
  let ?e = "var + ?n + span_len isspace s (var + ?n)"
  let ?val = "?e + 1 + span_len isspace s (?e + 1)"
  have hit: "id_len v = ?n \<and> strncmp_eq (kv_id v) (drop var s) ?n"
    using names_var [OF v(1), of is_id_char "drop var s"] v(2) by (simp add: span_len_def)
  have e: "drop ?e s = rest" by (simp add: cstr_simps rest)
  have eq: "cat s ?e = CHR ''='' \<longleftrightarrow> \<not> (rest = [] \<or> hd rest \<noteq> CHR ''='')"
    using e by (cases rest) (auto simp: cat_hd)
  have val: "drop ?val s = dropWhile isspace (tl rest)"
  proof -
    have "drop (?e + 1) s = tl rest" using e by (metis drop_Suc tl_drop Suc_eq_plus1)
    then show ?thesis using drop_span_len [of "?e + 1" isspace s] by simp
  qed
  have ne: "drop ?val s \<noteq> []" if "w \<noteq> []"
    using that unfolding val w by (metis takeWhile.simps(1))
  have run: "nonspace_run (drop ?val (store_line b s)) = Some (length w)" if "w \<noteq> []"
    using scan_value [of ?val s b] ne [OF that] l val w by simp
  have tw: "take (length w) (drop ?val s) = w"
    unfolding val w by (rule takeWhile_eq_take [symmetric])
  have one: "length w = 1 \<and> cat s ?val = c \<longleftrightarrow> w = [c]" if nw: "w \<noteq> []" for c
  proof -
    obtain c0 r0 where d: "drop ?val s = c0 # r0"
      using ne [OF nw] by (meson neq_Nil_conv)
    then have "\<exists>r. w = c0 # r" using nw unfolding w val [symmetric] by (auto split: if_splits)
    moreover have "cat s ?val = c0" by (simp only: cat_hd d list.case)
    ultimately show ?thesis by auto
  qed
  show ?thesis
  proof (cases "ns \<or> rest = [] \<or> hd rest \<noteq> CHR ''=''")
    case True
    then show ?thesis using hit eq by (auto simp: Let_def)
  next
    case False
    then have "w \<noteq> []" "cat s ?e = CHR ''=''" using eq l(2) by blast+
    then show ?thesis using False hit run one tw by (simp add: Let_def)
  qed
qed

text \<open>All variables, for a line that means \<open>m\<close>: at most one of them changes.\<close>

lemma apply_line_None [simp]: "apply_line None = (\<lambda>v. v)"
  by (simp add: apply_line_def fun_eq_iff)

lemma apply_line_id [simp]: "kv_id (apply_line m v) = kv_id v" "id_len (apply_line m v) = id_len v"
  by (auto simp: apply_line_def assign_def split: option.splits)

lemma apply_line_other: "nm \<notin> kv_id ` set vs \<Longrightarrow> map (apply_line (Some (nm, r))) vs = vs"
  by (rule map_idI) (auto simp: apply_line_def)

lemma parse_line_vars_map:
  assumes vars: "\<forall>v\<in>set vars. wf_var v" "distinct (map kv_id vars)"
    and nm: "nm = takeWhile is_id_char (drop var s)"
    and rest: "rest = dropWhile isspace (dropWhile is_id_char (drop var s))"
    and w: "w = takeWhile (\<lambda>c. \<not> isspace c) (dropWhile isspace (tl rest))"
    and l: "isspace (last s)" "ns \<or> rest = [] \<or> hd rest \<noteq> CHR ''='' \<or> w \<noteq> []"
    and m: "m = (if ns then Some (nm, CHR ''n'', [])
      else if rest = [] \<or> hd rest \<noteq> CHR ''='' then None
      else Some (nm, if w = ''y'' then CHR ''y'' else if w = ''m'' then CHR ''m'' else CHR ''v'', w))"
  shows "parse_line_vars (store_line b s) s ns var (span_len is_id_char s var) vars =
    Some (\<exists>r. m = Some (nm, r) \<and> fst r \<noteq> CHR ''v'' \<and> nm \<in> kv_id ` set vars, map (apply_line m) vars)"
  using vars
proof (induction vars)
  case (Cons v vs)
  show ?case
  proof (cases "kv_id v = nm")
    case False
    then have "apply_line m v = v" by (auto simp: m apply_line_def)
    then show ?thesis using False Cons
      by (auto simp: parse_line_vars_miss nm simp del: parse_line_vars.simps)
  next
    case True
    then have o: "nm \<notin> kv_id ` set vs" using Cons.prems by auto
    have "parse_line_vars (store_line b s) s ns var (span_len is_id_char s var) vs = Some (False, vs)"
      using parse_line_vars_other [of vs var s] Cons.prems o nm by simp
    moreover have "map (apply_line m) vs = vs"
      using apply_line_other [OF o] by (simp add: m)
    moreover have "apply_line m v = (case m of None \<Rightarrow> v | Some (_, r) \<Rightarrow> assign r v)"
      using True by (auto simp: m apply_line_def)
    ultimately show ?thesis
      using True Cons.prems(1) parse_line_vars_hit [OF _ _ rest w l, of v b vs] nm
      by (auto simp: m assign_def simp del: parse_line_vars.simps)
  qed
qed simp

definition found_by :: "(string \<times> char \<times> string) option \<Rightarrow> string set \<Rightarrow> bool" where
  "found_by m ids = (case m of None \<Rightarrow> False | Some (nm, ch, _) \<Rightarrow> ch \<noteq> CHR ''v'' \<and> nm \<in> ids)"

lemma kconfig_parse_line_read:
  assumes "wf_line ln" "\<forall>v\<in>set vars. wf_var v" "distinct (map kv_id vars)"
  shows "kconfig_parse_line (store_line b ln) vars =
    Some (found_by (line_read ln) (kv_id ` set vars), map (apply_line (line_read ln)) vars)"
proof -
  let ?p = "span_len isspace ln 0" and ?s = "dropWhile isspace ln"
  have s: "drop ?p ln = ?s" using drop_span_len [of 0 isspace ln] by simp
  have cmt: "cat ?s 0 = CHR ''#'' \<longleftrightarrow> ?s \<noteq> [] \<and> hd ?s = CHR ''#''"
    by (cases ?s) (auto simp del: dropWhile_eq_Nil_conv)
  have ln: "line_str (store_line b ln) = Some ln" "isspace (last ln)"
    using assms(1) by (auto simp: wf_line_def line_str_store_line isspace_def)
  show ?thesis
  proof (cases "cat ?s 0 = CHR ''#'' \<and> strstr ?s ''is not set'' = None \<or> strstr ?s ''CONFIG_'' = None")
    case True
    then have "line_read ln = None" using cmt by (auto simp: line_read_def Let_def)
    then show ?thesis using True
      by (auto simp: kconfig_parse_line_def ln s Let_def found_by_def split: option.splits)
  next
    case False
    then obtain k where k: "strstr ?s ''CONFIG_'' = Some k" by auto
    let ?r = "drop (?p + k) ln"
    have r: "?r = drop k ?s" using s by (metis add.commute drop_drop)
    let ?nm = "takeWhile is_id_char ?r" and ?ns = "cat ?s 0 = CHR ''#''"
    let ?rest = "dropWhile isspace (dropWhile is_id_char ?r)"
    let ?w = "takeWhile (\<lambda>c. \<not> isspace c) (dropWhile isspace (tl ?rest))"
    have m: "line_read ln = (if ?ns then Some (?nm, CHR ''n'', [])
      else if ?rest = [] \<or> hd ?rest \<noteq> CHR ''='' then None
      else Some (?nm, if ?w = ''y'' then CHR ''y'' else if ?w = ''m'' then CHR ''m'' else CHR ''v'', ?w))"
      unfolding r cmt using False [unfolded cmt] k
      by (auto simp: line_read_def Let_def simp del: dropWhile_eq_Nil_conv)
    have w: "?ns \<or> ?rest = [] \<or> hd ?rest \<noteq> CHR ''='' \<or> ?w \<noteq> []"
      using assms(1) m by (auto simp: wf_line_def simp del: dropWhile_eq_Nil_conv split: if_splits)
    have "kconfig_parse_line (store_line b ln) vars =
        parse_line_vars (store_line b ln) ln ?ns (?p + k) (span_len is_id_char ln (?p + k)) vars"
      using False k by (auto simp: kconfig_parse_line_def ln s Let_def)
    also have "\<dots> = Some (\<exists>r. line_read ln = Some (?nm, r) \<and> fst r \<noteq> CHR ''v'' \<and> ?nm \<in> kv_id ` set vars,
        map (apply_line (line_read ln)) vars)"
      using assms(2,3) by (rule parse_line_vars_map [OF _ _ refl refl refl ln(2) w m])
    also have "(\<exists>r. line_read ln = Some (?nm, r) \<and> fst r \<noteq> CHR ''v'' \<and> ?nm \<in> kv_id ` set vars) =
        found_by (line_read ln) (kv_id ` set vars)"
      unfolding m found_by_def by (auto simp del: dropWhile_eq_Nil_conv)
    finally show ?thesis .
  qed
qed

section \<open>The whole file\<close>

lemma fgets_wf_line: "wf_line ln \<Longrightarrow> fgets LINE_SIZE (ln @ r) = Some (ln, r)"
proof -
  assume "wf_line ln"
  then obtain l where "ln = l @ [LF]" "LF \<notin> set l" "length l + 1 < LINE_SIZE"
    by (auto simp: wf_line_def) (metis append_butlast_last_id length_append_singleton)
  then show ?thesis using fgets_line [of l LINE_SIZE r] by simp
qed

lemma set_var_Cons:
  assumes "distinct (map fst (List.map_filter line_read (ln # ls)))"
  shows "set_var ls (apply_line (line_read ln) v) = set_var (ln # ls) v"
proof (cases "line_read ln")
  case (Some m)
  then have "read_of ls (fst m) = None"
    using assms by (auto simp: read_of_def map_of_eq_None_iff)
  then show ?thesis using Some
    by (cases m) (auto simp: set_var_def read_of_def apply_line_def assign_def)
qed (simp add: set_var_def read_of_def)

text \<open>The variables found so far are those no later line names; if all are, nothing is lost.\<close>

lemma read_loop_meaning:
  assumes "wf_text ls" "\<forall>v\<in>set vars. wf_var v" "distinct (map kv_id vars)"
    "A \<subseteq> kv_id ` set vars" "card A = n" "A \<inter> set (map fst (List.map_filter line_read ls)) = {}"
  shows "read_loop b (concat ls) n vars = Some (map (set_var ls) vars)"
  using assms
proof (induction ls arbitrary: b n vars A)
  case Nil
  then show ?case
    by (simp add: read_loop.simps [of b "[]"] fgets_def set_var_def read_of_def)
next
  case (Cons ln ls)
  let ?m = "line_read ln" and ?ids = "kv_id ` set vars"
  let ?vars = "map (apply_line ?m) vars"
  let ?n = "if found_by ?m ?ids then n + 1 else n"
  define A' where "A' = (if found_by ?m ?ids then insert (fst (the ?m)) A else A)"
  have ids: "kv_id ` set ?vars = ?ids" "map kv_id ?vars = map kv_id vars" by (auto simp: image_image)
  have A': "A' \<subseteq> ?ids" "A' \<inter> set (map fst (List.map_filter line_read ls)) = {}"
    using Cons.prems(1,4,6)
    by (auto simp: A'_def found_by_def wf_text_def split: option.splits) (metis fst_conv image_eqI)
  have "finite A" using Cons.prems(4) finite_subset by blast
  then have c: "card A' = ?n"
    using Cons.prems(5,6) by (auto simp: A'_def found_by_def split: option.splits)
  have rest: "map (set_var ls) ?vars = map (set_var (ln # ls)) vars"
    using set_var_Cons [of ln ls] Cons.prems(1) by (simp add: wf_text_def)
  have wf: "wf_text ls" "wf_line ln" "\<forall>v\<in>set ?vars. wf_var v"
    using Cons.prems(1,2) by (auto simp: wf_text_def wf_var_def split: option.splits)
  have step: "read_loop b (concat (ln # ls)) n vars =
      (if ?n = length vars then Some ?vars else read_loop (store_line b ln) (concat ls) ?n ?vars)"
    using Cons.prems(2,3) wf(2)
    by (simp add: read_loop.simps [of b] fgets_wf_line kconfig_parse_line_read)
  show ?case
  proof (cases "?n = length vars")
    case True
    then have "card A' = card ?ids" using c Cons.prems(3) by (simp add: distinct_card flip: set_map)
    then have "A' = ?ids" using A'(1) by (simp add: card_subset_eq)
    then have "read_of ls (kv_id v) = None" if "v \<in> set vars" for v
      using A'(2) that by (auto simp: read_of_def map_of_eq_None_iff)
    then have "set_var ls v = v" if "v \<in> set ?vars" for v
      using that by (auto simp: set_var_def)
    then have "map (set_var ls) ?vars = ?vars" by (intro map_idI)
    then show ?thesis using step True rest by simp
  next
    case False
    have "read_loop (store_line b ln) (concat ls) ?n ?vars = Some (map (set_var ls) ?vars)"
      using Cons.prems(3) A'(1) by (intro Cons.IH [OF wf(1,3) _ _ c A'(2)]) (simp_all only: ids)
    then show ?thesis using False step rest by simp
  qed
qed

lemma read_config:
  assumes "wf_text ls" "\<forall>v\<in>set vars. wf_var v" "distinct (map kv_id vars)"
  shows "read_loop b (concat ls) 0 vars = Some (map (set_var ls) vars)"
  using assms by (intro read_loop_meaning [where A = "{}"]) simp_all

section \<open>Files of the format\<close>

lemma id_char_not_space: "is_id_char c \<Longrightarrow> \<not> isspace c \<and> c \<noteq> NUL \<and> c \<noteq> LF \<and> c \<noteq> CHR ''='' \<and> c \<noteq> CHR ''#''"
  by (auto simp: is_id_char_def isspace_def isupper_def isdigit_def)

lemma config_name_split: "config_name nm \<longleftrightarrow> (\<exists>r. nm = ''CONFIG_'' @ r \<and> list_all is_id_char r)"
proof
  assume "config_name nm"
  then have "nm = ''CONFIG_'' @ drop 7 nm" "list_all is_id_char (drop 7 nm)"
    using append_take_drop_id [of 7 nm] by (auto simp: config_name_def list_all_iff dest: in_set_dropD)
  then show "\<exists>r. nm = ''CONFIG_'' @ r \<and> list_all is_id_char r" by blast
qed (auto simp: config_name_def is_id_char_def isupper_def)

lemma takeWhile_id_char:
  assumes "list_all is_id_char nm" "\<not> is_id_char c"
  shows "takeWhile is_id_char (nm @ c # r) = nm" "dropWhile is_id_char (nm @ c # r) = c # r"
  using assms by (auto simp: list_all_iff)

lemma strstr_append: "\<exists>k. strstr (a @ n @ b) n = Some k"
proof (cases "strstr (a @ n @ b) n")
  case None
  then show ?thesis using strstr_None [of "a @ n @ b" n "length a"] by simp
qed simp

primrec read_setting :: "config_line \<Rightarrow> (string \<times> char \<times> string) option" where
  "read_setting (Assign nm w) =
     (let u = takeWhile (\<lambda>c. \<not> isspace c) w
      in Some (nm, if u = ''y'' then CHR ''y'' else if u = ''m'' then CHR ''m'' else CHR ''v'', u))"
| "read_setting (Not_Set nm) = Some (nm, CHR ''n'', [])"
| "read_setting (Remark t) = None"

lemma line_read_shown: "wf_shape c \<Longrightarrow> line_read (show_line c) = read_setting c"
proof (cases c)
  case (Assign nm w)
  assume "wf_shape c"
  then obtain r where nm: "nm = ''CONFIG_'' @ r" "list_all is_id_char nm" and w: "w \<noteq> []" "\<not> isspace (hd w)"
    using Assign by (auto simp: config_name_split) (auto simp: is_id_char_def isupper_def)
  have tw: "takeWhile (\<lambda>c. \<not> isspace c) (w @ [LF]) = takeWhile (\<lambda>c. \<not> isspace c) w"
    by (induction w) (auto simp: isspace_def)
  have dw: "dropWhile isspace (w @ [LF]) = w @ [LF]" using w by (cases w) auto
  have "dropWhile isspace (show_line c) = show_line c" "strstr (show_line c) ''CONFIG_'' = Some 0"
    "hd (show_line c) \<noteq> CHR ''#''" by (auto simp: Assign nm(1) isspace_def)
  moreover have "\<not> is_id_char (CHR ''='')" "\<not> isspace (CHR ''='')"
    by (simp_all add: is_id_char_def isupper_def isdigit_def isspace_def)
  ultimately show ?thesis
    using takeWhile_id_char [OF nm(2), of "CHR ''=''" "w @ [LF]"] tw dw
    by (simp add: line_read_def Assign Let_def)
next
  case (Not_Set nm)
  assume "wf_shape c"
  then obtain r where nm: "nm = ''CONFIG_'' @ r" "list_all is_id_char nm"
    using Not_Set by (auto simp: config_name_split) (auto simp: is_id_char_def isupper_def)
  have "strstr (show_line c) ''is not set'' \<noteq> None"
    using strstr_append [of "''# '' @ nm @ '' ''" "''is not set''" "[LF]"] by (simp add: Not_Set)
  moreover have "dropWhile isspace (show_line c) = show_line c" "strstr (show_line c) ''CONFIG_'' = Some 2"
    "hd (show_line c) = CHR ''#''" "show_line c \<noteq> []"
    by (simp_all add: Not_Set nm(1) isspace_def)
  moreover have "\<not> is_id_char (CHR '' '')" by (simp add: is_id_char_def isupper_def isdigit_def)
  then have "takeWhile is_id_char (drop 2 (show_line c)) = nm"
    using takeWhile_id_char(1) [OF nm(2), of "CHR '' ''"] by (simp add: Not_Set)
  ultimately show ?thesis by (simp add: line_read_def Let_def) (simp add: Not_Set)
next
  case (Remark t)
  assume "wf_shape c"
  then have t: "list_all isspace t \<or> hd t = CHR ''#'' \<and> strstr (t @ [LF]) ''is not set'' = None"
    by (simp add: Remark)
  show ?thesis
  proof (cases "list_all isspace t")
    case True
    then have "dropWhile isspace (t @ [LF]) = []" by (auto simp: list_all_iff isspace_def)
    then show ?thesis by (simp add: line_read_def Remark Let_def)
  next
    case False
    then have h: "t \<noteq> []" "hd t = CHR ''#''" using t by auto
    then have "dropWhile isspace (t @ [LF]) = t @ [LF]" by (cases t) (auto simp: isspace_def)
    then show ?thesis using False t h by (simp add: line_read_def Remark Let_def)
  qed
qed

lemma wf_line_shown: "wf_shape c \<Longrightarrow> length (show_line c) < LINE_SIZE \<Longrightarrow> wf_line (show_line c)"
proof -
  assume c: "wf_shape c" "length (show_line c) < LINE_SIZE"
  have nm: "NUL \<notin> set nm \<and> LF \<notin> set nm" if "config_name nm" for nm
    using that id_char_not_space by (auto simp: config_name_def list_all_iff)
  have "\<exists>l. show_line c = l @ [LF] \<and> on_one_line l"
    using c(1) nm by (cases c) (auto simp: on_one_line_def intro: exI [of _ "_ @ CHR ''='' # _"] exI [of _ "''# '' @ _ @ '' is not set''"])
  then obtain l where l: "show_line c = l @ [LF]" "on_one_line l" by blast
  moreover have "case read_setting c of Some (nm, ch, w) \<Rightarrow> ch = CHR ''n'' \<or> w \<noteq> [] | None \<Rightarrow> True"
    using c(1) by (cases c) (auto simp: Let_def takeWhile_eq_Nil_iff)
  ultimately show ?thesis
    using c(2) line_read_shown [OF c(1)] by (auto simp: wf_line_def on_one_line_def is_cstr_def)
qed

lemma map_filter_shown:
  "list_all wf_shape cs \<Longrightarrow> List.map_filter line_read (map show_line cs) = List.map_filter read_setting cs"
  by (induction cs) (auto simp: line_read_shown split: option.splits)

lemma read_setting_names: "map fst (List.map_filter read_setting cs) = map fst (List.map_filter setting cs)"
proof (induction cs)
  case (Cons c cs)
  then show ?case by (cases c) (auto simp: Let_def)
qed simp

lemma wf_text_shown: "wf_config cs \<Longrightarrow> wf_text (map show_line cs)"
  using wf_line_shown
  by (auto simp: wf_config_def wf_text_def map_filter_shown read_setting_names list_all_iff)

text \<open>The choice and the value of a variable, as \<^verbatim>\<open>include/tst_kconfig.h\<close> describes them.\<close>

definition set_choice :: "string option option \<Rightarrow> tst_kconfig_var \<Rightarrow> tst_kconfig_var" where
  "set_choice r v =
     (case r of
        None \<Rightarrow> v
      | Some None \<Rightarrow> v\<lparr>choice := CHR ''n''\<rparr>
      | Some (Some w) \<Rightarrow>
          if w = ''y'' then v\<lparr>choice := CHR ''y''\<rparr>
          else if w = ''m'' then v\<lparr>choice := CHR ''m''\<rparr>
          else v\<lparr>choice := CHR ''v'', kv_val := Some w\<rparr>)"

lemma read_of_shown:
  assumes "list_all wf_shape cs" "one_word (config_of cs nm)"
  shows "read_of (map show_line cs) nm =
    (case config_of cs nm of
       None \<Rightarrow> None
     | Some None \<Rightarrow> Some (CHR ''n'', [])
     | Some (Some w) \<Rightarrow> Some (if w = ''y'' then CHR ''y'' else if w = ''m'' then CHR ''m'' else CHR ''v'', w))"
  using assms
proof (induction cs)
  case (Cons c cs)
  note r = line_read_shown [of c]
  show ?case
  proof (cases "map_option fst (setting c) = Some nm")
    case True
    show ?thesis
    proof (cases c)
      case (Assign n w)
      then have "list_all (\<lambda>c. \<not> isspace c) w" using True Cons.prems(2) by (simp add: config_of_def one_word_def)
      then have tw: "takeWhile (\<lambda>c. \<not> isspace c) w = w" by (auto simp: list_all_iff)
      have "line_read (show_line c) =
          Some (n, if w = ''y'' then CHR ''y'' else if w = ''m'' then CHR ''m'' else CHR ''v'', w)"
        using Cons.prems(1) r by (simp only: list.pred_inject simp_thms Assign read_setting.simps Let_def tw)
      then show ?thesis using True Assign by (simp add: read_of_def config_of_def)
    qed (use True Cons.prems r in \<open>simp_all add: read_of_def config_of_def\<close>)
  next
    case False
    then have "config_of (c # cs) nm = config_of cs nm"
      "read_of (map show_line (c # cs)) nm = read_of (map show_line cs) nm"
      using r Cons.prems(1) by (cases c; auto simp: read_of_def config_of_def Let_def)+
    then show ?thesis using Cons by simp
  qed
qed (simp add: read_of_def config_of_def)

lemma set_var_shown:
  "list_all wf_shape cs \<Longrightarrow> one_word (config_of cs (kv_id v)) \<Longrightarrow>
    set_var (map show_line cs) v = set_choice (config_of cs (kv_id v)) v"
  by (auto simp: set_var_def read_of_shown set_choice_def assign_def split: option.splits)

section \<open>Properties\<close>

text \<open>C6: for a configuration file of the format, and variables with different names whose values in it
  have no white space, the reader never reads behind the terminator of a line or an uninitialised
  cell, and each variable ends as \<^verbatim>\<open>include/tst_kconfig.h\<close> says: choice y, m or v by its whole value,
  with a copy of the value for v, choice n if its line says it is not set, and unchanged if no line
  names it. Leaving the loop once enough variables are found loses nothing. (A value with white
  space is cut at the white space.)\<close>

theorem tst_kconfig_read_correct:
  assumes "wf_config cs" "\<forall>v\<in>set vars. wf_var v" "distinct (map kv_id vars)"
    "\<forall>v\<in>set vars. one_word (config_of cs (kv_id v))"
    "open_kconfig env = (log, Inr (Some (show_config cs)))"
  shows "tst_kconfig_read env vars =
    Some (log, Inr (map (\<lambda>v. set_choice (config_of cs (kv_id v)) v) vars))"
proof -
  have "\<forall>v\<in>set vars. set_var (map show_line cs) v = set_choice (config_of cs (kv_id v)) v"
    using assms(1,4) set_var_shown by (auto simp: wf_config_def)
  then show ?thesis
    using assms(5) read_config [OF wf_text_shown [OF assms(1)] assms(2,3)]
    by (simp add: tst_kconfig_read_def show_config_def)
qed

text \<open>A concrete environment: one file, no variable set but its path.\<close>

definition one_file_env :: "string \<Rightarrow> kenv" where
  "one_file_env content =
     \<lparr>env_skip = None, env_path = Some ''/c'', file_exists = (\<lambda>p. p = ''/c''), release = ''5.19'',
      fopen_r = (\<lambda>p. if p = ''/c'' then Some content else None), popen_r = (\<lambda>_. None),
      malloc_ok = (\<lambda>_. True)\<rparr>"

definition sample_config :: "config_line list" where
  "sample_config =
     [Remark ''# Linux 5.19'', Remark [], Assign ''CONFIG_CC_VERSION_TEXT'' (DQUOTE # ''gcc 12'' @ [DQUOTE]),
      Assign ''CONFIG_A'' ''y'', Not_Set ''CONFIG_B'', Assign ''CONFIG_HZ'' ''250'']"

definition new_var :: "string \<Rightarrow> tst_kconfig_var" where
  "new_var nm = \<lparr>kv_id = nm, id_len = length nm, choice = NUL, kv_val = None\<rparr>"

lemma tst_kconfig_read_correct_witness:
  "map_option (map_sum id (map (\<lambda>v. (choice v, kv_val v))) \<circ> snd)
     (tst_kconfig_read (one_file_env (show_config sample_config))
        [new_var ''CONFIG_HZ'', new_var ''CONFIG_C'', new_var ''CONFIG_A'']) =
   Some (Inr [(CHR ''v'', Some ''250''), (NUL, None), (CHR ''y'', None)])"
proof -
  let ?vars = "[new_var ''CONFIG_HZ'', new_var ''CONFIG_C'', new_var ''CONFIG_A'']"
  let ?env = "one_file_env (show_config sample_config)"
  have "wf_config sample_config" by code_simp
  moreover have "\<forall>v\<in>set ?vars. wf_var v" "distinct (map kv_id ?vars)"
    by (simp_all add: wf_var_def new_var_def)
  moreover have "snd (open_kconfig ?env) = Inr (Some (show_config sample_config))" by code_simp
  moreover have c: "config_of sample_config ''CONFIG_HZ'' = Some (Some ''250'')"
    "config_of sample_config ''CONFIG_C'' = None" "config_of sample_config ''CONFIG_A'' = Some (Some ''y'')"
    by code_simp+
  moreover have "\<forall>v\<in>set ?vars. one_word (config_of sample_config (kv_id v))"
    by (simp add: new_var_def c one_word_def isspace_def)
  ultimately show ?thesis
    using tst_kconfig_read_correct [of sample_config ?vars ?env "fst (open_kconfig ?env)"]
    by (simp add: prod_eq_iff new_var_def set_choice_def)
qed

end
