(* ===== verification/Bool_Expr_Grammar.thy ===== *)
theory Bool_Expr_Grammar
  imports Bool_Expr
begin

text \<open>
  The shunting yard against a grammar of boolean expressions in which \<^verbatim>\<open>&\<close> and \<^verbatim>\<open>|\<close> have
  the same priority and associate to the left and \<^verbatim>\<open>!\<close> binds tighter. The array
  stacks of the source are first refined to lists; no write leaves an array. The
  list machine is then shown to accept exactly the sentences of the grammar and to
  produce their postfix form.
\<close>

section \<open>Grammar and postfix form\<close>

datatype bexp = EVar nat | ENot nat bexp | EBin nat bexp bexp

definition is_bin :: "tst_op \<Rightarrow> bool" where
  "is_bin o1 = (o1 = TST_OP_AND \<or> o1 = TST_OP_OR)"

inductive factor :: "(nat \<Rightarrow> tst_op) \<Rightarrow> nat list \<Rightarrow> bexp \<Rightarrow> bool"
  and sentence :: "(nat \<Rightarrow> tst_op) \<Rightarrow> nat list \<Rightarrow> bexp \<Rightarrow> bool"
  for opf :: "nat \<Rightarrow> tst_op" where
  f_var: "opf i = TST_OP_VAR \<Longrightarrow> factor opf [i] (EVar i)"
| f_par: "sentence opf us e \<Longrightarrow> opf l = TST_OP_LPAR \<Longrightarrow> opf r = TST_OP_RPAR \<Longrightarrow>
    factor opf (l # us @ [r]) e"
| f_not: "factor opf us e \<Longrightarrow> opf n = TST_OP_NOT \<Longrightarrow> factor opf (n # us) (ENot n e)"
| s_factor: "factor opf us e \<Longrightarrow> sentence opf us e"
| s_bin: "sentence opf us e \<Longrightarrow> is_bin (opf p) \<Longrightarrow> factor opf vs f \<Longrightarrow>
    sentence opf (us @ p # vs) (EBin p e f)"

fun postfix :: "bexp \<Rightarrow> nat list" where
  "postfix (EVar i) = [i]"
| "postfix (ENot n e) = postfix e @ [n]"
| "postfix (EBin p e f) = postfix e @ postfix f @ [p]"

lemma postfix_not_Nil [simp]: "postfix e \<noteq> []"
  by (cases e) auto

section \<open>The machine on lists\<close>

type_synonym asy = "nat list \<times> nat list \<times> tst_op option"

abbreviation nots :: "(nat \<Rightarrow> tst_op) \<Rightarrow> nat list \<Rightarrow> nat list" where
  "nots opf S \<equiv> takeWhile (\<lambda>i. opf i = TST_OP_NOT) S"

abbreviation no_nots :: "(nat \<Rightarrow> tst_op) \<Rightarrow> nat list \<Rightarrow> nat list" where
  "no_nots opf S \<equiv> dropWhile (\<lambda>i. opf i = TST_OP_NOT) S"

abbreviation to_lpar :: "(nat \<Rightarrow> tst_op) \<Rightarrow> nat list \<Rightarrow> nat list" where
  "to_lpar opf S \<equiv> takeWhile (\<lambda>i. opf i \<noteq> TST_OP_LPAR) S"

abbreviation from_lpar :: "(nat \<Rightarrow> tst_op) \<Rightarrow> nat list \<Rightarrow> nat list" where
  "from_lpar opf S \<equiv> dropWhile (\<lambda>i. opf i \<noteq> TST_OP_LPAR) S"

fun asy_step :: "(nat \<Rightarrow> tst_op) \<Rightarrow> nat \<Rightarrow> asy \<Rightarrow> string + asy" where
  "asy_step opf i (S, ou, p) =
     (case opf i of
        TST_OP_VAR \<Rightarrow>
          if check_one p then Inl ''Expected operation''
          else Inr (no_nots opf S, ou @ i # nots opf S, Some (opf i))
      | TST_OP_RPAR \<Rightarrow>
          if \<not> check_two p then Inl ''Expected variable or )''
          else (case from_lpar opf S of
              [] \<Rightarrow> Inl ''Missing (''
            | l # S' \<Rightarrow> Inr (no_nots opf S', ou @ to_lpar opf S @ nots opf S', Some (opf i)))
      | o1 \<Rightarrow>
          if is_bin o1 then
            if \<not> check_two p then Inl ''Expected variable or (''
            else (case S of
                k # S' \<Rightarrow> if is_bin (opf k) then Inr (i # S', ou @ [k], Some (opf i))
                         else Inr (i # S, ou, Some (opf i))
              | [] \<Rightarrow> Inr (i # S, ou, Some (opf i)))
          else if check_one p then Inl ''Expected operation''
          else Inr (i # S, ou, Some (opf i)))"

fun asy_loop :: "(nat \<Rightarrow> tst_op) \<Rightarrow> nat list \<Rightarrow> asy \<Rightarrow> nat \<times> string + asy" where
  "asy_loop opf [] a = Inr a"
| "asy_loop opf (i # is) a =
     (case asy_step opf i a of Inl e \<Rightarrow> Inl (i, e) | Inr a' \<Rightarrow> asy_loop opf is a')"

lemma asy_loop_append:
  "asy_loop opf (us @ vs) a =
    (case asy_loop opf us a of Inl e \<Rightarrow> Inl e | Inr a' \<Rightarrow> asy_loop opf vs a')"
  by (induction us arbitrary: a) (auto split: sum.splits)

section \<open>Refinement of the array stacks\<close>

definition ou_list :: "nat cstack \<Rightarrow> nat list" where
  "ou_list ou = rev (stack_list ou)"

lemma ou_list_push: "stack_list ou' = i # stack_list ou \<Longrightarrow> ou_list ou' = ou_list ou @ [i]"
  by (simp add: ou_list_def)

lemma length_ou_list [simp]: "length (ou_list ou) = length (stack_list ou)"
  by (simp add: ou_list_def)

definition room :: "nat cstack \<Rightarrow> nat cstack \<Rightarrow> bool" where
  "room st ou =
     (stack_inv st \<and> stack_inv ou \<and> length (stack_list st) + length (stack_list ou) \<le> stack_cap ou)"

lemma room_move:
  assumes "room st ou" "stack_list st = i # S"
  obtains st' ou' where "stack_pop st = (Some i, st')" "stack_push ou i = Some ou'" "room st' ou'"
    "stack_list st' = S" "ou_list ou' = ou_list ou @ [i]" "stack_cap st' = stack_cap st"
    "stack_cap ou' = stack_cap ou"
proof -
  have inv: "stack_inv st" "stack_inv ou"
    and le: "length (stack_list st) + length (stack_list ou) \<le> stack_cap ou"
    using assms(1) by (auto simp: room_def)
  obtain st' ou' where "stack_pop st = (Some i, st')" "stack_push ou i = Some ou'"
    "stack_inv st'" "stack_inv ou'" "stack_list st' = S" "stack_list ou' = i # stack_list ou"
    "stack_cap st' = stack_cap st" "stack_cap ou' = stack_cap ou"
    "length (stack_list st') + length (stack_list ou') \<le> stack_cap ou'"
    using op_stack.move_top [OF inv assms(2) le] .
  then show ?thesis by (intro that [of st' ou']) (simp_all add: room_def ou_list_def)
qed

lemma pop_nots_refine:
  "room st ou \<Longrightarrow> stack_list st = S \<Longrightarrow>
    \<exists>st' ou'. pop_nots opf st ou = Some (st', ou') \<and> room st' ou' \<and>
      stack_list st' = no_nots opf S \<and> ou_list ou' = ou_list ou @ nots opf S \<and>
      stack_cap st' = stack_cap st \<and> stack_cap ou' = stack_cap ou"
proof (induction S arbitrary: st ou)
  case Nil
  then have "stack_peek_op opf st = None"
    using op_stack.peek_elems [of st opf] by (simp add: room_def)
  with Nil show ?case by (simp add: pop_nots.simps [of opf st ou])
next
  case (Cons i S)
  have pk: "stack_peek_op opf st = Some (opf i)"
    using op_stack.peek_elems [of st opf] Cons.prems by (simp add: room_def)
  obtain st1 ou1 where m: "stack_pop st = (Some i, st1)" "stack_push ou i = Some ou1"
    "room st1 ou1" "stack_list st1 = S" "ou_list ou1 = ou_list ou @ [i]"
    "stack_cap st1 = stack_cap st" "stack_cap ou1 = stack_cap ou"
    using room_move [OF Cons.prems] .
  show ?case
  proof (cases "opf i = TST_OP_NOT")
    case True
    then have "pop_nots opf st ou = pop_nots opf st1 ou1"
      using pk m by (simp add: pop_nots.simps [of opf st ou])
    then show ?thesis using True Cons.IH [OF m(3,4)] m by simp
  next
    case False
    then show ?thesis using pk Cons.prems by (simp add: pop_nots.simps [of opf st ou])
  qed
qed

lemma pop_to_lpar_refine:
  "room st ou \<Longrightarrow> stack_list st = S \<Longrightarrow>
    (case from_lpar opf S of
       [] \<Rightarrow> pop_to_lpar opf st ou = Some (Inl ''Missing ('')
     | l # S' \<Rightarrow> \<exists>st' ou'. pop_to_lpar opf st ou = Some (Inr (st', ou')) \<and> room st' ou' \<and>
         stack_list st' = S' \<and> ou_list ou' = ou_list ou @ to_lpar opf S \<and>
         stack_cap st' = stack_cap st \<and> stack_cap ou' = stack_cap ou)"
proof (induction S arbitrary: st ou)
  case Nil
  then have "stack_pop st = (None, st)" by (intro op_stack.pop_empty) (simp_all add: room_def)
  then show ?case by (simp add: pop_to_lpar.simps [of opf st ou])
next
  case (Cons i S)
  obtain st1 ou1 where m: "stack_pop st = (Some i, st1)" "stack_push ou i = Some ou1"
    "room st1 ou1" "stack_list st1 = S" "ou_list ou1 = ou_list ou @ [i]"
    "stack_cap st1 = stack_cap st" "stack_cap ou1 = stack_cap ou"
    using room_move [OF Cons.prems] .
  show ?case
  proof (cases "opf i = TST_OP_LPAR")
    case True
    moreover have "room st1 ou" using m Cons.prems by (simp add: room_def)
    ultimately show ?thesis using m by (simp add: pop_to_lpar.simps [of opf st ou])
  next
    case False
    then have "pop_to_lpar opf st ou = pop_to_lpar opf st1 ou1"
      using m by (simp add: pop_to_lpar.simps [of opf st ou])
    then show ?thesis using False Cons.IH [OF m(3,4)] m
      by (cases "from_lpar opf S") (simp_all del: dropWhile_eq_Nil_conv)
  qed
qed

lemma pop_rest_refine:
  "room st ou \<Longrightarrow> stack_list st = S \<Longrightarrow>
    (case from_lpar opf S of
       l # S' \<Rightarrow> pop_rest opf st ou = Some (Inl (l, ''Missing )''))
     | [] \<Rightarrow> \<exists>ou'. pop_rest opf st ou = Some (Inr ou') \<and> stack_inv ou' \<and>
         ou_list ou' = ou_list ou @ S \<and> stack_cap ou' = stack_cap ou)"
proof (induction S arbitrary: st ou)
  case Nil
  then have "stack_pop st = (None, st)" by (intro op_stack.pop_empty) (simp_all add: room_def)
  then show ?case using Nil by (simp add: pop_rest.simps [of opf st ou] room_def)
next
  case (Cons i S)
  obtain st1 ou1 where m: "stack_pop st = (Some i, st1)" "stack_push ou i = Some ou1"
    "room st1 ou1" "stack_list st1 = S" "ou_list ou1 = ou_list ou @ [i]"
    "stack_cap st1 = stack_cap st" "stack_cap ou1 = stack_cap ou"
    using room_move [OF Cons.prems] .
  show ?case
  proof (cases "opf i = TST_OP_LPAR")
    case True
    then show ?thesis using m by (simp add: pop_rest.simps [of opf st ou])
  next
    case False
    then have "pop_rest opf st ou = pop_rest opf st1 ou1"
      using m by (simp add: pop_rest.simps [of opf st ou])
    then show ?thesis using False Cons.IH [OF m(3,4)] m
      by (cases "from_lpar opf S") (simp_all del: dropWhile_eq_Nil_conv)
  qed
qed

text \<open>A state of the source and the lists it stands for.\<close>

definition sim :: "nat \<Rightarrow> sy_state \<Rightarrow> asy \<Rightarrow> bool" where
  "sim cnt s a =
     (case a of (S, ou, p) \<Rightarrow>
        stack_inv (op_stack s) \<and> stack_inv (out s) \<and> stack_list (op_stack s) = S \<and>
        ou_list (out s) = ou \<and> prev_op s = p \<and>
        stack_cap (op_stack s) = cnt \<and> stack_cap (out s) = cnt + 1)"

definition load :: "asy \<Rightarrow> nat" where
  "load a = (case a of (S, ou, p) \<Rightarrow> length S + length ou)"

lemma length_take_dropWhile: "length (takeWhile P xs) + length (dropWhile P xs) = length xs"
  by (metis length_append takeWhile_dropWhile_id)

lemma asy_step_load: "asy_step opf i a = Inr a' \<Longrightarrow> load a' \<le> Suc (load a)"
proof (cases a)
  case (fields S ou p)
  assume step: "asy_step opf i a = Inr a'"
  show ?thesis
  proof (cases "opf i = TST_OP_RPAR")
    case True
    with step fields obtain l S' where S': "from_lpar opf S = l # S'"
      "a' = (no_nots opf S', ou @ to_lpar opf S @ nots opf S', Some (opf i))"
      by (auto split: if_splits list.splits)
    have "length (to_lpar opf S) + Suc (length S') = length S"
      using length_take_dropWhile [of "\<lambda>i. opf i \<noteq> TST_OP_LPAR" S] S' by simp
    then show ?thesis using S' fields length_take_dropWhile [of "\<lambda>i. opf i = TST_OP_NOT" S']
      by (simp add: load_def)
  next
    case False
    with step fields length_take_dropWhile [of "\<lambda>i. opf i = TST_OP_NOT" S] show ?thesis
      by (auto simp: load_def split: tst_op.splits if_splits list.splits)
  qed
qed

lemma push_refine:
  assumes "stack_inv st" "length (stack_list st) < stack_cap st"
  obtains st' where "stack_push st i = Some st'" "stack_inv st'" "stack_list st' = i # stack_list st"
    "stack_cap st' = stack_cap st" "ou_list st' = ou_list st @ [i]"
  using op_stack.push_ok [OF assms, of i] by (auto simp: ou_list_def)

lemma peek_refine:
  "stack_inv st \<Longrightarrow> stack_peek_op opf st = (case stack_list st of [] \<Rightarrow> None | i # _ \<Rightarrow> Some (opf i))"
  by (rule op_stack.peek_elems)

lemma sim_room: "sim cnt s (S, ou, p) \<Longrightarrow> load (S, ou, p) \<le> cnt + 1 \<Longrightarrow> room (op_stack s) (out s)"
  by (auto simp: sim_def room_def load_def)

text \<open>One step refines, operation by operation.\<close>

lemma sy_step_push_op:
  assumes "sim cnt s (S, ou, p)" "load (S, ou, p) < cnt"
  shows "\<exists>st. stack_push (op_stack s) i = Some st \<and>
    sim cnt \<lparr>op_stack = st, out = out s, prev_op = q\<rparr> (i # S, ou, q)"
proof -
  have "length (stack_list (op_stack s)) < stack_cap (op_stack s)" "stack_inv (op_stack s)"
    using assms by (auto simp: sim_def load_def)
  then obtain st where "stack_push (op_stack s) i = Some st" "stack_inv st"
    "stack_list st = i # stack_list (op_stack s)" "stack_cap st = stack_cap (op_stack s)"
    using push_refine [of "op_stack s" i] by blast
  then show ?thesis using assms(1) by (simp add: sim_def)
qed

lemma sy_step_var:
  assumes "sim cnt s (S, ou, p)" "load (S, ou, p) < cnt" "opf i = TST_OP_VAR" "\<not> check_one p"
  shows "\<exists>s'. sy_step opf i s = Some (Inr s') \<and>
    sim cnt s' (no_nots opf S, ou @ i # nots opf S, Some (opf i))"
proof -
  have "length (stack_list (out s)) < stack_cap (out s)" "stack_inv (out s)"
    using assms by (auto simp: sim_def load_def ou_list_def)
  then obtain o1 where o1: "stack_push (out s) i = Some o1" "stack_inv o1"
    "stack_list o1 = i # stack_list (out s)" "stack_cap o1 = stack_cap (out s)"
    "ou_list o1 = ou_list (out s) @ [i]"
    using push_refine [of "out s" i] by blast
  have "room (op_stack s) o1" using assms(1,2) o1
    by (auto simp: sim_def room_def load_def ou_list_def)
  moreover have "stack_list (op_stack s) = S" using assms(1) by (simp add: sim_def)
  ultimately obtain st' ou' where "pop_nots opf (op_stack s) o1 = Some (st', ou')" "room st' ou'"
    "stack_list st' = no_nots opf S" "ou_list ou' = ou_list o1 @ nots opf S"
    "stack_cap st' = stack_cap (op_stack s)" "stack_cap ou' = stack_cap o1"
    using pop_nots_refine [of "op_stack s" o1 S opf] by auto
  then show ?thesis using assms o1 by (simp add: sy_step_def sim_def room_def)
qed

lemma sy_step_rpar:
  assumes "sim cnt s (S, ou, p)" "load (S, ou, p) < cnt" "opf i = TST_OP_RPAR" "check_two p"
    and "from_lpar opf S = l # S'"
  shows "\<exists>s'. sy_step opf i s = Some (Inr s') \<and>
    sim cnt s' (no_nots opf S', ou @ to_lpar opf S @ nots opf S', Some (opf i))"
proof -
  have r: "room (op_stack s) (out s)" using assms(1,2) sim_room by simp
  have S: "stack_list (op_stack s) = S" using assms(1) by (simp add: sim_def)
  obtain st1 ou1 where 1: "pop_to_lpar opf (op_stack s) (out s) = Some (Inr (st1, ou1))" "room st1 ou1"
    "stack_list st1 = S'" "ou_list ou1 = ou_list (out s) @ to_lpar opf S"
    "stack_cap st1 = stack_cap (op_stack s)" "stack_cap ou1 = stack_cap (out s)"
    using pop_to_lpar_refine [OF r S, of opf] assms(5) by auto
  obtain st' ou' where "pop_nots opf st1 ou1 = Some (st', ou')" "room st' ou'"
    "stack_list st' = no_nots opf S'" "ou_list ou' = ou_list ou1 @ nots opf S'"
    "stack_cap st' = stack_cap st1" "stack_cap ou' = stack_cap ou1"
    using pop_nots_refine [OF 1(2,3), of opf] by auto
  then show ?thesis using assms 1 by (simp add: sy_step_def sim_def room_def)
qed

lemma sy_step_bin_pop:
  assumes "sim cnt s (k # S, ou, p)" "load (k # S, ou, p) < cnt" "is_bin (opf i)" "check_two p"
    and "is_bin (opf k)"
  shows "\<exists>s'. sy_step opf i s = Some (Inr s') \<and> sim cnt s' (i # S, ou @ [k], Some (opf i))"
proof -
  have r: "room (op_stack s) (out s)" using assms(1,2) sim_room by simp
  have S: "stack_list (op_stack s) = k # S" "stack_inv (op_stack s)"
    using assms(1) by (simp_all add: sim_def)
  obtain st1 ou1 where 1: "stack_pop (op_stack s) = (Some k, st1)" "stack_push (out s) k = Some ou1"
    "room st1 ou1" "stack_list st1 = S" "ou_list ou1 = ou_list (out s) @ [k]"
    "stack_cap st1 = stack_cap (op_stack s)" "stack_cap ou1 = stack_cap (out s)"
    using room_move [OF r S(1)] .
  have s1: "sim cnt \<lparr>op_stack = st1, out = ou1, prev_op = p\<rparr> (S, ou @ [k], p)"
    using assms(1) 1 by (simp add: sim_def room_def)
  moreover have "load (S, ou @ [k], p) < cnt" using assms(2) by (simp add: load_def)
  ultimately obtain st where st: "stack_push st1 i = Some st"
    "sim cnt \<lparr>op_stack = st, out = ou1, prev_op = Some (opf i)\<rparr> (i # S, ou @ [k], Some (opf i))"
    using sy_step_push_op [OF s1, of i "Some (opf i)"] by auto
  have "stack_peek_op opf (op_stack s) = Some (opf k)" using S by (simp add: peek_refine)
  then show ?thesis using assms 1 st by (auto simp: sy_step_def is_bin_def sim_def)
qed

lemma sy_step_bin_keep:
  assumes "sim cnt s (S, ou, p)" "load (S, ou, p) < cnt" "is_bin (opf i)" "check_two p"
    and "S = [] \<or> \<not> is_bin (opf (hd S))"
  shows "\<exists>s'. sy_step opf i s = Some (Inr s') \<and> sim cnt s' (i # S, ou, Some (opf i))"
proof -
  have "stack_list (op_stack s) = S" "stack_inv (op_stack s)" using assms(1) by (simp_all add: sim_def)
  then have "stack_peek_op opf (op_stack s) \<notin> {Some TST_OP_AND, Some TST_OP_OR}"
    using assms(5) by (auto simp: peek_refine is_bin_def split: list.splits)
  then show ?thesis using assms sy_step_push_op [OF assms(1,2), of i "Some (opf i)"]
    by (auto simp: sy_step_def is_bin_def sim_def)
qed

lemma sy_step_refine:
  assumes "sim cnt s a" "load a < cnt"
  shows "case asy_step opf i a of
      Inl e \<Rightarrow> sy_step opf i s = Some (Inl e)
    | Inr a' \<Rightarrow> \<exists>s'. sy_step opf i s = Some (Inr s') \<and> sim cnt s' a'"
proof (cases a)
  case (fields S ou p)
  have p: "prev_op s = p" using assms(1) fields by (simp add: sim_def)
  have S: "stack_list (op_stack s) = S" using assms(1) fields by (simp add: sim_def)
  have r: "room (op_stack s) (out s)" using assms fields sim_room [of cnt s S ou p] by simp
  note as = assms [unfolded fields]
  show ?thesis
  proof (cases "opf i")
    case TST_OP_VAR
    then show ?thesis using sy_step_var [OF as, of opf i] p
      by (cases "check_one p") (simp_all add: fields sy_step_def)
  next
    case TST_OP_RPAR
    then show ?thesis
      using sy_step_rpar [OF as, of opf i] pop_to_lpar_refine [OF r S, of opf] p
      by (cases "check_two p"; cases "from_lpar opf S")
        (simp_all add: fields sy_step_def del: dropWhile_eq_Nil_conv)
  next
    case TST_OP_AND
    then show ?thesis
      using sy_step_bin_pop [of cnt s "hd S" "tl S" ou p opf i] sy_step_bin_keep [OF as, of opf i] as p
      by (cases "check_two p"; cases S) (auto simp: fields is_bin_def sy_step_def)
  next
    case TST_OP_OR
    then show ?thesis
      using sy_step_bin_pop [of cnt s "hd S" "tl S" ou p opf i] sy_step_bin_keep [OF as, of opf i] as p
      by (cases "check_two p"; cases S) (auto simp: fields is_bin_def sy_step_def)
  next
    case TST_OP_NOT
    then show ?thesis using sy_step_push_op [OF as, of i "Some (opf i)"] p
      by (cases "check_one p") (auto simp: fields is_bin_def sy_step_def)
  next
    case TST_OP_LPAR
    then show ?thesis using sy_step_push_op [OF as, of i "Some (opf i)"] p
      by (cases "check_one p") (auto simp: fields is_bin_def sy_step_def)
  qed
qed

lemma sy_loop_refine:
  assumes "sim cnt s a" "load a + length is \<le> cnt"
  shows "case asy_loop opf is a of
      Inl e \<Rightarrow> sy_loop opf is s = Some (Inl e)
    | Inr a' \<Rightarrow> \<exists>s'. sy_loop opf is s = Some (Inr s') \<and> sim cnt s' a' \<and>
        load a' \<le> load a + length is"
  using assms
proof (induction "is" arbitrary: s a)
  case Nil
  then show ?case by simp
next
  case (Cons i "is")
  have lt: "load a < cnt" using Cons.prems by simp
  show ?case
  proof (cases "asy_step opf i a")
    case (Inl e)
    then show ?thesis using sy_step_refine [OF Cons.prems(1) lt, of opf i] by simp
  next
    case (Inr a')
    then obtain s' where s': "sy_step opf i s = Some (Inr s')" "sim cnt s' a'"
      using sy_step_refine [OF Cons.prems(1) lt, of opf i] by auto
    have "load a' \<le> Suc (load a)" using Inr by (rule asy_step_load)
    then show ?thesis using Inr s' Cons.IH [of s' a'] Cons.prems(2)
      by (auto split: sum.splits)
  qed
qed

section \<open>Every sentence is accepted\<close>

definition fresh_frame :: "(nat \<Rightarrow> tst_op) \<Rightarrow> nat list \<Rightarrow> bool" where
  "fresh_frame opf S = (S = [] \<or> opf (hd S) = TST_OP_LPAR)"

lemma fresh_frame_simps [simp]:
  "fresh_frame opf []" "fresh_frame opf (l # S) \<longleftrightarrow> opf l = TST_OP_LPAR"
  by (simp_all add: fresh_frame_def)

text \<open>The stack and output after a sentence that started in a fresh frame.\<close>

definition framed ::
  "(nat \<Rightarrow> tst_op) \<Rightarrow> nat list \<Rightarrow> nat list \<Rightarrow> bexp \<Rightarrow> nat list \<Rightarrow> nat list \<Rightarrow> bool" where
  "framed opf S ou e S' ou' =
     ((S' = S \<and> ou' = ou @ postfix e) \<or>
      (\<exists>p. is_bin (opf p) \<and> S' = p # S \<and> ou' @ [p] = ou @ postfix e))"

lemma check_one_simps [simp]:
  "\<not> check_one None" "\<not> check_one (Some TST_OP_NOT)" "\<not> check_one (Some TST_OP_LPAR)"
  "\<not> check_one (Some TST_OP_AND)" "\<not> check_one (Some TST_OP_OR)"
  "check_one (Some TST_OP_VAR)" "check_one (Some TST_OP_RPAR)"
  by (simp_all add: check_one_def)

lemma check_two_simps [simp]:
  "\<not> check_two None" "\<not> check_two (Some TST_OP_NOT)" "\<not> check_two (Some TST_OP_LPAR)"
  "\<not> check_two (Some TST_OP_AND)" "\<not> check_two (Some TST_OP_OR)"
  "check_two (Some TST_OP_VAR)" "check_two (Some TST_OP_RPAR)"
  by (simp_all add: check_two_def)

lemma check_two_iff: "check_two p \<longleftrightarrow> check_one p"
  by (cases p; cases "the p") auto

lemma is_bin_simps [simp]:
  "is_bin TST_OP_AND" "is_bin TST_OP_OR" "\<not> is_bin TST_OP_NOT" "\<not> is_bin TST_OP_VAR"
  "\<not> is_bin TST_OP_LPAR" "\<not> is_bin TST_OP_RPAR"
  by (simp_all add: is_bin_def)

lemma asy_step_bin:
  "is_bin (opf i) \<Longrightarrow> check_two p \<Longrightarrow>
    asy_step opf i (S, ou, p) =
      (if S \<noteq> [] \<and> is_bin (opf (hd S)) then Inr (i # tl S, ou @ [hd S], Some (opf i))
       else Inr (i # S, ou, Some (opf i)))"
  by (cases S) (auto simp: is_bin_def)

lemma framed_close:
  assumes "framed opf S ou e S' ou'" "fresh_frame opf S" "is_bin (opf i)" "check_two q"
  shows "asy_step opf i (S', ou', q) = Inr (i # S, ou @ postfix e, Some (opf i))"
  using assms by (cases S) (auto simp: framed_def asy_step_bin simp del: asy_step.simps)

lemma framed_rpar:
  assumes "framed opf (l # S) ou e S' ou'" "opf l = TST_OP_LPAR" "opf r = TST_OP_RPAR" "check_two q"
  shows "asy_step opf r (S', ou', q) =
    Inr (no_nots opf S, ou @ postfix e @ nots opf S, Some TST_OP_RPAR)"
proof -
  have "from_lpar opf S' = l # S \<and> ou' @ to_lpar opf S' = ou @ postfix e"
    using assms(1,2) by (auto simp: framed_def is_bin_def)
  then show ?thesis using assms(3,4) by simp
qed

lemma sentence_accepted:
  "factor opf us e \<Longrightarrow> \<not> check_one p \<Longrightarrow>
    (\<exists>q. check_two q \<and> asy_loop opf us (S, ou, p) =
       Inr (no_nots opf S, ou @ postfix e @ nots opf S, q))"
  "sentence opf us e \<Longrightarrow> \<not> check_one p \<Longrightarrow> fresh_frame opf S \<Longrightarrow>
    (\<exists>q S' ou'. check_two q \<and> asy_loop opf us (S, ou, p) = Inr (S', ou', q) \<and>
       framed opf S ou e S' ou')"
proof (induction arbitrary: S ou p and S ou p rule: factor_sentence.inducts)
  case (f_var i)
  then show ?case by simp
next
  case (f_par us e l r)
  obtain q S' ou' where 1: "check_two q" "asy_loop opf us (l # S, ou, Some TST_OP_LPAR) = Inr (S', ou', q)"
    "framed opf (l # S) ou e S' ou'"
    using f_par(2) [of "Some TST_OP_LPAR" "l # S" ou] f_par(3) by auto
  have "asy_step opf l (S, ou, p) = Inr (l # S, ou, Some TST_OP_LPAR)"
    using f_par by simp
  then show ?case using 1 framed_rpar [OF 1(3) f_par(3,4) 1(1)]
    by (simp add: asy_loop_append del: asy_step.simps)
next
  case (f_not us e n)
  have "asy_step opf n (S, ou, p) = Inr (n # S, ou, Some TST_OP_NOT)"
    using f_not by simp
  then show ?case using f_not(2) [of "Some TST_OP_NOT" "n # S" ou] f_not(3)
    by (auto simp del: asy_step.simps)
next
  case (s_factor us e)
  then have "no_nots opf S = S" "nots opf S = []" by (cases S; simp)+
  then show ?case using s_factor(2) [of p S ou] s_factor(3,4) by (auto simp: framed_def)
next
  case (s_bin us e b vs f)
  obtain q S' ou' where 1: "check_two q" "asy_loop opf us (S, ou, p) = Inr (S', ou', q)"
    "framed opf S ou e S' ou'"
    using s_bin(2) [of p S ou] s_bin(6,7) by blast
  have "\<not> check_one (Some (opf b))" using s_bin(3) by (auto simp: is_bin_def)
  then obtain q' where "check_two q'" "asy_loop opf vs (b # S, ou @ postfix e, Some (opf b)) =
      Inr (no_nots opf (b # S), (ou @ postfix e) @ postfix f @ nots opf (b # S), q')"
    using s_bin(5) [of "Some (opf b)" "b # S" "ou @ postfix e"] by blast
  moreover have "opf b \<noteq> TST_OP_NOT" using s_bin(3) by (auto simp: is_bin_def)
  ultimately show ?case using 1 s_bin framed_close [OF 1(3) s_bin(7,3) 1(1)]
    by (simp add: asy_loop_append framed_def del: asy_step.simps)
qed

section \<open>Only sentences are accepted\<close>

text \<open>Between an operator (or the start) and its operand: what has been read, the stack, the
  output.\<close>

inductive pending :: "(nat \<Rightarrow> tst_op) \<Rightarrow> nat list \<Rightarrow> nat list \<Rightarrow> nat list \<Rightarrow> bool"
  for opf :: "nat \<Rightarrow> tst_op" where
  p_start: "pending opf [] [] []"
| p_not: "pending opf ts S ou \<Longrightarrow> opf n = TST_OP_NOT \<Longrightarrow> pending opf (ts @ [n]) (n # S) ou"
| p_lpar: "pending opf ts S ou \<Longrightarrow> opf l = TST_OP_LPAR \<Longrightarrow> pending opf (ts @ [l]) (l # S) ou"
| p_bin: "pending opf ts S ou \<Longrightarrow> fresh_frame opf S \<Longrightarrow> sentence opf us e \<Longrightarrow> is_bin (opf b) \<Longrightarrow>
    pending opf (ts @ us @ [b]) (b # S) (ou @ postfix e)"

inductive_cases pending_Nil: "pending opf ts [] ou"
inductive_cases pending_Cons: "pending opf ts (l # S) ou"

text \<open>After an operand.\<close>

definition complete :: "(nat \<Rightarrow> tst_op) \<Rightarrow> nat list \<Rightarrow> nat list \<Rightarrow> nat list \<Rightarrow> bool" where
  "complete opf ts S' ou' =
     (\<exists>ts0 us e S ou. ts = ts0 @ us \<and> pending opf ts0 S ou \<and> fresh_frame opf S \<and>
        sentence opf us e \<and> framed opf S ou e S' ou')"

lemma pending_operand:
  "pending opf ts S ou \<Longrightarrow> factor opf fs f \<Longrightarrow>
    complete opf (ts @ fs) (no_nots opf S) (ou @ postfix f @ nots opf S)"
proof (induction arbitrary: fs f rule: pending.induct)
  case p_start
  then show ?case unfolding complete_def framed_def
    by (intro exI [of _ "[]"] exI [of _ fs] exI [of _ f]) (simp add: pending.p_start s_factor)
next
  case (p_not ts S ou n)
  have "factor opf (n # fs) (ENot n f)" using p_not by (intro f_not)
  then show ?case using p_not.IH [of "n # fs" "ENot n f"] p_not.hyps by simp
next
  case (p_lpar ts S ou l)
  then have "pending opf (ts @ [l]) (l # S) ou" by (intro pending.p_lpar)
  then show ?case using p_lpar unfolding complete_def framed_def
    by (intro exI [of _ "ts @ [l]"] exI [of _ fs] exI [of _ f] exI [of _ "l # S"] exI [of _ ou])
      (simp add: s_factor)
next
  case (p_bin ts S ou us e b)
  have "opf b \<noteq> TST_OP_NOT" using p_bin by (auto simp: is_bin_def)
  moreover have "sentence opf (us @ b # fs) (EBin b e f)" using p_bin by (intro s_bin)
  ultimately show ?case using p_bin unfolding complete_def framed_def
    by (intro exI [of _ ts] exI [of _ "us @ b # fs"] exI [of _ "EBin b e f"] exI [of _ S] exI [of _ ou])
      simp
qed

text \<open>The invariant of the loop.\<close>

definition asy_inv :: "(nat \<Rightarrow> tst_op) \<Rightarrow> nat list \<Rightarrow> asy \<Rightarrow> bool" where
  "asy_inv opf ts a =
     (case a of (S, ou, p) \<Rightarrow> if check_two p then complete opf ts S ou else pending opf ts S ou)"

lemma complete_bin:
  assumes "complete opf ts S ou" "is_bin (opf i)" "check_two p"
  shows "\<exists>S' ou'. asy_step opf i (S, ou, p) = Inr (S', ou', Some (opf i)) \<and>
    pending opf (ts @ [i]) S' ou'"
proof -
  obtain ts0 us e S0 ou0 where c: "ts = ts0 @ us" "pending opf ts0 S0 ou0" "fresh_frame opf S0"
    "sentence opf us e" "framed opf S0 ou0 e S ou"
    using assms(1) by (auto simp: complete_def)
  then show ?thesis using framed_close [OF c(5,3) assms(2,3)] p_bin [OF c(2-4) assms(2)]
    by (simp del: asy_step.simps)
qed

lemma complete_rpar:
  assumes "complete opf ts S ou" "opf r = TST_OP_RPAR" "check_two p"
    and "asy_step opf r (S, ou, p) = Inr a"
  shows "asy_inv opf (ts @ [r]) a"
proof -
  obtain ts0 us e S0 ou0 where c: "ts = ts0 @ us" "pending opf ts0 S0 ou0" "fresh_frame opf S0"
    "sentence opf us e" "framed opf S0 ou0 e S ou"
    using assms(1) by (auto simp: complete_def)
  show ?thesis
  proof (cases S0)
    case Nil
    then have "from_lpar opf S = []" using c(5) by (auto simp: framed_def is_bin_def)
    then show ?thesis using assms by (simp del: dropWhile_eq_Nil_conv)
  next
    case (Cons l S1)
    then have l: "opf l = TST_OP_LPAR" using c(3) by simp
    then obtain ts1 where ts1: "ts0 = ts1 @ [l]" "pending opf ts1 S1 ou0"
      using c(2) Cons by (auto elim!: pending_Cons simp: is_bin_def)
    have "factor opf (l # us @ [r]) e" using c(4) l assms(2) by (rule f_par)
    then have "complete opf (ts1 @ l # us @ [r]) (no_nots opf S1) (ou0 @ postfix e @ nots opf S1)"
      by (rule pending_operand [OF ts1(2)])
    moreover have "a = (no_nots opf S1, ou0 @ postfix e @ nots opf S1, Some TST_OP_RPAR)"
      using framed_rpar [OF c(5) [unfolded Cons] l assms(2,3)] assms(4) by simp
    ultimately show ?thesis using ts1(1) c(1) by (simp add: asy_inv_def)
  qed
qed

lemma asy_step_inv:
  assumes "asy_inv opf ts a" "asy_step opf i a = Inr a'"
  shows "asy_inv opf (ts @ [i]) a'"
proof (cases a)
  case (fields S ou p)
  show ?thesis
  proof (cases "check_two p")
    case True
    then have c: "complete opf ts S ou" using assms(1) fields by (simp add: asy_inv_def)
    have "is_bin (opf i) \<or> opf i = TST_OP_RPAR"
      using assms(2) True fields by (cases "opf i") (auto simp: check_two_iff)
    then show ?thesis
    proof
      assume b: "is_bin (opf i)"
      then have "\<not> check_two (Some (opf i))" by (auto simp: is_bin_def)
      then show ?thesis using complete_bin [OF c b True] assms(2) fields
        by (auto simp: asy_inv_def simp del: asy_step.simps)
    next
      assume "opf i = TST_OP_RPAR"
      then show ?thesis using complete_rpar [OF c _ True] assms(2) fields by (simp del: asy_step.simps)
    qed
  next
    case False
    then have c: "pending opf ts S ou" using assms(1) fields by (simp add: asy_inv_def)
    consider "opf i = TST_OP_VAR" | "opf i = TST_OP_NOT" | "opf i = TST_OP_LPAR"
      using assms(2) False fields by (cases "opf i") auto
    then show ?thesis
    proof cases
      case 1
      then show ?thesis using pending_operand [OF c f_var [of opf i]] assms(2) fields False
        by (auto simp: asy_inv_def check_two_iff)
    next
      case 2
      then show ?thesis using p_not [OF c 2] assms(2) fields False
        by (auto simp add: asy_inv_def check_two_iff)
    next
      case 3
      then show ?thesis using p_lpar [OF c 3] assms(2) fields False
        by (auto simp add: asy_inv_def check_two_iff)
    qed
  qed
qed

lemma asy_loop_inv:
  "asy_inv opf ts a \<Longrightarrow> asy_loop opf us a = Inr a' \<Longrightarrow> asy_inv opf (ts @ us) a'"
proof (induction us arbitrary: ts a)
  case Nil
  then show ?case by simp
next
  case (Cons i us)
  then obtain b where "asy_step opf i a = Inr b" "asy_loop opf us b = Inr a'"
    by (auto split: sum.splits)
  then show ?case using Cons.IH [of "ts @ [i]" b] asy_step_inv [OF Cons.prems(1)] by simp
qed

section \<open>The whole translation\<close>

lemma asy_loop_prev:
  "asy_loop opf us (S, ou, p) = Inr (S', ou', p') \<Longrightarrow> us \<noteq> [] \<Longrightarrow> p' = Some (opf (last us))"
proof (induction us arbitrary: S ou p)
  case Nil
  then show ?case by simp
next
  case (Cons i us)
  then obtain S1 ou1 p1 where st: "asy_step opf i (S, ou, p) = Inr (S1, ou1, p1)"
    "asy_loop opf us (S1, ou1, p1) = Inr (S', ou', p')"
    by (auto simp del: asy_step.simps split: sum.splits)
  show ?case
  proof (cases "us = []")
    case False
    with st Cons.IH show ?thesis by simp
  next
    case True
    have "p1 = Some (opf i)"
      using st(1) by (cases "opf i") (auto split: if_splits list.splits)
    with True st show ?thesis by simp
  qed
qed

definition accepts :: "(nat \<Rightarrow> tst_op) \<Rightarrow> nat list \<Rightarrow> nat list \<Rightarrow> bool" where
  "accepts opf us r =
     (\<exists>S ou. asy_loop opf us ([], [], None) = Inr (S, ou, Some (opf (last us))) \<and>
        check_two (Some (opf (last us))) \<and> from_lpar opf S = [] \<and> r = ou @ S)"

lemma sentence_not_Nil: "factor opf us e \<Longrightarrow> us \<noteq> []" "sentence opf us e \<Longrightarrow> us \<noteq> []"
  by (induction rule: factor_sentence.inducts) auto

lemma accepts_sentence:
  assumes "sentence opf us e"
  shows "accepts opf us (postfix e)"
proof -
  obtain q S' ou' where r: "check_two q" "asy_loop opf us ([], [], None) = Inr (S', ou', q)"
    "framed opf [] [] e S' ou'"
    using sentence_accepted(2) [OF assms, of None "[]" "[]"] by auto
  have "q = Some (opf (last us))"
    using asy_loop_prev [OF r(2)] sentence_not_Nil(2) [OF assms] by simp
  with r show ?thesis by (auto simp: accepts_def framed_def is_bin_def)
qed

lemma accepts_only_sentence:
  assumes "accepts opf us r"
  shows "\<exists>e. sentence opf us e \<and> r = postfix e"
proof -
  obtain S ou where a: "asy_loop opf us ([], [], None) = Inr (S, ou, Some (opf (last us)))"
    "check_two (Some (opf (last us)))" "from_lpar opf S = []" "r = ou @ S"
    using assms by (auto simp: accepts_def)
  have "asy_inv opf [] ([], [], None)" by (simp add: asy_inv_def pending.p_start)
  then have "complete opf us S ou" using asy_loop_inv [OF _ a(1), of "[]"] a(2) by (simp add: asy_inv_def)
  then obtain ts0 us1 e S0 ou0 where c: "us = ts0 @ us1" "pending opf ts0 S0 ou0"
    "fresh_frame opf S0" "sentence opf us1 e" "framed opf S0 ou0 e S ou"
    by (auto simp: complete_def)
  have "S0 = []" using c(3,5) a(3) by (cases S0) (auto simp: framed_def split: if_splits)
  then have "ts0 = [] \<and> ou0 = []" using c(2) by (auto elim: pending_Nil)
  with \<open>S0 = []\<close> show ?thesis using c a(4) by (auto simp: framed_def)
qed

theorem accepts_iff: "accepts opf us r \<longleftrightarrow> (\<exists>e. sentence opf us e \<and> r = postfix e)"
  using accepts_sentence accepts_only_sentence by blast

text \<open>The grammar is unambiguous.\<close>

fun rebuild :: "(nat \<Rightarrow> tst_op) \<Rightarrow> nat list \<Rightarrow> bexp list \<Rightarrow> bexp list" where
  "rebuild opf [] st = st"
| "rebuild opf (i # is) st =
     rebuild opf is
       (case opf i of
          TST_OP_VAR \<Rightarrow> EVar i # st
        | TST_OP_NOT \<Rightarrow> ENot i (hd st) # tl st
        | _ \<Rightarrow> EBin i (hd (tl st)) (hd st) # tl (tl st))"

fun wf_bexp :: "(nat \<Rightarrow> tst_op) \<Rightarrow> bexp \<Rightarrow> bool" where
  "wf_bexp opf (EVar i) = (opf i = TST_OP_VAR)"
| "wf_bexp opf (ENot n e) = (opf n = TST_OP_NOT \<and> wf_bexp opf e)"
| "wf_bexp opf (EBin p e f) = (is_bin (opf p) \<and> wf_bexp opf e \<and> wf_bexp opf f)"

lemma rebuild_postfix: "wf_bexp opf e \<Longrightarrow> rebuild opf (postfix e @ is) st = rebuild opf is (e # st)"
  by (induction e arbitrary: "is" st) (auto simp: is_bin_def)

lemma sentence_wf: "factor opf us e \<Longrightarrow> wf_bexp opf e" "sentence opf us e \<Longrightarrow> wf_bexp opf e"
  by (induction rule: factor_sentence.inducts) auto

lemma sentence_unique:
  assumes "sentence opf us e" "sentence opf us f"
  shows "e = f"
proof -
  have "accepts opf us (postfix e)" "accepts opf us (postfix f)"
    using assms by (auto intro: accepts_sentence)
  then have "postfix e = postfix f" by (auto simp: accepts_def)
  then show ?thesis
    using rebuild_postfix [OF sentence_wf(2) [OF assms(1)], of "[]" "[]"]
      rebuild_postfix [OF sentence_wf(2) [OF assms(2)], of "[]" "[]"] by simp
qed

lemma asy_loop_err: "asy_loop opf us a = Inl (i, m) \<Longrightarrow> i \<in> set us"
  by (induction us arbitrary: a) (auto simp del: asy_step.simps split: sum.splits)

lemma sentence_set:
  "factor opf us e \<Longrightarrow> set (postfix e) \<subseteq> set us \<and> (distinct us \<longrightarrow> distinct (postfix e))"
  "sentence opf us e \<Longrightarrow> set (postfix e) \<subseteq> set us \<and> (distinct us \<longrightarrow> distinct (postfix e))"
  by (induction rule: factor_sentence.inducts) auto

lemma asy_loop_stack_set:
  "asy_loop opf us (S, ou, p) = Inr (S', ou', p') \<Longrightarrow> set S' \<subseteq> set us \<union> set S"
proof (induction us arbitrary: S ou p)
  case Nil
  then show ?case by simp
next
  case (Cons i us)
  then obtain S1 ou1 p1 where st: "asy_step opf i (S, ou, p) = Inr (S1, ou1, p1)"
    "asy_loop opf us (S1, ou1, p1) = Inr (S', ou', p')"
    by (auto simp del: asy_step.simps split: sum.splits)
  have "set S1 \<subseteq> insert i (set S)"
  proof (cases "from_lpar opf S")
    case Nil
    then show ?thesis using st(1)
      by (cases "opf i") (auto split: if_splits list.splits dest: set_dropWhileD simp del: dropWhile_eq_Nil_conv)
  next
    case (Cons l S2)
    then have "set S2 \<subseteq> set S" by (metis set_dropWhileD set_subset_Cons subset_iff)
    then show ?thesis using st(1) Cons
      by (cases "opf i") (auto split: if_splits list.splits dest: set_dropWhileD)
  qed
  then show ?case using Cons.IH [OF st(2)] by auto
qed

lemma asy_step_msg: "asy_step opf i a = Inl m \<Longrightarrow> m \<noteq> []"
  by (cases a) (auto split: tst_op.splits if_splits list.splits)

lemma asy_loop_msg: "asy_loop opf us a = Inl (i, m) \<Longrightarrow> m \<noteq> []"
  by (induction us arbitrary: a) (auto simp del: asy_step.simps dest: asy_step_msg split: sum.splits)

lemma spos_stack_list: "stack_inv ou \<Longrightarrow> spos ou = length (stack_list ou)"
  by (simp add: stack_inv_def stack_list_def)

lemma sim_start: "sim cnt (sy_start cnt) ([], [], None)"
  by (simp add: sim_def sy_start_def op_stack.new_inv op_stack.new_elems op_stack.new_cap ou_list_def)

lemma sy_finish_correct:
  assumes s: "sim cnt s (S, ou, Some (op_of b (cnt - 1)))" and cnt: "0 < cnt"
    and load: "length S + length ou \<le> cnt" and S: "set S \<subseteq> {0..<cnt}"
  shows "if check_two (Some (op_of b (cnt - 1))) \<and> from_lpar (op_of b) S = []
    then sy_finish b cnt s =
      Some (Inr \<lparr>rpn = (case ou @ S of [] \<Rightarrow> NullTok | i # _ \<Rightarrow> Tok i), buf = link_out (ou @ S) b\<rparr>)
    else \<exists>i msg. i < cnt \<and> msg \<noteq> [] \<and> sy_finish b cnt s = Some (Inl (set_err i msg b))"
proof (cases "check_two (Some (op_of b (cnt - 1)))")
  case False
  then have "sy_finish b cnt s = Some (Inl (set_err (cnt - 1) ''Unfinished expression'' b))"
    by (simp add: sy_finish_def)
  then show ?thesis using False cnt
    by (auto intro!: exI [of _ "cnt - 1"] exI [of _ "''Unfinished expression''"])
next
  case True
  have r: "room (op_stack s) (out s)" using s load by (intro sim_room) (auto simp: load_def)
  have l: "stack_list (op_stack s) = S" "ou_list (out s) = ou" "stack_cap (out s) = cnt + 1"
    using s by (auto simp: sim_def)
  show ?thesis
  proof (cases "from_lpar (op_of b) S")
    case Nil
    then obtain ou' where ou': "pop_rest (op_of b) (op_stack s) (out s) = Some (Inr ou')"
      "stack_inv ou'" "ou_list ou' = ou @ S" "stack_cap ou' = cnt + 1"
      using pop_rest_refine [OF r l(1), of "op_of b"] l
      by (auto simp del: dropWhile_eq_Nil_conv)
    have "rev (stack_list ou') = ou @ S" using ou'(3) by (simp add: ou_list_def)
    moreover have "spos ou' < length (cells ou')"
      using ou' load by (simp add: spos_stack_list stack_cap_def flip: length_ou_list)
    ultimately show ?thesis using True Nil ou' by (simp add: sy_finish_def Let_def)
  next
    case (Cons k S')
    then have "k < cnt" using S by (metis atLeastLessThan_iff list.set_intros(1) set_dropWhileD subsetD)
    then show ?thesis using True Cons pop_rest_refine [OF r l(1), of "op_of b"]
      by (auto simp: sy_finish_def)
  qed
qed

text \<open>The translation of the source: exactly the sentences get a postfix list, everything else an
  error in one token, and no array is left.\<close>

theorem shunting_yard_correct:
  assumes "length b = cnt" "0 < cnt"
  shows "(\<exists>e. sentence (op_of b) [0..<cnt] e \<and>
           shunting_yard b cnt =
             Some (Inr \<lparr>rpn = Tok (hd (postfix e)), buf = link_out (postfix e) b\<rparr>)) \<or>
         (\<not> (\<exists>e. sentence (op_of b) [0..<cnt] e) \<and>
           (\<exists>i msg. i < cnt \<and> msg \<noteq> [] \<and> shunting_yard b cnt = Some (Inl (set_err i msg b))))"
proof -
  let ?opf = "op_of b" and ?us = "[0..<cnt]"
  let ?s0 = "sy_start cnt"
  have run: "case asy_loop ?opf ?us ([], [], None) of
      Inl e \<Rightarrow> sy_loop ?opf ?us ?s0 = Some (Inl e)
    | Inr a' \<Rightarrow> \<exists>s'. sy_loop ?opf ?us ?s0 = Some (Inr s') \<and> sim cnt s' a' \<and> load a' \<le> cnt"
    using sy_loop_refine [OF sim_start [of cnt], of ?us ?opf]
    by (auto simp: load_def split: sum.splits)
  have lst: "?us \<noteq> []" "last ?us = cnt - 1" using assms(2) by simp_all
  show ?thesis
  proof (cases "asy_loop ?opf ?us ([], [], None)")
    case (Inl im)
    obtain i m where im: "im = (i, m)" by (cases im)
    have "\<not> (\<exists>e. sentence ?opf ?us e)"
      using Inl accepts_sentence by (fastforce simp: accepts_def)
    moreover have "shunting_yard b cnt = Some (Inl (set_err i m b))"
      using run Inl im by (simp add: shunting_yard_def)
    moreover have "i < cnt" "m \<noteq> []"
      using asy_loop_err [OF Inl [unfolded im]] asy_loop_msg [OF Inl [unfolded im]] by simp_all
    ultimately show ?thesis by blast
  next
    case (Inr a')
    obtain S ou p where a': "a' = (S, ou, p)" by (cases a')
    have p: "p = Some (?opf (cnt - 1))"
      using asy_loop_prev [OF Inr [unfolded a'] lst(1)] lst(2) by simp
    obtain s where s: "sy_loop ?opf ?us ?s0 = Some (Inr s)" "sim cnt s a'" "load a' \<le> cnt"
      using run Inr by auto
    have fin: "shunting_yard b cnt = sy_finish b cnt s" using s(1) by (simp add: shunting_yard_def)
    have S: "set S \<subseteq> {0..<cnt}" using asy_loop_stack_set [OF Inr [unfolded a']] by simp
    have "length S + length ou \<le> cnt" using s(3) a' by (simp add: load_def)
    note fc = sy_finish_correct [OF s(2) [unfolded a' p] assms(2) this S]
    have acc: "accepts ?opf ?us r \<longleftrightarrow>
        check_two (Some (?opf (cnt - 1))) \<and> from_lpar ?opf S = [] \<and> r = ou @ S" for r
      using Inr a' p lst(2) by (auto simp: accepts_def)
    show ?thesis
    proof (cases "check_two (Some (?opf (cnt - 1))) \<and> from_lpar ?opf S = []")
      case True
      then obtain e where e: "sentence ?opf ?us e" "ou @ S = postfix e"
        using acc [of "ou @ S"] accepts_only_sentence by blast
      then have "(case ou @ S of [] \<Rightarrow> NullTok | i # _ \<Rightarrow> Tok i) = Tok (hd (postfix e))"
        by (cases "postfix e") auto
      then show ?thesis using e fin fc [unfolded if_P [OF True]] by auto
    next
      case False
      then have "\<not> (\<exists>e. sentence ?opf ?us e)" using acc accepts_sentence by blast
      then show ?thesis using fin fc [unfolded if_not_P [OF False]] by auto
    qed
  qed
qed

end
