(* ===== verification/Bool_Expr_Lex.thy ===== *)
theory Bool_Expr_Lex
  imports Bool_Expr
begin

text \<open>
  The tokenizer against a reference lexer on strings: the two passes agree on the
  number of tokens, the tokens carry exactly the words of the reference lexer, in
  order and without overlap, and their operation field is that of their first
  character.
\<close>

section \<open>Reference lexer\<close>

definition emit :: "string \<Rightarrow> string list" where
  "emit w = (if w = [] then [] else [w])"

text \<open>The quoted part after an opening quote, with the closing quote when there is one.\<close>

definition quoted :: "string \<Rightarrow> string" where
  "quoted s = takeWhile (\<lambda>c. c \<noteq> DQUOTE) s @ take 1 (dropWhile (\<lambda>c. c \<noteq> DQUOTE) s)"

lemma quoted_append_drop: "quoted s @ drop (length (quoted s)) s = s"
proof -
  have "s = takeWhile (\<lambda>c. c \<noteq> DQUOTE) s @ take 1 (dropWhile (\<lambda>c. c \<noteq> DQUOTE) s) @
    drop 1 (dropWhile (\<lambda>c. c \<noteq> DQUOTE) s)"
    by (metis append_take_drop_id takeWhile_dropWhile_id)
  then have "s = quoted s @ drop 1 (dropWhile (\<lambda>c. c \<noteq> DQUOTE) s)"
    by (simp add: quoted_def)
  then show ?thesis by (metis append_eq_conv_conj)
qed

lemma length_quoted_le: "length (quoted s) \<le> length s"
  by (metis quoted_append_drop length_append le_add1)

function lex_words :: "string \<Rightarrow> string \<Rightarrow> string list" where
  "lex_words w [] = emit w"
| "lex_words w (c # s) =
     (if is_op_char c then emit w @ [c] # lex_words [] s
      else if is_blank c then emit w @ lex_words [] s
      else if c = DQUOTE then lex_words (w @ c # quoted s) (drop (length (quoted s)) s)
      else lex_words (w @ [c]) s)"
  by pat_completeness auto
termination
  by (relation "measure (\<lambda>(w, s). length s)") auto

section \<open>The quote loop\<close>

lemma skip_str_eq:
  "is_cstr expr \<Longrightarrow> i < length expr \<Longrightarrow>
    skip_str expr i = i + length (takeWhile (\<lambda>c. c \<noteq> DQUOTE) (drop (i + 1) expr))"
proof (induction expr i rule: skip_str.induct)
  case (1 expr i)
  show ?case
  proof (cases "i + 1 < length expr")
    case False
    with 1 show ?thesis by (simp add: skip_str.simps [of expr i] cat_def)
  next
    case True
    with 1 show ?thesis
      by (simp add: skip_str.simps [of expr i] cat_eq_NUL_iff drop_cat_Cons [of "Suc i" expr])
  qed
qed

lemma quote_end_eq:
  assumes "is_cstr expr" "i < length expr"
  shows "quote_end expr i = i + length (quoted (drop (i + 1) expr))"
proof -
  let ?s = "drop (i + 1) expr"
  let ?t = "takeWhile (\<lambda>c. c \<noteq> DQUOTE) ?s"
  have sk: "skip_str expr i = i + length ?t"
    using assms by (rule skip_str_eq)
  have c: "cat expr (skip_str expr i + 1) = cat ?s (length ?t)"
    by (simp add: sk cat_drop add.commute add.left_commute)
  show ?thesis
  proof (cases "dropWhile (\<lambda>c. c \<noteq> DQUOTE) ?s")
    case Nil
    then have "length ?t = length ?s" by (metis append_Nil2 takeWhile_dropWhile_id)
    then have "cat ?s (length ?t) = NUL" by (simp add: cat_def)
    with c sk Nil show ?thesis by (simp add: quote_end_def quoted_def Let_def)
  next
    case (Cons d r)
    have "length ?t + length (d # r) = length ?s"
      by (metis Cons length_append takeWhile_dropWhile_id)
    then have lt: "length ?t < length ?s" by simp
    then have "cat ?s (length ?t) = DQUOTE"
      using nth_length_takeWhile [OF lt] by (simp add: cat_def)
    with c sk Cons show ?thesis by (simp add: quote_end_def quoted_def Let_def)
  qed
qed

section \<open>Order and extent of the tokens\<close>

text \<open>Tokens that follow each other from \<open>lo\<close> up to \<open>hi\<close>, none of them empty.\<close>

fun toks_within :: "nat \<Rightarrow> nat \<Rightarrow> tst_expr_tok list \<Rightarrow> bool" where
  "toks_within lo hi [] = True"
| "toks_within lo hi (t # ts) =
     (lo \<le> tok_pos t \<and> 0 < tok_len t \<and> tok_pos t + tok_len t \<le> hi \<and>
      toks_within (tok_pos t + tok_len t) hi ts)"

lemma toks_within_mono: "toks_within lo hi ts \<Longrightarrow> lo' \<le> lo \<Longrightarrow> toks_within lo' hi ts"
  by (cases ts) auto

definition fresh_tok :: "string \<Rightarrow> tst_expr_tok \<Rightarrow> bool" where
  "fresh_tok expr t =
     (tok_op t = char_to_op (cat expr (tok_pos t)) \<and> tok_next t = Unset \<and> tok_priv t = PrivNull)"

definition pend_toks :: "string \<Rightarrow> nat \<Rightarrow> nat \<Rightarrow> tst_expr_tok list" where
  "pend_toks expr p len =
     (if len = 0 then []
      else [\<lparr>tok_op = char_to_op (cat expr p), tok_pos = p, tok_len = len,
             tok_next = Unset, tok_priv = PrivNull\<rparr>])"

lemma new_tok_eq:
  "new_tok expr lst p len =
    (length (pend_toks expr p len), map_option (\<lambda>us. us @ pend_toks expr p len) lst)"
  by (simp add: new_tok_def pend_toks_def split: option.splits)

lemma pend_toks_text:
  "p + len \<le> length expr \<Longrightarrow> map (tok_text expr) (pend_toks expr p len) = emit (take len (drop p expr))"
  by (auto simp: pend_toks_def emit_def tok_text_def)

lemma pend_toks_fresh: "list_all (fresh_tok expr) (pend_toks expr p len)"
  by (simp add: pend_toks_def fresh_tok_def)

lemma pend_toks_within:
  "p + len \<le> hi \<Longrightarrow> toks_within (p + len) hi vs \<Longrightarrow> toks_within p hi (pend_toks expr p len @ vs)"
  by (auto simp: pend_toks_def)

lemma pend_toks_within_op:
  "i < hi \<Longrightarrow> toks_within (Suc i) hi vs \<Longrightarrow> toks_within i hi (pend_toks expr i (Suc 0) @ vs)"
  using pend_toks_within [of i 1] by simp

text \<open>What the loop adds to the tokens written so far, in both passes.\<close>

definition loop_adds :: "string \<Rightarrow> nat \<Rightarrow> nat \<Rightarrow> tst_expr_tok list \<Rightarrow> bool" where
  "loop_adds expr i j ts =
     ((\<forall>cnt lst. tokenize_loop expr i j cnt lst = (cnt + length ts, map_option (\<lambda>us. us @ ts) lst)) \<and>
      map (tok_text expr) ts = lex_words (take (i - j) (drop j expr)) (drop i expr) \<and>
      list_all (fresh_tok expr) ts \<and> toks_within j (length expr) ts)"

lemma take_snoc_cat:
  "j \<le> i \<Longrightarrow> i < length s \<Longrightarrow> take (Suc i - j) (drop j s) = take (i - j) (drop j s) @ [cat s i]"
  by (simp add: cat_def Suc_diff_le take_Suc_conv_app_nth)

lemma loop_adds_end:
  assumes "is_cstr expr" "j \<le> i" "i = length expr"
  shows "loop_adds expr i j (pend_toks expr j (i - j))"
proof -
  have "cat expr i = NUL" using assms by (simp add: cat_def)
  moreover have "toks_within j (length expr) (pend_toks expr j (i - j))"
    using pend_toks_within [of j "i - j" "length expr" "[]"] assms by simp
  ultimately show ?thesis using assms
    by (simp add: loop_adds_def tokenize_loop.simps [of expr "length expr" j] new_tok_eq
        pend_toks_fresh pend_toks_text)
qed

lemma loop_adds_op:
  assumes "is_cstr expr" "j \<le> i" "i < length expr" "is_op_char (cat expr i)"
    and "loop_adds expr (i + 1) (i + 1) ts"
  shows "loop_adds expr i j (pend_toks expr j (i - j) @ pend_toks expr i 1 @ ts)"
proof -
  have nn: "cat expr i \<noteq> NUL" using assms by (simp add: cat_eq_NUL_iff)
  have "toks_within j (length expr) (pend_toks expr j (i - j) @ pend_toks expr i 1 @ ts)"
    using assms
    by (intro pend_toks_within) (auto simp: loop_adds_def intro!: pend_toks_within_op)
  moreover have "map (tok_text expr) (pend_toks expr i 1) = [[cat expr i]]"
    using assms pend_toks_text [of i 1 expr] by (simp add: drop_cat_Cons [of i expr] emit_def)
  ultimately show ?thesis using assms nn
    by (auto simp: loop_adds_def tokenize_loop.simps [of expr i j] new_tok_eq pend_toks_fresh
        pend_toks_text drop_cat_Cons [of i expr] option.map_comp comp_def)
qed

lemma loop_adds_blank:
  assumes "is_cstr expr" "j \<le> i" "i < length expr" "\<not> is_op_char (cat expr i)" "is_blank (cat expr i)"
    and "loop_adds expr (i + 1) (i + 1) ts"
  shows "loop_adds expr i j (pend_toks expr j (i - j) @ ts)"
proof -
  have nn: "cat expr i \<noteq> NUL" using assms by (simp add: cat_eq_NUL_iff)
  have "toks_within j (length expr) (pend_toks expr j (i - j) @ ts)"
    using assms by (intro pend_toks_within) (auto simp: loop_adds_def intro: toks_within_mono)
  then show ?thesis using assms nn
    by (auto simp: loop_adds_def tokenize_loop.simps [of expr i j] new_tok_eq pend_toks_fresh
        pend_toks_text drop_cat_Cons [of i expr] option.map_comp comp_def)
qed

lemma loop_adds_quote:
  assumes "is_cstr expr" "j \<le> i" "i < length expr" "\<not> is_op_char (cat expr i)"
    "\<not> is_blank (cat expr i)" "cat expr i = DQUOTE"
    and "loop_adds expr (quote_end expr i + 1) j ts"
  shows "loop_adds expr i j ts"
proof -
  let ?q = "quoted (drop (i + 1) expr)"
  have qe: "quote_end expr i = i + length ?q"
    using assms(1,3) by (rule quote_end_eq)
  have "take (i + 1 + length ?q - j) (drop j expr) =
      take (i - j) (drop j expr) @ take (Suc (length ?q)) (drop i expr)"
    using take_add [of "i - j" "Suc (length ?q)" "drop j expr"] assms(2)
    by (simp add: Suc_diff_le)
  also have "take (Suc (length ?q)) (drop i expr) = DQUOTE # ?q"
    using assms(3,6) quoted_append_drop [of "drop (i + 1) expr"]
    by (simp add: drop_cat_Cons [of i expr]) (metis append_eq_conv_conj)
  finally have "lex_words (take (quote_end expr i + 1 - j) (drop j expr)) (drop (quote_end expr i + 1) expr) =
      lex_words (take (i - j) (drop j expr)) (drop i expr)"
    using assms(3-6) by (simp add: qe drop_cat_Cons [of i expr] add.commute)
  then show ?thesis using assms
    by (simp add: loop_adds_def tokenize_loop.simps [of expr i j] cat_eq_NUL_iff)
qed

lemma loop_adds_other:
  assumes "is_cstr expr" "j \<le> i" "i < length expr" "\<not> is_op_char (cat expr i)"
    "\<not> is_blank (cat expr i)" "cat expr i \<noteq> DQUOTE"
    and "loop_adds expr (i + 1) j ts"
  shows "loop_adds expr i j ts"
  using assms take_snoc_cat [of j i expr]
  by (simp add: loop_adds_def tokenize_loop.simps [of expr i j] cat_eq_NUL_iff
      drop_cat_Cons [of i expr])

lemma loop_adds_ex:
  "is_cstr expr \<Longrightarrow> j \<le> i \<Longrightarrow> i \<le> length expr \<Longrightarrow> \<exists>ts. loop_adds expr i j ts"
proof (induction "length expr - i" arbitrary: i j rule: less_induct)
  case less
  consider "i = length expr" | "i < length expr" using less.prems by linarith
  then show ?case
  proof cases
    case 1
    then show ?thesis using loop_adds_end less.prems by blast
  next
    case lt: 2
    have qe: "quote_end expr i + 1 \<le> length expr"
      using quote_end_eq [OF less.prems(1) lt] length_quoted_le [of "drop (i + 1) expr"] lt by simp
    have IH: "\<exists>ts. loop_adds expr i' j' ts" if "i < i'" "i' \<le> length expr" "j' \<le> i'" for i' j'
      using less.hyps [of i' j'] less.prems lt that by simp
    obtain a where a: "loop_adds expr (i + 1) (i + 1) a" using IH [of "i + 1" "i + 1"] lt by auto
    obtain b where b: "loop_adds expr (i + 1) j b" using IH [of "i + 1" j] lt less.prems by auto
    obtain c where c: "loop_adds expr (quote_end expr i + 1) j c"
      using IH [of "quote_end expr i + 1" j] quote_end_ge [of i expr] qe less.prems by auto
    note lts = less.prems(1,2) lt
    show ?thesis
    proof (cases "is_op_char (cat expr i)")
      case True
      then show ?thesis using loop_adds_op [OF lts _ a] by blast
    next
      case False
      then show ?thesis
        using loop_adds_blank [OF lts _ _ a] loop_adds_quote [OF lts _ _ _ c]
          loop_adds_other [OF lts _ _ _ b] by blast
    qed
  qed
qed

theorem tokenize_spec:
  assumes "is_cstr expr"
  shows "\<exists>ts. tokenize expr None = (length ts, None) \<and>
    tokenize expr (Some []) = (length ts, Some ts) \<and>
    map (tok_text expr) ts = lex_words [] expr \<and>
    list_all (fresh_tok expr) ts \<and> toks_within 0 (length expr) ts"
proof -
  obtain ts where "loop_adds expr 0 0 ts" using loop_adds_ex [OF assms, of 0 0] by auto
  then show ?thesis by (intro exI [of _ ts]) (simp add: loop_adds_def tokenize_def)
qed

end
