(* ===== verification/Bool_Expr_Eval.thy ===== *)
theory Bool_Expr_Eval
  imports Bool_Expr_Grammar Bool_Expr_Lex
begin

text \<open>
  The linked list the parser leaves in the buffer, and the evaluator against the
  meaning of the expression: the walk ends, no cell outside the stack of
  \<^verbatim>\<open>MAX_STACK\<close> entries is used, and the value is that of the sentence unless a variable is
  undefined or the sentence needs more stack, where it is -1.
\<close>

section \<open>The linked list\<close>

fun chain :: "tst_expr_tok list \<Rightarrow> nat list \<Rightarrow> tok_link \<Rightarrow> bool" where
  "chain b [] l = (l = NullTok)"
| "chain b (i # is) l = (l = Tok i \<and> i < length b \<and> chain b is (tok_next (b ! i)))"

lemma length_link_out [simp]: "length (link_out is b) = length b"
  by (induction "is" b rule: link_out.induct) auto

lemma link_out_other: "i \<notin> set is \<Longrightarrow> link_out is b ! i = b ! i"
  by (induction "is" b rule: link_out.induct) auto

lemma link_out_fields:
  "tok_op (link_out is b ! i) = tok_op (b ! i) \<and> tok_pos (link_out is b ! i) = tok_pos (b ! i) \<and>
   tok_len (link_out is b ! i) = tok_len (b ! i) \<and> tok_priv (link_out is b ! i) = tok_priv (b ! i)"
proof (induction "is" b rule: link_out.induct)
  case (2 k "is" b)
  then show ?case
    by (simp add: list_update_field [of tok_op] list_update_field [of tok_pos]
        list_update_field [of tok_len] list_update_field [of tok_priv])
qed simp

definition first_link :: "nat list \<Rightarrow> tok_link" where
  "first_link is = (case is of [] \<Rightarrow> NullTok | i # _ \<Rightarrow> Tok i)"

lemma chain_cong:
  "(\<And>i. i \<in> set is \<Longrightarrow> tok_next (b ! i) = tok_next (b' ! i)) \<Longrightarrow> length b = length b' \<Longrightarrow>
    chain b is l = chain b' is l"
  by (induction "is" arbitrary: l) auto

lemma chain_link_out:
  "distinct is \<Longrightarrow> set is \<subseteq> {0..<length b} \<Longrightarrow> chain (link_out is b) is (first_link is)"
proof (induction "is" b rule: link_out.induct)
  case (1 b)
  then show ?case by (simp add: first_link_def)
next
  case (2 i "is" b)
  let ?b1 = "b[i := (b ! i)\<lparr>tok_next := first_link is\<rparr>]"
  have eq: "link_out (i # is) b = link_out is ?b1"
    by (simp add: first_link_def)
  have "link_out is ?b1 ! i = ?b1 ! i" using 2 by (simp add: link_out_other)
  then have "tok_next (link_out is ?b1 ! i) = first_link is" using 2 by simp
  moreover have "chain (link_out is ?b1) is (first_link is)"
    using 2 by (simp add: first_link_def)
  ultimately show ?case using 2 eq by (simp add: first_link_def)
qed

section \<open>Meaning of a sentence\<close>

fun bval :: "(nat \<Rightarrow> tst_op) \<Rightarrow> (nat \<Rightarrow> int) \<Rightarrow> bexp \<Rightarrow> int" where
  "bval opf v (EVar i) = v i"
| "bval opf v (ENot n e) = c_bool (bval opf v e = 0)"
| "bval opf v (EBin p e f) =
     (if opf p = TST_OP_AND then c_bool (bval opf v e \<noteq> 0 \<and> bval opf v f \<noteq> 0)
      else c_bool (bval opf v e \<noteq> 0 \<or> bval opf v f \<noteq> 0))"

fun evars :: "bexp \<Rightarrow> nat set" where
  "evars (EVar i) = {i}"
| "evars (ENot n e) = evars e"
| "evars (EBin p e f) = evars e \<union> evars f"

text \<open>Cells the evaluation of a sentence uses.\<close>

fun need :: "bexp \<Rightarrow> nat" where
  "need (EVar i) = 1"
| "need (ENot n e) = need e"
| "need (EBin p e f) = max (need e) (Suc (need f))"

section \<open>The evaluation loop\<close>

text \<open>The array after an operand was evaluated onto \<open>n\<close> used cells.\<close>

definition holds :: "int option list \<Rightarrow> nat \<Rightarrow> int \<Rightarrow> int option list \<Rightarrow> bool" where
  "holds st n x st' =
     (length st' = MAX_STACK \<and> n < MAX_STACK \<and> take n st' = take n st \<and> st' ! n = Some x)"

lemma holds_get: "holds st n x st' \<Longrightarrow> cell_get st' (int n) = Some x"
  by (simp add: holds_def cell_get_def)

lemma holds_get_below:
  "holds st (Suc n) y st' \<Longrightarrow> st ! n = Some x \<Longrightarrow> cell_get st' (int n) = Some x"
  by (auto simp: holds_def cell_get_def) (metis lessI nth_take)

lemma holds_set:
  "holds st n x st' \<Longrightarrow> \<exists>st''. cell_set st' (int n) z = Some st'' \<and> holds st n z st''"
  by (auto simp: holds_def cell_set_def)

lemma holds_set_below:
  "holds st n x st1 \<Longrightarrow> holds st1 (Suc n) y st2 \<Longrightarrow>
    \<exists>st3. cell_set st2 (int n) z = Some st3 \<and> holds st n z st3"
  by (auto simp: holds_def cell_set_def MAX_STACK_def)
    (metis Suc_n_not_le_n nat_le_linear take_take min_absorb1)

definition fails :: "(nat \<Rightarrow> int) \<Rightarrow> nat \<Rightarrow> bexp \<Rightarrow> bool" where
  "fails v n e = ((\<exists>i\<in>evars e. v i = - 1) \<or> MAX_STACK < n + need e)"

lemma eval_loop_postfix:
  assumes "wf_bexp (op_of b) e" "chain b (postfix e @ is) l" "length st = MAX_STACK" "n \<le> MAX_STACK"
  shows "if fails (\<lambda>i. mp (b ! i)) n e then eval_loop b mp l st (int n - 1) = Some (- 1)
    else \<exists>l' st'. chain b is l' \<and> holds st n (bval (op_of b) (\<lambda>i. mp (b ! i)) e) st' \<and>
      eval_loop b mp l st (int n - 1) = eval_loop b mp l' st' (int n)"
  using assms
proof (induction e arbitrary: "is" l st n)
  case (EVar i)
  then have op: "tok_op (b ! i) = TST_OP_VAR" and l: "l = Tok i" "i < length b"
    and ch: "chain b is (tok_next (b ! i))" by (simp_all add: op_of_def)
  show ?case
  proof (cases "n < MAX_STACK")
    case False
    with EVar op l show ?thesis by (simp add: fails_def eval_loop.simps [of b mp "Tok i"])
  next
    case True
    have "cell_set st (int n) (mp (b ! i)) = Some (st[n := Some (mp (b ! i))])"
      using True EVar by (simp add: cell_set_def)
    moreover have "holds st n (mp (b ! i)) (st[n := Some (mp (b ! i))])"
      using True EVar by (simp add: holds_def)
    ultimately show ?thesis using True op l ch
      by (auto simp: fails_def eval_loop.simps [of b mp "Tok i"])
  qed
next
  case (ENot k e)
  then have op: "tok_op (b ! k) = TST_OP_NOT" by (simp add: op_of_def)
  let ?v = "\<lambda>i. mp (b ! i)"
  have IH: "if fails ?v n e then eval_loop b mp l st (int n - 1) = Some (- 1)
    else \<exists>l' st'. chain b (k # is) l' \<and> holds st n (bval (op_of b) ?v e) st' \<and>
      eval_loop b mp l st (int n - 1) = eval_loop b mp l' st' (int n)"
    using ENot.IH [of "k # is" l st n] ENot.prems by simp
  show ?case
  proof (cases "fails ?v n e")
    case True
    with IH show ?thesis by (simp add: fails_def)
  next
    case False
    then obtain l' st' where 1: "chain b (k # is) l'" "holds st n (bval (op_of b) ?v e) st'"
      "eval_loop b mp l st (int n - 1) = eval_loop b mp l' st' (int n)"
      using IH by auto
    obtain st'' where "cell_set st' (int n) (c_bool (bval (op_of b) ?v e = 0)) = Some st''"
      "holds st n (c_bool (bval (op_of b) ?v e = 0)) st''"
      using holds_set [OF 1(2)] by blast
    then have "eval_loop b mp l' st' (int n) = eval_loop b mp (tok_next (b ! k)) st'' (int n)"
      using 1 op by (simp add: eval_loop.simps [of b mp "Tok k"] holds_get)
    then show ?thesis using 1 False \<open>holds st n (c_bool (bval (op_of b) ?v e = 0)) st''\<close>
      by (auto simp: fails_def)
  qed
next
  case (EBin p e f)
  let ?v = "\<lambda>i. mp (b ! i)"
  let ?x = "bval (op_of b) ?v e" and ?y = "bval (op_of b) ?v f"
  have op: "tok_op (b ! p) = TST_OP_AND \<or> tok_op (b ! p) = TST_OP_OR"
    using EBin.prems by (simp add: op_of_def is_bin_def)
  have IHe: "if fails ?v n e then eval_loop b mp l st (int n - 1) = Some (- 1)
    else \<exists>l' st'. chain b (postfix f @ p # is) l' \<and> holds st n ?x st' \<and>
      eval_loop b mp l st (int n - 1) = eval_loop b mp l' st' (int n)"
    using EBin.IH(1) [of "postfix f @ p # is" l st n] EBin.prems by simp
  show ?case
  proof (cases "fails ?v n e")
    case True
    with IHe show ?thesis by (auto simp: fails_def)
  next
    case False
    then obtain l1 st1 where 1: "chain b (postfix f @ p # is) l1" "holds st n ?x st1"
      "eval_loop b mp l st (int n - 1) = eval_loop b mp l1 st1 (int (Suc n) - 1)"
      using IHe by auto
    have IHf: "if fails ?v (Suc n) f then eval_loop b mp l1 st1 (int (Suc n) - 1) = Some (- 1)
      else \<exists>l' st'. chain b (p # is) l' \<and> holds st1 (Suc n) ?y st' \<and>
        eval_loop b mp l1 st1 (int (Suc n) - 1) = eval_loop b mp l' st' (int (Suc n))"
      using EBin.IH(2) [of "p # is" l1 st1 "Suc n"] EBin.prems 1 by (simp add: holds_def)
    show ?thesis
    proof (cases "fails ?v (Suc n) f")
      case True
      with IHf 1 False show ?thesis by (auto simp: fails_def)
    next
      case nf: False
      then obtain l2 st2 where 2: "chain b (p # is) l2" "holds st1 (Suc n) ?y st2"
        "eval_loop b mp l1 st1 (int (Suc n) - 1) = eval_loop b mp l2 st2 (int (Suc n))"
        using IHf by auto
      let ?z = "bval (op_of b) ?v (EBin p e f)"
      have z: "?z = (if tok_op (b ! p) = TST_OP_AND then c_bool (?y \<noteq> 0 \<and> ?x \<noteq> 0)
          else c_bool (?y \<noteq> 0 \<or> ?x \<noteq> 0))"
        by (auto simp: op_of_def c_bool_def)
      obtain st3 where 3: "cell_set st2 (int n) ?z = Some st3" "holds st n ?z st3"
        using holds_set_below [OF 1(2) 2(2)] by blast
      have "cell_get st2 (int n) = Some ?x"
        using holds_get_below [OF 2(2)] 1(2) by (simp add: holds_def)
      then have "eval_loop b mp l2 st2 (int (Suc n)) = eval_loop b mp (tok_next (b ! p)) st3 (int n)"
        using 2(1) 3(1) [unfolded z] op holds_get [OF 2(2)]
        by (auto simp: eval_loop.simps [of b mp "Tok p"])
      then have "eval_loop b mp l st (int n - 1) = eval_loop b mp (tok_next (b ! p)) st3 (int n)"
        using 1(3) 2(3) by simp
      moreover have "chain b is (tok_next (b ! p))" using 2(1) by simp
      moreover have nfail: "\<not> fails ?v n (EBin p e f)" using False nf by (auto simp: fails_def)
      ultimately show ?thesis using 3(2) unfolding if_not_P [OF nfail] by blast
    qed
  qed
qed

theorem eval_sentence:
  assumes "sentence (op_of b) us e" "chain b (postfix e) l"
  shows "tst_bool_expr_eval \<lparr>rpn = l, buf = b\<rparr> mp =
    Some (if fails (\<lambda>i. mp (b ! i)) 0 e then - 1 else bval (op_of b) (\<lambda>i. mp (b ! i)) e)"
proof -
  let ?v = "\<lambda>i. mp (b ! i)" and ?st = "replicate MAX_STACK None :: int option list"
  have wf: "wf_bexp (op_of b) e" using assms(1) by (rule sentence_wf)
  have "if fails ?v 0 e then eval_loop b mp l ?st (int 0 - 1) = Some (- 1)
    else \<exists>l' st'. chain b [] l' \<and> holds ?st 0 (bval (op_of b) ?v e) st' \<and>
      eval_loop b mp l ?st (int 0 - 1) = eval_loop b mp l' st' (int 0)"
    using wf assms(2) by (intro eval_loop_postfix) simp_all
  then show ?thesis
    by (auto simp: tst_bool_expr_eval_def eval_loop.simps [of b mp NullTok] holds_get [of _ 0, simplified]
        split: if_splits)
qed

section \<open>Parsing\<close>

lemma set_err_nth: "i < length b \<Longrightarrow> set_err k m b ! i =
    (if i = k then (b ! i)\<lparr>tok_priv := PrivErr m\<rparr> else b ! i)"
  by (simp add: set_err_def)

text \<open>Exactly one token holds an error, so the report is printed.\<close>

lemma tst_bool_expr_err_Some:
  assumes "length b = cnt" "k < cnt" "\<forall>t\<in>set b. tok_priv t = PrivNull"
  shows "\<exists>s. tst_bool_expr_err expr (set_err k m b) cnt =
    Some (drop (tok_pos (b ! 0)) expr @ LF # s)"
proof -
  let ?b = "set_err k m b"
  have priv: "tok_priv (?b ! i) \<noteq> PrivNull \<longleftrightarrow> i = k" if "i < cnt" for i
    using that assms by (simp add: set_err_nth)
  have "find (\<lambda>i. tok_priv (?b ! i) \<noteq> PrivNull) [0..<cnt] = Some k"
    unfolding find_Some_iff using assms(2) priv by (intro exI [of _ k]) auto
  moreover have "tok_priv (?b ! k) = PrivErr m" "tok_pos (?b ! 0) = tok_pos (b ! 0)"
    using assms by (auto simp: set_err_nth)
  ultimately show ?thesis by (auto simp: tst_bool_expr_err_def Let_def)
qed

lemma chain_parse:
  assumes "sentence opf [0..<length b] e"
  shows "chain (link_out (postfix e) b) (postfix e) (Tok (hd (postfix e)))"
proof -
  have "distinct (postfix e)" "set (postfix e) \<subseteq> {0..<length b}"
    using sentence_set(2) [OF assms] by auto
  moreover have "first_link (postfix e) = Tok (hd (postfix e))"
    by (cases "postfix e") (auto simp: first_link_def)
  ultimately show ?thesis using chain_link_out [of "postfix e" b] by simp
qed

lemma op_of_link_out [simp]: "op_of (link_out is b) = op_of b"
  by (simp add: op_of_def fun_eq_iff link_out_fields)

text \<open>The tokens of an expression.\<close>

definition toks_of :: "string \<Rightarrow> tst_expr_tok list" where
  "toks_of expr = the (snd (tokenize expr (Some [])))"

lemma toks_of_spec:
  assumes "is_cstr expr"
  shows "tokenize expr None = (length (toks_of expr), None)"
    "tokenize expr (Some []) = (length (toks_of expr), Some (toks_of expr))"
    "map (tok_text expr) (toks_of expr) = lex_words [] expr"
    "\<forall>t\<in>set (toks_of expr). fresh_tok expr t"
    "toks_within 0 (length expr) (toks_of expr)"
  using tokenize_spec [OF assms] by (auto simp: toks_of_def list_all_iff)

abbreviation parses_as :: "string \<Rightarrow> bexp \<Rightarrow> bool" where
  "parses_as expr e \<equiv> sentence (op_of (toks_of expr)) [0..<length (toks_of expr)] e"

lemma parse_unfold:
  assumes "is_cstr expr" "toks_of expr \<noteq> []"
  shows "tst_bool_expr_parse True expr =
    (case shunting_yard (toks_of expr) (length (toks_of expr)) of
       None \<Rightarrow> None
     | Some (Inl b) \<Rightarrow> map_option (Pair None) (tst_bool_expr_err expr b (length (toks_of expr)))
     | Some (Inr e) \<Rightarrow> Some (Some e, []))"
  using toks_of_spec(1,2) [OF assms(1)] assms(2) by (simp add: tst_bool_expr_parse_def Let_def)

lemma parse_sentence:
  assumes "is_cstr expr" "parses_as expr e"
  shows "tst_bool_expr_parse True expr =
    Some (Some \<lparr>rpn = Tok (hd (postfix e)), buf = link_out (postfix e) (toks_of expr)\<rparr>, [])"
proof -
  let ?ts = "toks_of expr" and ?n = "length (toks_of expr)"
  have n: "0 < ?n" using sentence_not_Nil(2) [OF assms(2)] by simp
  then have "?ts \<noteq> []" by auto
  moreover have "shunting_yard ?ts ?n =
      Some (Inr \<lparr>rpn = Tok (hd (postfix e)), buf = link_out (postfix e) ?ts\<rparr>)"
    using shunting_yard_correct [OF refl n] sentence_unique [OF assms(2)] assms(2) by blast
  ultimately show ?thesis by (simp add: parse_unfold [OF assms(1)])
qed

lemma parse_not_sentence:
  assumes "is_cstr expr" "\<nexists>e. parses_as expr e"
  shows "\<exists>err. tst_bool_expr_parse True expr = Some (None, err) \<and> (err = [] \<longleftrightarrow> toks_of expr = [])"
proof (cases "toks_of expr = []")
  case True
  then show ?thesis using toks_of_spec(1) [OF assms(1)] by (simp add: tst_bool_expr_parse_def)
next
  case ne: False
  let ?ts = "toks_of expr" and ?n = "length (toks_of expr)"
  have n: "0 < ?n" using ne by simp
  obtain i msg where i: "i < ?n" "shunting_yard ?ts ?n = Some (Inl (set_err i msg ?ts))"
    using shunting_yard_correct [OF refl n] assms(2) by blast
  have "\<forall>t\<in>set ?ts. tok_priv t = PrivNull"
    using toks_of_spec(4) [OF assms(1)] by (auto simp: fresh_tok_def)
  from tst_bool_expr_err_Some [OF refl i(1) this, of expr msg] i(2) ne
  show ?thesis by (auto simp: parse_unfold [OF assms(1) ne])
qed

lemma parse_SomeD:
  assumes "is_cstr expr" "tst_bool_expr_parse True expr = Some (Some x, err)"
  obtains e where "parses_as expr e"
    "x = \<lparr>rpn = Tok (hd (postfix e)), buf = link_out (postfix e) (toks_of expr)\<rparr>"
  using assms parse_sentence [OF assms(1)] parse_not_sentence [OF assms(1)]
  by (cases "\<exists>e. parses_as expr e") auto

section \<open>Properties\<close>

text \<open>C8: tokenizing is the same in both passes: the counting pass returns the number of tokens the
  second pass writes, so the buffer sized by the first is filled exactly. The tokens spell the words
  of the reference lexer in order, they are not empty, do not overlap and stay inside the string, and
  the operation of each is given by its first character.\<close>

theorem tokenize_correct:
  assumes "is_cstr expr"
  shows "\<exists>ts. tokenize expr None = (length ts, None) \<and>
    tokenize expr (Some []) = (length ts, Some ts) \<and>
    map (tok_text expr) ts = lex_words [] expr \<and>
    toks_within 0 (length expr) ts \<and>
    (\<forall>t\<in>set ts. tok_op t = char_to_op (cat expr (tok_pos t)))"
  using toks_of_spec [OF assms] by (intro exI [of _ "toks_of expr"]) (simp add: fresh_tok_def)

lemma tokenize_correct_witness:
  "\<exists>ts. tokenize ''!A & \"b c\"'' None = (length ts, None) \<and>
    map (tok_text ''!A & \"b c\"'') ts = [''!'', ''A'', ''&'', ''\"b c\"'']"
proof -
  have "is_cstr ''!A & \"b c\"''" by simp
  moreover have "lex_words [] ''!A & \"b c\"'' = [''!'', ''A'', ''&'', ''\"b c\"'']" by code_simp
  ultimately show ?thesis using tokenize_correct [of "''!A & \"b c\"''"] by auto
qed

text \<open>C1: for every C string, parsing is defined. A string whose tokens form a sentence of the
  grammar yields the postfix list of that sentence, linked through the token buffer, and prints
  nothing. Otherwise the result is NULL, and unless there was no token at all an error is printed.\<close>

theorem parse_correct:
  assumes "is_cstr expr"
  shows "(\<exists>e. parses_as expr e \<and> tst_bool_expr_parse True expr =
      Some (Some \<lparr>rpn = Tok (hd (postfix e)), buf = link_out (postfix e) (toks_of expr)\<rparr>, [])) \<or>
    ((\<nexists>e. parses_as expr e) \<and>
     (\<exists>err. tst_bool_expr_parse True expr = Some (None, err) \<and> (err = [] \<longleftrightarrow> toks_of expr = [])))"
  using parse_sentence [OF assms] parse_not_sentence [OF assms] by blast

lemma parse_correct_witness:
  "(\<exists>e. parses_as ''!A'' e) \<and> (\<nexists>e. parses_as ''A & )'' e)"
proof -
  have "is_cstr ''!A''" "is_cstr ''A & )''" by simp_all
  moreover have "fst (the (tst_bool_expr_parse True ''!A'')) \<noteq> None" by code_simp
  moreover have "fst (the (tst_bool_expr_parse True ''A & )'')) = None" by code_simp
  ultimately show ?thesis using parse_correct [of "''!A''"] parse_correct [of "''A & )''"] by auto
qed

text \<open>C5: a parsed expression evaluates without undefined behaviour and in finitely many steps.
  The value is -1 if a variable of the sentence is undefined (its map is -1) or the sentence needs
  more than \<^verbatim>\<open>MAX_STACK\<close> cells, and otherwise the truth value of the sentence under the map.\<close>

theorem eval_correct:
  assumes "is_cstr expr" "tst_bool_expr_parse True expr = Some (Some x, err)"
  shows "\<exists>e. parses_as expr e \<and>
    (\<forall>mp. tst_bool_expr_eval x mp =
       Some (if fails (\<lambda>i. mp (buf x ! i)) 0 e then - 1
             else bval (op_of (buf x)) (\<lambda>i. mp (buf x ! i)) e))"
proof -
  obtain e where e: "parses_as expr e"
    "x = \<lparr>rpn = Tok (hd (postfix e)), buf = link_out (postfix e) (toks_of expr)\<rparr>"
    using parse_SomeD [OF assms] .
  have ch: "chain (buf x) (postfix e) (rpn x)" using chain_parse [OF e(1)] e(2) by simp
  have s: "sentence (op_of (buf x)) [0..<length (toks_of expr)] e" using e by simp
  have "x = \<lparr>rpn = rpn x, buf = buf x\<rparr>" by simp
  then show ?thesis using e(1) eval_sentence [OF s ch] by metis
qed

lemma eval_correct_witness:
  "\<exists>x e. tst_bool_expr_parse True ''A & !B'' = Some (Some x, []) \<and> parses_as ''A & !B'' e \<and>
    tst_bool_expr_eval x (\<lambda>_. 1) =
      Some (if fails (\<lambda>_. 1) 0 e then - 1 else bval (op_of (buf x)) (\<lambda>_. 1) e)"
proof -
  have c: "is_cstr ''A & !B''" by simp
  have "(case tst_bool_expr_parse True ''A & !B'' of
      Some (Some x, err) \<Rightarrow> err = [] | _ \<Rightarrow> False)" by code_simp
  then obtain x where x: "tst_bool_expr_parse True ''A & !B'' = Some (Some x, [])"
    by (auto split: option.splits)
  then show ?thesis using eval_correct [OF c x] by blast
qed

end
