(* ===== verification/Kconfig_Vars.thy ===== *)
theory Kconfig_Vars
  imports Kconfig_Read Bool_Expr_Eval
begin

text \<open>
  The variables of the constraints: which texts are accepted, where the tokens of a parsed
  expression lie, and how the variables are collected into the array without duplicates.
\<close>

section \<open>Accepted variables\<close>

definition valid_value :: "string \<Rightarrow> bool" where
  "valid_value v =
     (case v of
        [] \<Rightarrow> False
      | c # r \<Rightarrow>
          if c = DQUOTE then r \<noteq> [] \<and> last r = DQUOTE \<and> DQUOTE \<notin> set (butlast r)
          else list_all isalnum r)"

definition valid_var_text :: "string \<Rightarrow> bool" where
  "valid_var_text t =
     (take 7 t = ''CONFIG_'' \<and>
      (let r = dropWhile is_id_char (drop 7 t) in r = [] \<or> hd r = CHR ''='' \<and> valid_value (tl r)))"

lemma is_id_char_eq [simp]: "\<not> is_id_char (CHR ''='')" "\<not> is_id_char NUL"
  by (simp_all add: is_id_char_def isupper_def isdigit_def)

lemma drop_take_Cons: "i < len \<Longrightarrow> len \<le> length s \<Longrightarrow> drop i (take len s) = cat s i # drop (Suc i) (take len s)"
  by (simp add: cat_def Cons_nth_drop_Suc [symmetric])

lemma validate_name_spec:
  assumes "is_cstr tok" "len \<le> length tok" "i \<le> len" "is_id_char (cat tok (i - 1))"
  shows "(let r = dropWhile is_id_char (drop i (take len tok)) in
    if r = [] then validate_name tok len i = Inl (0, []) \<or>
      validate_name tok len i = Inr len \<and> is_id_char (cat tok (len - 1))
    else if hd r = CHR ''='' then validate_name tok len i = Inr (len - length (tl r)) \<and>
      length r \<le> len \<and> cat tok (len - length (tl r) - 1) = CHR ''='' \<and> tl r = drop (len - length (tl r)) (take len tok)
    else \<exists>e. validate_name tok len i = Inl (1, e))"
  using assms
proof (induction tok len i rule: validate_name.induct)
  case (1 tok len i)
  show ?case
  proof (cases "i < len")
    case False
    then have "i = len" "drop len (take len tok) = []" using 1(5) by simp_all
    then show ?thesis using 1(6) by (simp add: validate_name.simps [of tok len len])
  next
    case True
    then have nn: "cat tok i \<noteq> NUL" using 1 by (simp add: cat_eq_NUL_iff)
    note d = drop_take_Cons [OF True 1(4)]
    show ?thesis
    proof (cases "is_id_char (cat tok i)")
      case id: True
      have v: "validate_name tok len i = validate_name tok len (i + 1)"
        using id True nn by (auto simp: validate_name.simps [of tok len i] is_id_char_def)
      have dw: "dropWhile is_id_char (drop i (take len tok)) =
          dropWhile is_id_char (drop (i + 1) (take len tok))" using id d by simp
      show ?thesis
      proof (cases "isupper (cat tok i) \<or> cat tok i = CHR ''_''")
        case u: True
        show ?thesis unfolding v dw
          by (rule 1(1)) (use nn u True id 1(3,4) in simp_all)
      next
        case u: False
        show ?thesis unfolding v dw
          by (rule 1(2)) (use nn u True id 1(3,4) in \<open>simp_all add: is_id_char_def\<close>)
      qed
    next
      case False
      then show ?thesis using True nn d 1(4)
        by (auto simp: validate_name.simps [of tok len i] is_id_char_def Let_def min_def)
    qed
  qed
qed

lemma map_cat_upt: "len \<le> length tok \<Longrightarrow> map (cat tok) [i..<len] = drop i (take len tok)"
  by (rule nth_equalityI) (auto simp: cat_def)

lemma do_skip_spec:
  assumes "i < len" "len \<le> length tok"
  shows "do_skip p tok len i = len - length (dropWhile p (drop (i + 1) (take len tok)))"
proof -
  let ?r = "drop (i + 1) (take len tok)"
  have "length (takeWhile p ?r) + length (dropWhile p ?r) = length ?r"
    by (metis takeWhile_dropWhile_id length_append)
  then show ?thesis using assms by (simp add: do_skip_def map_cat_upt)
qed

lemma last_butlast_quote:
  "r \<noteq> [] \<and> last r = q \<and> q \<notin> set (butlast r) \<longleftrightarrow> dropWhile (\<lambda>c. c \<noteq> q) r = [q]"
  by (induction r) auto

lemma suffix_hd:
  assumes "take len tok = p @ d" "d \<noteq> []" "len \<le> length tok"
  shows "cat tok (len - length d) = hd d"
proof -
  have "len = length p + length d" using arg_cong [OF assms(1), of length] assms(3) by simp
  moreover have "take len tok ! length p = hd d" using assms(1,2) by (simp add: nth_append hd_conv_nth)
  ultimately show ?thesis using assms(2,3) by (cases d) (auto simp: cat_def)
qed

lemma validate_value_spec:
  assumes "len \<le> length tok" "i \<le> len" "cat tok len \<noteq> DQUOTE" "cat tok (i - 1) = CHR ''=''"
  shows "fst (if len \<le> i then
              if cat tok (i - 1) = CHR ''='' then (- 1, print_err tok len i ''Missing value'')
              else (0, [])
            else if cat tok i = DQUOTE then
              let j = do_skip (\<lambda>c. c \<noteq> DQUOTE) tok len i
              in if j < len - 1 then (1, print_err tok len j ''Garbage after a string'')
                 else if cat tok j \<noteq> DQUOTE then (1, print_err tok len j ''Untermianted string'')
                 else (0, [])
            else
              let j = do_skip isalnum tok len i
              in if j < len then (1, print_err tok len j ''Invalid character in variable value'')
                 else (0::int, [])) = 0 \<longleftrightarrow> valid_value (drop i (take len tok))"
proof (cases "i < len")
  case False
  then show ?thesis using assms by (simp add: valid_value_def)
next
  case True
  let ?r = "drop (i + 1) (take len tok)"
  let ?d = "dropWhile (\<lambda>c. c \<noteq> DQUOTE) ?r" and ?a = "dropWhile isalnum ?r"
  have d: "drop i (take len tok) = cat tok i # ?r" using drop_take_Cons [OF True assms(1)] by simp
  have le: "length ?d \<le> length ?r" "length ?a \<le> length ?r" by (rule length_dropWhile_le)+
  have q: "cat tok (len - length ?d) = DQUOTE" if "?d \<noteq> []"
  proof -
    have "take len tok = (take (i + 1) (take len tok) @ takeWhile (\<lambda>c. c \<noteq> DQUOTE) ?r) @ ?d"
      by (simp only: append.assoc takeWhile_dropWhile_id append_take_drop_id)
    then have "cat tok (len - length ?d) = hd ?d" using that assms(1) by (rule suffix_hd)
    then show ?thesis using hd_dropWhile [of "\<lambda>c. c \<noteq> DQUOTE" ?r] that by auto
  qed
  show ?thesis
  proof (cases "cat tok i = DQUOTE")
    case qc: True
    have "valid_value (drop i (take len tok)) \<longleftrightarrow> ?d = [DQUOTE]"
      using last_butlast_quote [of ?r DQUOTE] by (simp add: valid_value_def d qc)
    moreover have "?d = [DQUOTE] \<longleftrightarrow> length ?d = 1"
      using hd_dropWhile [of "\<lambda>c. c \<noteq> DQUOTE" ?r]
      by (cases ?d) (auto simp del: dropWhile_eq_Nil_conv)
    moreover obtain n where n: "length ?d = n" by simp
    moreover have "do_skip (\<lambda>c. c \<noteq> DQUOTE) tok len i = len - n"
      using do_skip_spec [OF True assms(1)] n by simp
    moreover have "n \<le> len - (i + 1)" using le(1) n assms(1) by simp
    moreover have "cat tok (len - n) = DQUOTE \<longleftrightarrow> n \<noteq> 0"
      using q n assms(3) by (metis diff_zero length_0_conv)
    ultimately show ?thesis using True qc by (simp add: Let_def) arith
  next
    case False
    then have "valid_value (drop i (take len tok)) \<longleftrightarrow> ?a = []"
      by (simp add: valid_value_def d list_all_iff)
    moreover obtain n where n: "length ?a = n" by simp
    moreover have "do_skip isalnum tok len i = len - n" using do_skip_spec [OF True assms(1)] n by simp
    moreover have "?a = [] \<longleftrightarrow> n = 0" using n by (metis length_0_conv)
    ultimately show ?thesis using True False by (cases "n = 0") (simp_all add: Let_def)
  qed
qed

lemma validate_var_valid:
  assumes "is_cstr tok" "len \<le> length tok" "cat tok len \<noteq> DQUOTE"
  shows "fst (validate_var tok len) = 0 \<longleftrightarrow> valid_var_text (take len tok)"
proof (cases "len < 7 \<or> take 7 tok \<noteq> ''CONFIG_''")
  case True
  moreover have "7 \<le> len" if "take 7 (take len tok) = ''CONFIG_''"
    using arg_cong [OF that, of length] by simp
  ultimately have "take 7 (take len tok) \<noteq> ''CONFIG_''" by (metis linorder_not_le min_absorb1 take_take)
  then show ?thesis using True by (auto simp: validate_var_def valid_var_text_def strncmp_eq_def)
next
  case False
  let ?r = "dropWhile is_id_char (drop 7 (take len tok))"
  have "cat tok 6 = CHR ''_''" using False nth_take [of 6 7 tok] assms(2) by (simp add: cat_def)
  then have "is_id_char (cat tok (7 - 1))" by (simp add: is_id_char_def)
  note n = validate_name_spec [OF assms(1,2) _ this, unfolded Let_def]
  have c: "valid_var_text (take len tok) \<longleftrightarrow> ?r = [] \<or> hd ?r = CHR ''='' \<and> valid_value (tl ?r)"
    using False by (simp add: valid_var_text_def Let_def min_def)
  show ?thesis
  proof (cases "?r \<noteq> [] \<and> hd ?r = CHR ''=''")
    case eq: True
    obtain i where i: "validate_name tok len 7 = Inr i" "cat tok (i - 1) = CHR ''=''"
      "tl ?r = drop i (take len tok)" "i \<le> len"
      using n [unfolded if_not_P [OF conjunct1 [OF eq]] if_P [OF conjunct2 [OF eq]]] False
      by (meson diff_le_self linorder_not_le)
    have "fst (validate_var tok len) = 0 \<longleftrightarrow> valid_value (drop i (take len tok))"
      using False validate_value_spec [OF assms(2) i(4) assms(3) i(2)]
      by (simp add: validate_var_def strncmp_eq_def i(1))
    then show ?thesis unfolding c i(3) using eq by blast
  next
    case ne: False
    show ?thesis
    proof (cases "?r = []")
      case True
      then have "validate_name tok len 7 = Inl (0, []) \<or>
          validate_name tok len 7 = Inr len \<and> is_id_char (cat tok (len - 1))" using n False by simp
      moreover have "valid_var_text (take len tok)" using c True by blast
      ultimately show ?thesis using False by (auto simp: validate_var_def strncmp_eq_def)
    next
      case rne: False
      then have "\<exists>e. validate_name tok len 7 = Inl (1, e)" using n False ne by auto
      moreover have "\<not> valid_var_text (take len tok)" using c rne ne by blast
      ultimately show ?thesis using False by (auto simp: validate_var_def strncmp_eq_def)
    qed
  qed
qed

section \<open>Splitting a variable\<close>

definition id_of :: "string \<Rightarrow> string" where
  "id_of t = takeWhile (\<lambda>c. c \<noteq> CHR ''='') t"

definition value_of :: "string \<Rightarrow> string" where
  "value_of t = tl (dropWhile (\<lambda>c. c \<noteq> CHR ''='') t)"

lemma strnchr_spec:
  "len \<le> length s \<Longrightarrow> strnchr s c len =
    (if c \<in> set (take len s) then Some (length (takeWhile (\<lambda>d. d \<noteq> c) (take len s))) else None)"
proof (induction s c len rule: strnchr.induct)
  case (2 s c len)
  then show ?case by (cases s) auto
qed simp

lemma get_len_spec:
  assumes "len \<le> length s"
  shows "get_len s len = length (id_of (take len s))" "take (get_len s len) s = id_of (take len s)"
proof -
  show 1: "get_len s len = length (id_of (take len s))"
  proof (cases "CHR ''='' \<in> set (take len s)")
    case False
    then have "id_of (take len s) = take len s"
      unfolding id_of_def by (subst takeWhile_eq_all_conv) auto
    with False show ?thesis using assms by (simp add: get_len_def strnchr_spec)
  qed (use assms in \<open>simp add: get_len_def strnchr_spec id_of_def\<close>)
  have "id_of (take len s) = take (length (id_of (take len s))) (take len s)"
    unfolding id_of_def by (rule takeWhile_eq_take)
  moreover have "length (id_of (take len s)) \<le> len"
    unfolding id_of_def by (rule order_trans [OF length_takeWhile_le]) simp
  ultimately show "take (get_len s len) s = id_of (take len s)" using 1 by (simp add: min_def)
qed

section \<open>Expressions after parsing\<close>

definition parsed :: "kexpr \<Rightarrow> bexp \<Rightarrow> bool" where
  "parsed x e =
     (is_cstr (fst x) \<and> parses_as (fst x) e \<and>
      snd x = \<lparr>rpn = Tok (hd (postfix e)), buf = link_out (postfix e) (toks_of (fst x))\<rparr>)"

text \<open>The text of a token of an expression, and the same in another buffer that agrees with the
  first on everything but the private pointers.\<close>

definition text_at :: "string \<Rightarrow> nat \<Rightarrow> string" where
  "text_at expr i = tok_text expr (toks_of expr ! i)"

definition same_toks :: "tst_expr_tok list \<Rightarrow> tst_expr_tok list \<Rightarrow> bool" where
  "same_toks b b' =
     (length b' = length b \<and>
      (\<forall>i. tok_op (b' ! i) = tok_op (b ! i) \<and> tok_pos (b' ! i) = tok_pos (b ! i) \<and>
           tok_len (b' ! i) = tok_len (b ! i) \<and> tok_next (b' ! i) = tok_next (b ! i)))"

lemma rpn_walk_chain: "chain b is l \<Longrightarrow> rpn_walk b l = Some is"
  by (induction "is" arbitrary: l) (auto simp: rpn_walk.simps [of b NullTok] rpn_walk.simps [of b "Tok _"])

lemma same_toks_chain: "same_toks b b' \<Longrightarrow> chain b' is l = chain b is l"
  by (rule chain_cong) (auto simp: same_toks_def)

lemma same_toks_op [simp]: "same_toks b b' \<Longrightarrow> op_of b' = op_of b"
  by (simp add: same_toks_def op_of_def fun_eq_iff)

lemma same_toks_refl [simp]: "same_toks b b"
  by (simp add: same_toks_def)

lemma same_toks_trans: "same_toks b b' \<Longrightarrow> same_toks b' b'' \<Longrightarrow> same_toks b b''"
  by (simp add: same_toks_def)

lemma same_toks_priv: "same_toks b (b[i := (b ! i)\<lparr>tok_priv := p\<rparr>])"
  by (simp add: same_toks_def list_update_field [of tok_op] list_update_field [of tok_pos]
      list_update_field [of tok_len] list_update_field [of tok_next])

lemma parsed_chain: "parsed x e \<Longrightarrow> chain (buf (snd x)) (postfix e) (rpn (snd x))"
  using chain_parse [of _ "toks_of (fst x)" e] by (auto simp: parsed_def)

definition var_pos :: "(nat \<Rightarrow> tst_op) \<Rightarrow> bexp \<Rightarrow> nat list" where
  "var_pos opf e = filter (\<lambda>i. opf i = TST_OP_VAR) (postfix e)"

lemma set_var_pos: "wf_bexp opf e \<Longrightarrow> set (var_pos opf e) = evars e"
  by (induction e) (auto simp: var_pos_def is_bin_def)

lemma var_toks_parsed:
  assumes "parsed x e" "same_toks (buf (snd x)) b"
  shows "var_toks (fst x, \<lparr>rpn = rpn (snd x), buf = b\<rparr>) = Some (var_pos (op_of (toks_of (fst x))) e)"
  using assms parsed_chain [OF assms(1)]
  by (simp add: var_toks_def rpn_walk_chain same_toks_chain var_pos_def) (simp add: parsed_def)

text \<open>Tokens of variables lie in the string and are not followed by a quote.\<close>

definition ends_ok :: "string \<Rightarrow> tst_expr_tok \<Rightarrow> bool" where
  "ends_ok expr t = (tok_op t = TST_OP_VAR \<longrightarrow> cat expr (tok_pos t + tok_len t) \<noteq> DQUOTE)"

lemma pend_toks_ends:
  "j \<le> i \<Longrightarrow> cat expr i \<noteq> DQUOTE \<Longrightarrow> list_all (ends_ok expr) (pend_toks expr j (i - j))"
  by (simp add: pend_toks_def ends_ok_def)

lemma op_tok_ends: "is_op_char (cat expr i) \<Longrightarrow> list_all (ends_ok expr) (pend_toks expr i (Suc 0))"
  by (auto simp: pend_toks_def ends_ok_def is_op_char_def char_to_op_def)

lemma not_quote: "c = NUL \<or> is_op_char c \<or> is_blank c \<Longrightarrow> c \<noteq> DQUOTE"
  by (auto simp: is_op_char_def is_blank_def)

lemma tokenize_loop_ends:
  assumes "tokenize_loop expr i j cnt (Some us) = (n, Some ts)" "list_all (ends_ok expr) us" "j \<le> i"
  shows "list_all (ends_ok expr) ts"
  using assms
proof (induction "length expr - i" arbitrary: i j cnt us rule: less_induct)
  case less
  let ?c = "cat expr i" and ?p = "pend_toks expr j (i - j)"
  note IH = less.hyps and loop = less.prems(1) [unfolded tokenize_loop.simps [of expr i]]
  have shorter: "length expr - k < length expr - i" if "?c \<noteq> NUL" "i < k" for k
    using that cat_not_NUL_less [of expr i] by simp
  consider "?c = NUL" | "?c \<noteq> NUL" "is_op_char ?c" | "?c \<noteq> NUL" "\<not> is_op_char ?c" "is_blank ?c"
    | "?c \<noteq> NUL" "\<not> is_op_char ?c" "\<not> is_blank ?c" by blast
  then show ?case
  proof cases
    case 1
    then have "ts = us @ ?p" using loop by (simp add: new_tok_eq)
    then show ?thesis using less.prems 1 pend_toks_ends [of j i expr] by simp
  next
    case 2
    have "list_all (ends_ok expr) (us @ ?p @ pend_toks expr i 1)"
      using less.prems 2 pend_toks_ends [of j i expr] not_quote [of ?c] op_tok_ends [of expr i] by simp
    moreover have "tokenize_loop expr (i + 1) (i + 1) (cnt + length ?p + length (pend_toks expr i 1))
        (Some (us @ ?p @ pend_toks expr i 1)) = (n, Some ts)"
      using loop 2 by (simp add: new_tok_eq)
    ultimately show ?thesis using IH [OF shorter [OF 2(1), of "i + 1"] _ _ order_refl] by simp
  next
    case 3
    have "list_all (ends_ok expr) (us @ ?p)"
      using less.prems 3 pend_toks_ends [of j i expr] not_quote [of ?c] by simp
    moreover have "tokenize_loop expr (i + 1) (i + 1) (cnt + length ?p) (Some (us @ ?p)) = (n, Some ts)"
      using loop 3 by (simp add: new_tok_eq)
    ultimately show ?thesis using IH [OF shorter [OF 3(1), of "i + 1"] _ _ order_refl] by simp
  next
    case 4
    then obtain k where k: "i < k" "tokenize_loop expr k j cnt (Some us) = (n, Some ts)"
      using loop quote_end_ge [of i expr] that [of "quote_end expr i + 1"] that [of "i + 1"]
      by (auto split: if_splits)
    then show ?thesis using IH [OF shorter [OF 4(1) k(1)] k(2)] less.prems by simp
  qed
qed

lemma toks_of_ends: "is_cstr expr \<Longrightarrow> list_all (ends_ok expr) (toks_of expr)"
  using tokenize_loop_ends [of expr 0 0 0 "[]"] toks_of_spec(2) [of expr] by (simp add: tokenize_def)

lemma toks_within_nth:
  "toks_within lo hi ts \<Longrightarrow> i < length ts \<Longrightarrow> tok_pos (ts ! i) + tok_len (ts ! i) \<le> hi"
proof (induction ts arbitrary: lo i)
  case (Cons t ts)
  then show ?case by (cases i) auto
qed simp

lemma tok_in_string:
  assumes "is_cstr expr" "i < length (toks_of expr)"
    and b: "tok_pos (b ! i) = tok_pos (toks_of expr ! i)" "tok_len (b ! i) = tok_len (toks_of expr ! i)"
  shows "tok_len (b ! i) \<le> length (tok_ptr expr (b ! i))"
    "take (tok_len (b ! i)) (tok_ptr expr (b ! i)) = text_at expr i"
    "op_of (toks_of expr) i = TST_OP_VAR \<Longrightarrow> cat (tok_ptr expr (b ! i)) (tok_len (b ! i)) \<noteq> DQUOTE"
    "is_cstr (tok_ptr expr (b ! i))"
proof -
  show "tok_len (b ! i) \<le> length (tok_ptr expr (b ! i))"
    using toks_within_nth [OF toks_of_spec(5) [OF assms(1)] assms(2)] by (simp add: tok_ptr_def b)
  show "take (tok_len (b ! i)) (tok_ptr expr (b ! i)) = text_at expr i"
    by (simp add: text_at_def tok_text_def tok_ptr_def b)
  show "cat (tok_ptr expr (b ! i)) (tok_len (b ! i)) \<noteq> DQUOTE" if "op_of (toks_of expr) i = TST_OP_VAR"
    using toks_of_ends [OF assms(1)] assms(2) that
    by (simp add: list_all_length ends_ok_def op_of_def tok_ptr_def cat_drop b)
  show "is_cstr (tok_ptr expr (b ! i))" using assms(1) by (auto simp: tok_ptr_def)
qed

section \<open>Collecting the variables\<close>

text \<open>The first \<open>cnt\<close> cells of the array hold the variables \<open>vs\<close>, each once and not yet read.\<close>

definition vars_are :: "var_array \<Rightarrow> nat \<Rightarrow> tst_kconfig_var list \<Rightarrow> bool" where
  "vars_are vars cnt vs =
     (cnt = length vs \<and> cnt \<le> length vars \<and> take cnt vars = map Some vs \<and> distinct (map kv_id vs) \<and>
      (\<forall>v\<in>set vs. v = new_var (kv_id v)))"

lemma find_var_spec:
  assumes "vars_are vars cnt vs"
  shows "case find_var (vars[cnt := v]) cnt s of
    None \<Rightarrow> s \<notin> kv_id ` set vs | Some k \<Rightarrow> k < length vs \<and> kv_id (vs ! k) = s"
proof -
  have nth: "vars ! k = Some (vs ! k)" if "k < cnt" for k
    using assms that by (metis vars_are_def nth_map nth_take)
  show ?thesis
  proof (cases "find_var (vars[cnt := v]) cnt s")
    case None
    then have "\<forall>k<cnt. kv_id (vs ! k) \<noteq> s" by (auto simp: find_var_def find_None_iff nth)
    then show ?thesis using None assms by (auto simp: vars_are_def in_set_conv_nth)
  next
    case (Some k)
    then have "k < cnt" "kv_id (vs ! k) = s" by (auto simp: find_var_def find_Some_iff nth)
    then show ?thesis using Some assms by (simp add: vars_are_def)
  qed
qed

lemma vars_are_same: "vars_are vars cnt vs \<Longrightarrow> vars_are (vars[cnt := v]) cnt vs"
  by (auto simp: vars_are_def)

lemma vars_are_add:
  assumes "vars_are vars cnt vs" "cnt < length vars" "s \<notin> kv_id ` set vs"
  shows "vars_are (vars[cnt := Some (new_var s)]) (cnt + 1) (vs @ [new_var s])"
  using assms by (auto simp: vars_are_def take_Suc_conv_app_nth new_var_def)

text \<open>A token that points to the variable of its name.\<close>

definition points_to :: "tst_kconfig_var list \<Rightarrow> string \<Rightarrow> tst_expr_tok list \<Rightarrow> nat \<Rightarrow> bool" where
  "points_to vs expr b i =
     (\<exists>k<length vs. tok_priv (b ! i) = PrivVar k \<and> kv_id (vs ! k) = id_of (text_at expr i))"

lemma points_to_append: "points_to vs expr b i \<Longrightarrow> points_to (vs @ us) expr b i"
  unfolding points_to_def by (metis nth_append length_append trans_less_add1)

lemma populate_tok_spec:
  assumes "is_cstr expr" "i < length (toks_of expr)" "i < length b"
    and b: "tok_pos (b ! i) = tok_pos (toks_of expr ! i)" "tok_len (b ! i) = tok_len (toks_of expr ! i)"
    and vs: "vars_are vars cnt vs" "cnt < length vars"
  shows "if ID_SIZE \<le> length (id_of (text_at expr i)) + 1
    then populate_tok (expr, \<lparr>rpn = l, buf = b\<rparr>) i vars cnt = Some (Inl (TBROK, ''kconfig var id too long!''))
    else \<exists>p vars' cnt' us.
      populate_tok (expr, \<lparr>rpn = l, buf = b\<rparr>) i vars cnt =
        Some (Inr ((expr, \<lparr>rpn = l, buf = b[i := (b ! i)\<lparr>tok_priv := p\<rparr>]\<rparr>), vars', cnt')) \<and>
      vars_are vars' cnt' (vs @ us) \<and> length us \<le> 1 \<and> length vars' = length vars \<and>
      points_to (vs @ us) expr (b[i := (b ! i)\<lparr>tok_priv := p\<rparr>]) i"
proof -
  let ?id = "id_of (text_at expr i)"
  note t = tok_in_string [OF assms(1,2) b]
  have len: "get_len (tok_ptr expr (b ! i)) (tok_len (b ! i)) = length ?id"
    "take (length ?id) (tok_ptr expr (b ! i)) = ?id"
    using get_len_spec [OF t(1)] t(2) by auto
  show ?thesis
  proof (cases "ID_SIZE \<le> length ?id + 1")
    case True
    then show ?thesis using vs(2) len by (simp add: populate_tok_def Let_def)
  next
    case False
    note f = find_var_spec [OF vs(1), where v = "Some (new_var ?id)" and s = ?id]
    have pop: "populate_tok (expr, \<lparr>rpn = l, buf = b\<rparr>) i vars cnt =
      (case find_var (vars[cnt := Some (new_var ?id)]) cnt ?id of
         Some k \<Rightarrow> Some (Inr ((expr, \<lparr>rpn = l, buf = b[i := (b ! i)\<lparr>tok_priv := PrivVar k\<rparr>]\<rparr>),
           vars[cnt := Some (new_var ?id)], cnt))
       | None \<Rightarrow> Some (Inr ((expr, \<lparr>rpn = l, buf = b[i := (b ! i)\<lparr>tok_priv := PrivVar cnt\<rparr>]\<rparr>),
           vars[cnt := Some (new_var ?id)], cnt + 1)))"
      using False vs(2) len by (simp add: populate_tok_def Let_def new_var_def split: option.split)
    show ?thesis
    proof (cases "find_var (vars[cnt := Some (new_var ?id)]) cnt ?id")
      case None
      then have "vars_are (vars[cnt := Some (new_var ?id)]) (cnt + 1) (vs @ [new_var ?id])"
        using f vars_are_add [OF vs] by simp
      moreover have "points_to (vs @ [new_var ?id]) expr (b[i := (b ! i)\<lparr>tok_priv := PrivVar cnt\<rparr>]) i"
        using vs(1) assms(3) by (auto simp: points_to_def vars_are_def new_var_def)
      ultimately show ?thesis using False pop None by fastforce
    next
      case (Some k)
      then have "points_to vs expr (b[i := (b ! i)\<lparr>tok_priv := PrivVar k\<rparr>]) i"
        using f assms(3) by (auto simp: points_to_def)
      then show ?thesis using False pop Some vars_are_same [OF vs(1)]
        by (auto intro!: exI [of _ "PrivVar k"] exI [of _ "[]"])
    qed
  qed
qed

definition id_fits :: "string \<Rightarrow> nat \<Rightarrow> bool" where
  "id_fits expr i = (length (id_of (text_at expr i)) + 1 < ID_SIZE)"

lemma populate_toks_spec:
  assumes "is_cstr expr" "set is \<subseteq> {0..<length (toks_of expr)}" "distinct is" "length b = length (toks_of expr)"
    and "\<forall>i. tok_pos (b ! i) = tok_pos (toks_of expr ! i) \<and> tok_len (b ! i) = tok_len (toks_of expr ! i)"
    and "vars_are vars cnt vs" "cnt + length is \<le> length vars"
  shows "if \<exists>i\<in>set is. \<not> id_fits expr i
    then populate_toks (expr, \<lparr>rpn = l, buf = b\<rparr>) is vars cnt = Some (Inl (TBROK, ''kconfig var id too long!''))
    else \<exists>b' vars' cnt' us.
      populate_toks (expr, \<lparr>rpn = l, buf = b\<rparr>) is vars cnt = Some (Inr ((expr, \<lparr>rpn = l, buf = b'\<rparr>), vars', cnt')) \<and>
      vars_are vars' cnt' (vs @ us) \<and> length us \<le> length is \<and> length vars' = length vars \<and>
      same_toks b b' \<and> (\<forall>j. j \<notin> set is \<longrightarrow> b' ! j = b ! j) \<and> (\<forall>j\<in>set is. points_to (vs @ us) expr b' j)"
  using assms
proof (induction "is" arbitrary: b vars cnt vs)
  case Nil
  then show ?case by (auto intro!: exI [of _ b] exI [of _ vars] exI [of _ cnt] exI [of _ "[]"])
next
  case (Cons i "is")
  have i: "i < length (toks_of expr)" "i < length b" "cnt < length vars" using Cons.prems by auto
  note one = populate_tok_spec [OF Cons.prems(1) i(1,2) _ _ Cons.prems(6) i(3), of l]
  show ?case
  proof (cases "id_fits expr i")
    case False
    then show ?thesis using one Cons.prems(5) by (auto simp: id_fits_def)
  next
    case True
    then have "\<not> ID_SIZE \<le> length (id_of (text_at expr i)) + 1" by (simp add: id_fits_def)
    then obtain p vars1 cnt1 us1 where 1:
      "populate_tok (expr, \<lparr>rpn = l, buf = b\<rparr>) i vars cnt =
        Some (Inr ((expr, \<lparr>rpn = l, buf = b[i := (b ! i)\<lparr>tok_priv := p\<rparr>]\<rparr>), vars1, cnt1))"
      "vars_are vars1 cnt1 (vs @ us1)" "length us1 \<le> 1" "length vars1 = length vars"
      "points_to (vs @ us1) expr (b[i := (b ! i)\<lparr>tok_priv := p\<rparr>]) i"
      using one Cons.prems(5) by auto
    let ?b = "b[i := (b ! i)\<lparr>tok_priv := p\<rparr>]"
    have same: "same_toks b ?b" by (rule same_toks_priv)
    have cnt1: "cnt1 + length is \<le> length vars1"
      using 1(2,3,4) Cons.prems(6,7) by (simp add: vars_are_def)
    have f: "\<forall>i. tok_pos (?b ! i) = tok_pos (toks_of expr ! i) \<and> tok_len (?b ! i) = tok_len (toks_of expr ! i)"
      using same Cons.prems(5) by (simp add: same_toks_def)
    note IH = Cons.IH [OF Cons.prems(1) _ _ _ f 1(2) cnt1]
    show ?thesis
    proof (cases "\<exists>j\<in>set is. \<not> id_fits expr j")
      case bad: True
      then show ?thesis using 1(1) IH Cons.prems by auto
    next
      case good: False
      then obtain b' vars' cnt' us where 2:
        "populate_toks (expr, \<lparr>rpn = l, buf = ?b\<rparr>) is vars1 cnt1 = Some (Inr ((expr, \<lparr>rpn = l, buf = b'\<rparr>), vars', cnt'))"
        "vars_are vars' cnt' ((vs @ us1) @ us)" "length us \<le> length is" "length vars' = length vars1"
        "same_toks ?b b'" "\<forall>j. j \<notin> set is \<longrightarrow> b' ! j = ?b ! j" "\<forall>j\<in>set is. points_to ((vs @ us1) @ us) expr b' j"
        using IH Cons.prems by auto
      have "b' ! i = ?b ! i" using 2(6) Cons.prems(3) by simp
      then have "points_to ((vs @ us1) @ us) expr b' i"
        using points_to_append [OF 1(5), of us] by (simp add: points_to_def)
      then have "vars_are vars' cnt' (vs @ us1 @ us) \<and> length (us1 @ us) \<le> length (i # is) \<and> length vars' = length vars \<and>
          same_toks b b' \<and> (\<forall>j. j \<notin> set (i # is) \<longrightarrow> b' ! j = b ! j) \<and> (\<forall>j\<in>set (i # is). points_to (vs @ us1 @ us) expr b' j)"
        using 1 2 same_toks_trans [OF same 2(5)] by auto
      then show ?thesis using True good 1(1) 2(1)
        by (auto intro!: exI [of _ b'] exI [of _ vars'] exI [of _ cnt'] exI [of _ "us1 @ us"])
    qed
  qed
qed

text \<open>An expression after its variables were linked to \<open>vs\<close>.\<close>

definition linked :: "tst_kconfig_var list \<Rightarrow> kexpr \<Rightarrow> bexp \<Rightarrow> kexpr \<Rightarrow> bool" where
  "linked vs x e x' =
     (parsed x e \<and> fst x' = fst x \<and> rpn (snd x') = rpn (snd x) \<and> same_toks (buf (snd x)) (buf (snd x')) \<and>
      (\<forall>j\<in>evars e. points_to vs (fst x) (buf (snd x')) j))"

lemma linked_append: "linked vs x e x' \<Longrightarrow> linked (vs @ us) x e x'"
  by (auto simp: linked_def points_to_append)

definition fits :: "kexpr \<Rightarrow> bexp \<Rightarrow> bool" where
  "fits x e = (\<forall>i\<in>evars e. id_fits (fst x) i)"

definition vpos :: "kexpr \<Rightarrow> bexp \<Rightarrow> nat list" where
  "vpos x e = var_pos (op_of (toks_of (fst x))) e"

lemma parsed_vpos:
  assumes "parsed x e"
  shows "var_toks x = Some (vpos x e)" "set (vpos x e) = evars e" "distinct (vpos x e)"
    "evars e \<subseteq> {0..<length (toks_of (fst x))}"
proof -
  show "var_toks x = Some (vpos x e)"
    using parsed_chain [OF assms] assms
    by (simp add: var_toks_def rpn_walk_chain var_pos_def vpos_def) (simp add: parsed_def)
  have s: "sentence (op_of (toks_of (fst x))) [0..<length (toks_of (fst x))] e"
    using assms by (simp add: parsed_def)
  then show v: "set (vpos x e) = evars e"
    using set_var_pos [OF sentence_wf(2)] by (simp add: vpos_def)
  have "distinct (postfix e)" "set (postfix e) \<subseteq> {0..<length (toks_of (fst x))}"
    using sentence_set(2) [OF s] by auto
  then show "distinct (vpos x e)" "evars e \<subseteq> {0..<length (toks_of (fst x))}"
    unfolding v [symmetric] by (auto simp: vpos_def var_pos_def)
qed

lemma populate_expr_spec:
  assumes "parsed x e" "vars_are vars cnt vs" "cnt + length (vpos x e) \<le> length vars"
  shows "if fits x e then \<exists>x' vars' cnt' us.
      populate_toks x (vpos x e) vars cnt = Some (Inr (x', vars', cnt')) \<and> vars_are vars' cnt' (vs @ us) \<and>
      length us \<le> length (vpos x e) \<and> length vars' = length vars \<and> linked (vs @ us) x e x'
    else populate_toks x (vpos x e) vars cnt = Some (Inl (TBROK, ''kconfig var id too long!''))"
proof -
  obtain expr where x: "x = (expr, \<lparr>rpn = Tok (hd (postfix e)), buf = link_out (postfix e) (toks_of expr)\<rparr>)"
    and "is_cstr expr" using assms(1) by (cases x) (auto simp: parsed_def)
  note v = parsed_vpos [OF assms(1)]
  define I where "I = vpos x e"
  have I: "set I = evars e" "distinct I" "cnt + length I \<le> length vars" "set I \<subseteq> {0..<length (toks_of expr)}"
    using v assms(3) by (simp_all add: I_def x)
  note p = populate_toks_spec [OF \<open>is_cstr expr\<close> I(4,2) _ _ assms(2) I(3),
      of "link_out (postfix e) (toks_of expr)" "Tok (hd (postfix e))", unfolded I(1)]
  have *: "if \<exists>i\<in>evars e. \<not> id_fits expr i
    then populate_toks x (vpos x e) vars cnt = Some (Inl (TBROK, ''kconfig var id too long!''))
    else \<exists>b' vars' cnt' us.
      populate_toks x (vpos x e) vars cnt = Some (Inr ((expr, \<lparr>rpn = rpn (snd x), buf = b'\<rparr>), vars', cnt')) \<and>
      vars_are vars' cnt' (vs @ us) \<and> length us \<le> length (vpos x e) \<and> length vars' = length vars \<and>
      same_toks (buf (snd x)) b' \<and> (\<forall>j\<in>evars e. points_to (vs @ us) expr b' j)"
    unfolding I_def [symmetric] using p by (auto simp: link_out_fields x) blast
  show ?thesis
  proof (cases "fits x e")
    case True
    then obtain b' vars' cnt' us where
      "populate_toks x (vpos x e) vars cnt = Some (Inr ((expr, \<lparr>rpn = rpn (snd x), buf = b'\<rparr>), vars', cnt'))"
      "vars_are vars' cnt' (vs @ us)" "length us \<le> length (vpos x e)" "length vars' = length vars"
      "same_toks (buf (snd x)) b'" "\<forall>j\<in>evars e. points_to (vs @ us) expr b' j"
      using * by (auto simp: fits_def x)
    then show ?thesis using True assms(1)
      by (auto simp: linked_def x intro!: exI [of _ us])
  next
    case False
    then show ?thesis using * by (auto simp: fits_def x)
  qed
qed

lemma populate_vars_spec:
  assumes "list_all2 parsed xs es" "vars_are vars cnt vs"
    "cnt + sum_list (map2 (\<lambda>x e. length (vpos x e)) xs es) \<le> length vars"
  shows "if list_all2 fits xs es then \<exists>xs' vars' cnt' us.
      populate_vars xs vars cnt = Some (Inr (xs', vars', cnt')) \<and> vars_are vars' cnt' (vs @ us) \<and>
      length xs' = length xs \<and> (\<forall>i<length xs. linked (vs @ us) (xs ! i) (es ! i) (xs' ! i))
    else populate_vars xs vars cnt = Some (Inl (TBROK, ''kconfig var id too long!''))"
  using assms
proof (induction xs es arbitrary: vars cnt vs rule: list_all2_induct)
  case Nil
  then show ?case by (auto intro!: exI [of _ vars] exI [of _ cnt] exI [of _ "[]"])
next
  case (Cons x xs e es)
  note v = parsed_vpos [OF Cons(1)]
  have "cnt + length (vpos x e) \<le> length vars" using Cons.prems(2) by simp
  note one = populate_expr_spec [OF Cons(1) Cons.prems(1) this]
  show ?case
  proof (cases "fits x e")
    case False
    then show ?thesis using one v(1) by simp
  next
    case True
    then obtain x' vars1 cnt1 us1 where 1:
      "populate_toks x (vpos x e) vars cnt = Some (Inr (x', vars1, cnt1))" "vars_are vars1 cnt1 (vs @ us1)"
      "length us1 \<le> length (vpos x e)" "length vars1 = length vars" "linked (vs @ us1) x e x'"
      using one by auto
    have cnt1: "cnt1 + sum_list (map2 (\<lambda>x e. length (vpos x e)) xs es) \<le> length vars1"
      using 1(2,3,4) Cons.prems by (simp add: vars_are_def)
    note IH = Cons.IH [OF 1(2) cnt1]
    show ?thesis
    proof (cases "list_all2 fits xs es")
      case False
      then show ?thesis using IH 1(1) v(1) by simp
    next
      case all: True
      then obtain xs' vars' cnt' us where 2: "populate_vars xs vars1 cnt1 = Some (Inr (xs', vars', cnt'))"
        "vars_are vars' cnt' ((vs @ us1) @ us)" "length xs' = length xs"
        "\<forall>i<length xs. linked ((vs @ us1) @ us) (xs ! i) (es ! i) (xs' ! i)"
        using IH by auto
      have "\<forall>i<length (x # xs). linked (vs @ us1 @ us) ((x # xs) ! i) ((e # es) ! i) ((x' # xs') ! i)"
        using 2(4) linked_append [OF 1(5), of us] by (simp add: nth_Cons split: nat.split)
      then show ?thesis using True all 1(1) 2 v(1) by (auto intro!: exI [of _ "us1 @ us"])
    qed
  qed
qed

end
