(* ===== verification/Kconfig_Check.thy ===== *)
theory Kconfig_Check
  imports Kconfig_Vars
begin

text \<open>
  The check of a list of constraints: what a variable is worth under a configuration, and that the
  check succeeds exactly when the configuration satisfies every constraint, with every way it can
  end otherwise.
\<close>

section \<open>Meaning of a variable\<close>









section \<open>Meaning of a constraint\<close>
















section \<open>Parsing and validation\<close>






lemma valid_var_text_split:
  "valid_var_text t \<longleftrightarrow> (\<exists>nm. list_all is_id_char nm \<and> (t = ''CONFIG_'' @ nm \<or>
    (\<exists>v. t = ''CONFIG_'' @ nm @ CHR ''='' # v \<and> valid_value v)))" (is "_ \<longleftrightarrow> ?rhs")
proof
  assume v: "valid_var_text t"
  let ?r = "dropWhile is_id_char (drop 7 t)" and ?p = "takeWhile is_id_char (drop 7 t)"
  have t: "t = ''CONFIG_'' @ ?p @ ?r"
    using v by (metis append_take_drop_id takeWhile_dropWhile_id valid_var_text_def)
  have p: "list_all is_id_char ?p" by (auto simp: list_all_iff dest: set_takeWhileD)
  have "?r = [] \<or> ?r = CHR ''='' # tl ?r \<and> valid_value (tl ?r)"
    using v by (cases ?r) (auto simp: valid_var_text_def Let_def simp del: dropWhile_eq_Nil_conv)
  then show ?rhs using t p by (metis append_Nil2)
next
  assume ?rhs
  then obtain nm r where nm: "list_all is_id_char nm" "t = ''CONFIG_'' @ nm @ r"
    "r = [] \<or> r = CHR ''='' # tl r \<and> valid_value (tl r)" by (metis append_Nil2 list.sel(3))
  have "take 7 t = ''CONFIG_''" "drop 7 t = nm @ r" by (simp_all add: nm(2))
  moreover have "dropWhile is_id_char (nm @ r) = r"
    using nm(1,3) by (cases r) (auto simp: list_all_iff)
  ultimately show "valid_var_text t" using nm(3) by (cases r) (auto simp: valid_var_text_def)
qed

section \<open>The whole check\<close>






section \<open>Properties\<close>

text \<open>C7: a variable is accepted by \<^verbatim>\<open>validate_var\<close> exactly if its text is \<^verbatim>\<open>CONFIG_\<close> followed by capitals,
  digits and underscores, and then optionally \<^verbatim>\<open>=\<close> and a value: a string in double quotes without
  further quotes, or one arbitrary character followed by letters and digits.\<close>

theorem validate_var_correct:
  assumes "is_cstr tok" "len \<le> length tok" "cat tok len \<noteq> DQUOTE"
  shows "fst (validate_var tok len) = 0 \<longleftrightarrow>
    (\<exists>nm. list_all is_id_char nm \<and>
      (take len tok = ''CONFIG_'' @ nm \<or>
       (\<exists>c r. take len tok = ''CONFIG_'' @ nm @ CHR ''='' # c # r \<and>
         (if c = DQUOTE then \<exists>q. r = q @ [DQUOTE] \<and> DQUOTE \<notin> set q else list_all isalnum r))))"
proof -
  let ?t = "take len tok" and ?rhs = "\<exists>nm. list_all is_id_char nm \<and>
      (take len tok = ''CONFIG_'' @ nm \<or>
       (\<exists>c r. take len tok = ''CONFIG_'' @ nm @ CHR ''='' # c # r \<and>
         (if c = DQUOTE then \<exists>q. r = q @ [DQUOTE] \<and> DQUOTE \<notin> set q else list_all isalnum r)))"
  have quoted: "(\<exists>q. r = q @ [DQUOTE] \<and> DQUOTE \<notin> set q) \<longleftrightarrow> r \<noteq> [] \<and> last r = DQUOTE \<and> DQUOTE \<notin> set (butlast r)"
    for r by (metis butlast_snoc last_snoc snoc_eq_iff_butlast)
  have vv: "valid_value v \<longleftrightarrow> (\<exists>c r. v = c # r \<and>
      (if c = DQUOTE then \<exists>q. r = q @ [DQUOTE] \<and> DQUOTE \<notin> set q else list_all isalnum r))" for v
    by (cases v) (simp_all add: valid_value_def quoted)
  have "valid_var_text ?t \<longleftrightarrow> ?rhs" unfolding valid_var_text_split vv by metis
  then show ?thesis using validate_var_valid [OF assms] by simp
qed

lemma validate_var_correct_witness:
  "fst (validate_var ''CONFIG_HZ=250 & X'' 13) = 0"
proof -
  have "is_cstr ''CONFIG_HZ=250 & X''" "13 \<le> length ''CONFIG_HZ=250 & X''"
    "cat ''CONFIG_HZ=250 & X'' 13 \<noteq> DQUOTE" by (simp_all add: cat_def)
  note w = validate_var_correct [OF this]
  have "list_all is_id_char ''HZ''" "list_all isalnum ''50''" by code_simp+
  moreover have "take 13 ''CONFIG_HZ=250 & X'' = ''CONFIG_'' @ ''HZ'' @ CHR ''='' # CHR ''2'' # ''50''" by simp
  ultimately show ?thesis unfolding w by (intro exI [of _ "''HZ''"]) fastforce
qed



end
