(* ===== verification/Timer.thy ===== *)
theory Timer
  imports Res_Flags
begin

text \<open>
  Time arithmetic of \<^verbatim>\<open>include/tst_timer.h\<close> and the timer of \<^verbatim>\<open>lib/tst_timer.c\<close>. All arithmetic is
  on \<^verbatim>\<open>long long\<close>, exact or undefined; a store into a member keeps the bits of that member, whose
  size depends on the machine: \<open>abi\<close> gives the sizes of the members of \<^verbatim>\<open>struct timespec\<close> and of the
  old kernel structure, the new kernel structure has 64 bits. Every access goes through the union
  member the type selects, so a value is its type with the two fields of that member.
\<close>

section \<open>Data\<close>

record abi =
  time_bits :: nat
  nsec_bits :: nat
  kold_bits :: nat

datatype tst_ts_type = TST_LIBC_TIMESPEC | TST_KERN_OLD_TIMESPEC | TST_KERN_TIMESPEC | TST_TS_OTHER int

record timeval =
  tv_sec :: int
  tv_usec :: int

record timespec =
  ts_sec :: int
  ts_nsec :: int

record tst_ts =
  ts_type :: tst_ts_type
  sec :: int
  nsec :: int

record tst_its =
  its_type :: tst_ts_type
  interval_sec :: int
  interval_nsec :: int
  value_sec :: int
  value_nsec :: int

definition type_number :: "tst_ts_type \<Rightarrow> int" where
  "type_number ty =
     (case ty of TST_LIBC_TIMESPEC \<Rightarrow> 0 | TST_KERN_OLD_TIMESPEC \<Rightarrow> 1 | TST_KERN_TIMESPEC \<Rightarrow> 2
      | TST_TS_OTHER k \<Rightarrow> k)"

definition invalid_type :: "tst_ts_type \<Rightarrow> 'a outcome" where
  "invalid_type ty = Brk (TBROK, ''Invalid type: '' @ show_int (type_number ty))"

section \<open>timeval\<close>

definition tst_timeval_to_us :: "timeval \<Rightarrow> int outcome" where
  "tst_timeval_to_us t = obind (ll (tv_sec t * 1000000)) (\<lambda>s. ll (s + tv_usec t))"

definition tst_timeval_to_ms :: "timeval \<Rightarrow> int outcome" where
  "tst_timeval_to_ms t =
     obind (ll (tv_sec t * 1000)) (\<lambda>s. obind (ll (tv_usec t + 500)) (\<lambda>u. ll (s + u sdiv 1000)))"

definition tst_ms_to_timeval :: "abi \<Rightarrow> int \<Rightarrow> timeval" where
  "tst_ms_to_timeval m ms =
     \<lparr>tv_sec = to_signed (time_bits m) (ms sdiv 1000), tv_usec = to_signed (nsec_bits m) ((ms smod 1000) * 1000)\<rparr>"

definition tst_us_to_timeval :: "abi \<Rightarrow> int \<Rightarrow> timeval" where
  "tst_us_to_timeval m us =
     \<lparr>tv_sec = to_signed (time_bits m) (us sdiv 1000000), tv_usec = to_signed (nsec_bits m) (us smod 1000000)\<rparr>"

definition tst_timeval_diff :: "abi \<Rightarrow> timeval \<Rightarrow> timeval \<Rightarrow> timeval outcome" where
  "tst_timeval_diff m t1 t2 =
     obind (arith (time_bits m) (tv_sec t1 - tv_sec t2)) (\<lambda>s.
       if tv_usec t1 < tv_usec t2 then
         obind (arith (time_bits m) (s - 1)) (\<lambda>s'.
           obind (arith (nsec_bits m) (tv_usec t2 - tv_usec t1)) (\<lambda>d.
             obind (arith (nsec_bits m) (1000000 - d)) (\<lambda>u. Ok \<lparr>tv_sec = s', tv_usec = u\<rparr>)))
       else obind (arith (nsec_bits m) (tv_usec t1 - tv_usec t2)) (\<lambda>u. Ok \<lparr>tv_sec = s, tv_usec = u\<rparr>))"

definition tst_timeval_diff_us :: "abi \<Rightarrow> timeval \<Rightarrow> timeval \<Rightarrow> int outcome" where
  "tst_timeval_diff_us m t1 t2 = obind (tst_timeval_diff m t1 t2) tst_timeval_to_us"

definition tst_timeval_diff_ms :: "abi \<Rightarrow> timeval \<Rightarrow> timeval \<Rightarrow> int outcome" where
  "tst_timeval_diff_ms m t1 t2 = obind (tst_timeval_diff m t1 t2) tst_timeval_to_ms"

section \<open>Access to the members\<close>

text \<open>The sizes of the two members of a type, none for a type outside the enumeration.\<close>

fun ts_bits :: "abi \<Rightarrow> tst_ts_type \<Rightarrow> (nat \<times> nat) option" where
  "ts_bits m TST_LIBC_TIMESPEC = Some (time_bits m, nsec_bits m)"
| "ts_bits m TST_KERN_OLD_TIMESPEC = Some (kold_bits m, kold_bits m)"
| "ts_bits m TST_KERN_TIMESPEC = Some (64, 64)"
| "ts_bits m (TST_TS_OTHER k) = None"

fun its_bits :: "abi \<Rightarrow> tst_ts_type \<Rightarrow> nat option" where
  "its_bits m TST_KERN_OLD_TIMESPEC = Some (kold_bits m)"
| "its_bits m TST_KERN_TIMESPEC = Some 64"
| "its_bits m _ = None"

definition tst_ts_get_sec :: "abi \<Rightarrow> tst_ts \<Rightarrow> int outcome" where
  "tst_ts_get_sec m t = (case ts_bits m (ts_type t) of Some _ \<Rightarrow> Ok (sec t) | None \<Rightarrow> invalid_type (ts_type t))"

definition tst_ts_get_nsec :: "abi \<Rightarrow> tst_ts \<Rightarrow> int outcome" where
  "tst_ts_get_nsec m t = (case ts_bits m (ts_type t) of Some _ \<Rightarrow> Ok (nsec t) | None \<Rightarrow> invalid_type (ts_type t))"

definition tst_ts_set_sec :: "abi \<Rightarrow> tst_ts \<Rightarrow> int \<Rightarrow> tst_ts outcome" where
  "tst_ts_set_sec m t x =
     (case ts_bits m (ts_type t) of
        Some (b, _) \<Rightarrow> Ok (t\<lparr>sec := to_signed b x\<rparr>) | None \<Rightarrow> invalid_type (ts_type t))"

definition tst_ts_set_nsec :: "abi \<Rightarrow> tst_ts \<Rightarrow> int \<Rightarrow> tst_ts outcome" where
  "tst_ts_set_nsec m t x =
     (case ts_bits m (ts_type t) of
        Some (_, b) \<Rightarrow> Ok (t\<lparr>nsec := to_signed b x\<rparr>) | None \<Rightarrow> invalid_type (ts_type t))"

definition its_get :: "abi \<Rightarrow> (tst_its \<Rightarrow> int) \<Rightarrow> tst_its \<Rightarrow> int outcome" where
  "its_get m f t = (case its_bits m (its_type t) of Some _ \<Rightarrow> Ok (f t) | None \<Rightarrow> invalid_type (its_type t))"

definition its_set ::
  "abi \<Rightarrow> ((int \<Rightarrow> int) \<Rightarrow> tst_its \<Rightarrow> tst_its) \<Rightarrow> tst_its \<Rightarrow> int \<Rightarrow> tst_its outcome" where
  "its_set m upd t x =
     (case its_bits m (its_type t) of
        Some b \<Rightarrow> Ok (upd (\<lambda>_. to_signed b x) t) | None \<Rightarrow> invalid_type (its_type t))"

definition tst_its_get_interval_sec :: "abi \<Rightarrow> tst_its \<Rightarrow> int outcome" where
  "tst_its_get_interval_sec m = its_get m interval_sec"

definition tst_its_get_interval_nsec :: "abi \<Rightarrow> tst_its \<Rightarrow> int outcome" where
  "tst_its_get_interval_nsec m = its_get m interval_nsec"

definition tst_its_set_interval_sec :: "abi \<Rightarrow> tst_its \<Rightarrow> int \<Rightarrow> tst_its outcome" where
  "tst_its_set_interval_sec m = its_set m interval_sec_update"

definition tst_its_set_interval_nsec :: "abi \<Rightarrow> tst_its \<Rightarrow> int \<Rightarrow> tst_its outcome" where
  "tst_its_set_interval_nsec m = its_set m interval_nsec_update"

definition tst_its_get_value_sec :: "abi \<Rightarrow> tst_its \<Rightarrow> int outcome" where
  "tst_its_get_value_sec m = its_get m value_sec"

definition tst_its_get_value_nsec :: "abi \<Rightarrow> tst_its \<Rightarrow> int outcome" where
  "tst_its_get_value_nsec m = its_get m value_nsec"

definition tst_its_set_value_sec :: "abi \<Rightarrow> tst_its \<Rightarrow> int \<Rightarrow> tst_its outcome" where
  "tst_its_set_value_sec m = its_set m value_sec_update"

definition tst_its_set_value_nsec :: "abi \<Rightarrow> tst_its \<Rightarrow> int \<Rightarrow> tst_its outcome" where
  "tst_its_set_value_nsec m = its_set m value_nsec_update"

section \<open>Validity and conversions\<close>

definition tst_ts_valid :: "abi \<Rightarrow> tst_ts \<Rightarrow> int outcome" where
  "tst_ts_valid m t =
     obind (tst_ts_get_nsec m t) (\<lambda>n.
       if n < 0 \<or> n \<ge> 1000000000 then Ok (- 2)
       else obind (tst_ts_get_sec m t) (\<lambda>s. obind (tst_ts_get_nsec m t) (\<lambda>n'.
         if s = 0 \<and> n' = 0 then Ok (- 1) else Ok 0)))"

definition tst_ts_from_timespec :: "timespec \<Rightarrow> tst_ts" where
  "tst_ts_from_timespec t = \<lparr>ts_type = TST_LIBC_TIMESPEC, sec = ts_sec t, nsec = ts_nsec t\<rparr>"

text \<open>The member \<^verbatim>\<open>libc_ts\<close> is read whatever the type is; a value of another type is not covered.\<close>

definition tst_ts_to_timespec :: "tst_ts \<Rightarrow> timespec outcome" where
  "tst_ts_to_timespec t =
     (if ts_type t = TST_LIBC_TIMESPEC then Ok \<lparr>ts_sec = sec t, ts_nsec = nsec t\<rparr> else UB)"

definition tst_ts_to_ns :: "abi \<Rightarrow> tst_ts \<Rightarrow> int outcome" where
  "tst_ts_to_ns m t =
     obind (tst_ts_get_sec m t) (\<lambda>s. obind (ll (s * 1000000000)) (\<lambda>a.
       obind (tst_ts_get_nsec m t) (\<lambda>n. ll (a + n))))"

definition tst_ts_to_us :: "abi \<Rightarrow> tst_ts \<Rightarrow> int outcome" where
  "tst_ts_to_us m t =
     obind (tst_ts_get_sec m t) (\<lambda>s. obind (ll (s * 1000000)) (\<lambda>a.
       obind (tst_ts_get_nsec m t) (\<lambda>n. obind (ll (n + 500)) (\<lambda>r. ll (a + r sdiv 1000)))))"

definition tst_timespec_to_us :: "abi \<Rightarrow> timespec \<Rightarrow> int outcome" where
  "tst_timespec_to_us m t = tst_ts_to_us m (tst_ts_from_timespec t)"

definition tst_ts_to_ms :: "abi \<Rightarrow> tst_ts \<Rightarrow> int outcome" where
  "tst_ts_to_ms m t =
     obind (tst_ts_get_sec m t) (\<lambda>s. obind (ll (s * 1000)) (\<lambda>a.
       obind (tst_ts_get_nsec m t) (\<lambda>n. obind (ll (n + 500000)) (\<lambda>r. ll (a + r sdiv 1000000)))))"

definition tst_timespec_to_ms :: "abi \<Rightarrow> timespec \<Rightarrow> int outcome" where
  "tst_timespec_to_ms m t = tst_ts_to_ms m (tst_ts_from_timespec t)"

text \<open>\<^verbatim>\<open>struct tst_ts ret = {.type = type}\<close> followed by the two stores.\<close>

definition make_ts :: "abi \<Rightarrow> tst_ts_type \<Rightarrow> int \<Rightarrow> int \<Rightarrow> tst_ts outcome" where
  "make_ts m ty s n =
     obind (tst_ts_set_sec m \<lparr>ts_type = ty, sec = 0, nsec = 0\<rparr> s) (\<lambda>t. tst_ts_set_nsec m t n)"

definition tst_ts_from_ns :: "abi \<Rightarrow> tst_ts_type \<Rightarrow> int \<Rightarrow> tst_ts outcome" where
  "tst_ts_from_ns m ty ns = make_ts m ty (ns sdiv 1000000000) (ns smod 1000000000)"

definition tst_ts_from_us :: "abi \<Rightarrow> tst_ts_type \<Rightarrow> int \<Rightarrow> tst_ts outcome" where
  "tst_ts_from_us m ty us = make_ts m ty (us sdiv 1000000) ((us smod 1000000) * 1000)"

definition tst_timespec_from_us :: "abi \<Rightarrow> int \<Rightarrow> timespec outcome" where
  "tst_timespec_from_us m us = obind (tst_ts_from_us m TST_LIBC_TIMESPEC us) tst_ts_to_timespec"

definition tst_ts_from_ms :: "abi \<Rightarrow> tst_ts_type \<Rightarrow> int \<Rightarrow> tst_ts outcome" where
  "tst_ts_from_ms m ty ms = make_ts m ty (ms sdiv 1000) ((ms smod 1000) * 1000000)"

definition tst_timespec_from_ms :: "abi \<Rightarrow> int \<Rightarrow> timespec outcome" where
  "tst_timespec_from_ms m ms = obind (tst_ts_from_ms m TST_LIBC_TIMESPEC ms) tst_ts_to_timespec"

definition tst_its_set_interval_from_us :: "abi \<Rightarrow> tst_its \<Rightarrow> int \<Rightarrow> tst_its outcome" where
  "tst_its_set_interval_from_us m t usec =
     obind (tst_timespec_from_us m usec) (\<lambda>tp.
       obind (tst_its_set_interval_sec m t (ts_sec tp)) (\<lambda>t'. tst_its_set_interval_nsec m t' (ts_nsec tp)))"

definition tst_its_set_value_from_us :: "abi \<Rightarrow> tst_its \<Rightarrow> int \<Rightarrow> tst_its outcome" where
  "tst_its_set_value_from_us m t usec =
     obind (tst_timespec_from_us m usec) (\<lambda>tp.
       obind (tst_its_set_value_sec m t (ts_sec tp)) (\<lambda>t'. tst_its_set_value_nsec m t' (ts_nsec tp)))"

definition tst_its_set_interval_from_ts :: "abi \<Rightarrow> tst_its \<Rightarrow> tst_ts \<Rightarrow> tst_its outcome" where
  "tst_its_set_interval_from_ts m t ts =
     obind (tst_ts_get_sec m ts) (\<lambda>s. obind (tst_its_set_interval_sec m t s) (\<lambda>t'.
       obind (tst_ts_get_nsec m ts) (\<lambda>n. tst_its_set_interval_nsec m t' n)))"

definition tst_its_set_value_from_ts :: "abi \<Rightarrow> tst_its \<Rightarrow> tst_ts \<Rightarrow> tst_its outcome" where
  "tst_its_set_value_from_ts m t ts =
     obind (tst_ts_get_sec m ts) (\<lambda>s. obind (tst_its_set_value_sec m t s) (\<lambda>t'.
       obind (tst_ts_get_nsec m ts) (\<lambda>n. tst_its_set_value_nsec m t' n)))"

section \<open>Comparison and arithmetic\<close>

definition tst_ts_lt :: "abi \<Rightarrow> tst_ts \<Rightarrow> tst_ts \<Rightarrow> bool outcome" where
  "tst_ts_lt m t1 t2 =
     obind (tst_ts_get_sec m t1) (\<lambda>s1. obind (tst_ts_get_sec m t2) (\<lambda>s2.
       if s1 = s2 then
         obind (tst_ts_get_nsec m t1) (\<lambda>n1. obind (tst_ts_get_nsec m t2) (\<lambda>n2. Ok (n1 < n2)))
       else Ok (s1 < s2)))"

definition tst_timespec_lt :: "abi \<Rightarrow> timespec \<Rightarrow> timespec \<Rightarrow> bool outcome" where
  "tst_timespec_lt m t1 t2 = tst_ts_lt m (tst_ts_from_timespec t1) (tst_ts_from_timespec t2)"

definition tst_ts_normalize :: "abi \<Rightarrow> tst_ts \<Rightarrow> tst_ts outcome" where
  "tst_ts_normalize m t =
     obind (tst_ts_get_sec m t) (\<lambda>s. obind (tst_ts_get_nsec m t) (\<lambda>n.
       obind (if n \<ge> 1000000000 then
           obind (ll (s + 1)) (\<lambda>s'. obind (tst_ts_set_sec m t s') (\<lambda>t'.
             obind (ll (n - 1000000000)) (\<lambda>n'. tst_ts_set_nsec m t' n')))
         else Ok t) (\<lambda>t'.
       if n < 0 then
         obind (ll (s - 1)) (\<lambda>s'. obind (tst_ts_set_sec m t' s') (\<lambda>t''.
           obind (ll (n + 1000000000)) (\<lambda>n'. tst_ts_set_nsec m t'' n')))
       else Ok t')))"

text \<open>A result built from two sums, normalised.\<close>

definition norm_ts :: "abi \<Rightarrow> tst_ts_type \<Rightarrow> int outcome \<Rightarrow> int outcome \<Rightarrow> tst_ts outcome" where
  "norm_ts m ty s n =
     obind s (\<lambda>s'. obind (tst_ts_set_sec m \<lparr>ts_type = ty, sec = 0, nsec = 0\<rparr> s') (\<lambda>t.
       obind n (\<lambda>n'. obind (tst_ts_set_nsec m t n') (tst_ts_normalize m))))"

definition tst_ts_add_us :: "abi \<Rightarrow> tst_ts \<Rightarrow> int \<Rightarrow> tst_ts outcome" where
  "tst_ts_add_us m t us =
     norm_ts m (ts_type t) (obind (tst_ts_get_sec m t) (\<lambda>s. ll (s + us sdiv 1000000)))
       (obind (tst_ts_get_nsec m t) (\<lambda>n. ll (n + (us smod 1000000) * 1000)))"

definition tst_timespec_add_us :: "abi \<Rightarrow> timespec \<Rightarrow> int \<Rightarrow> timespec outcome" where
  "tst_timespec_add_us m t us = obind (tst_ts_add_us m (tst_ts_from_timespec t) us) tst_ts_to_timespec"

definition tst_ts_sub_us :: "abi \<Rightarrow> tst_ts \<Rightarrow> int \<Rightarrow> tst_ts outcome" where
  "tst_ts_sub_us m t us =
     norm_ts m (ts_type t) (obind (tst_ts_get_sec m t) (\<lambda>s. ll (s - us sdiv 1000000)))
       (obind (tst_ts_get_nsec m t) (\<lambda>n. ll (n - (us smod 1000000) * 1000)))"

definition tst_timespec_sub_us :: "abi \<Rightarrow> timespec \<Rightarrow> int \<Rightarrow> timespec outcome" where
  "tst_timespec_sub_us m t us = obind (tst_ts_sub_us m (tst_ts_from_timespec t) us) tst_ts_to_timespec"

text \<open>A sum of two values of the same kind of member.\<close>

definition get2 ::
  "(tst_ts \<Rightarrow> int outcome) \<Rightarrow> tst_ts \<Rightarrow> tst_ts \<Rightarrow> (int \<Rightarrow> int \<Rightarrow> int) \<Rightarrow> int outcome" where
  "get2 g t1 t2 f = obind (g t1) (\<lambda>a. obind (g t2) (\<lambda>b. ll (f a b)))"

definition tst_ts_add :: "abi \<Rightarrow> tst_ts \<Rightarrow> tst_ts \<Rightarrow> tst_ts outcome" where
  "tst_ts_add m t1 t2 =
     norm_ts m (ts_type t1) (get2 (tst_ts_get_sec m) t1 t2 (+)) (get2 (tst_ts_get_nsec m) t1 t2 (+))"

definition tst_timespec_add :: "abi \<Rightarrow> timespec \<Rightarrow> timespec \<Rightarrow> timespec outcome" where
  "tst_timespec_add m t1 t2 =
     obind (tst_ts_add m (tst_ts_from_timespec t1) (tst_ts_from_timespec t2)) tst_ts_to_timespec"

definition tst_ts_diff :: "abi \<Rightarrow> tst_ts \<Rightarrow> tst_ts \<Rightarrow> tst_ts outcome" where
  "tst_ts_diff m t1 t2 =
     norm_ts m (ts_type t1) (get2 (tst_ts_get_sec m) t1 t2 (-)) (get2 (tst_ts_get_nsec m) t1 t2 (-))"

definition tst_timespec_diff :: "abi \<Rightarrow> timespec \<Rightarrow> timespec \<Rightarrow> timespec outcome" where
  "tst_timespec_diff m t1 t2 =
     obind (tst_ts_diff m (tst_ts_from_timespec t1) (tst_ts_from_timespec t2)) tst_ts_to_timespec"

definition tst_ts_diff_ns :: "abi \<Rightarrow> tst_ts \<Rightarrow> tst_ts \<Rightarrow> int outcome" where
  "tst_ts_diff_ns m t1 t2 = obind (tst_ts_diff m t1 t2) (tst_ts_to_ns m)"

definition tst_timespec_diff_ns :: "abi \<Rightarrow> timespec \<Rightarrow> timespec \<Rightarrow> int outcome" where
  "tst_timespec_diff_ns m t1 t2 = tst_ts_diff_ns m (tst_ts_from_timespec t1) (tst_ts_from_timespec t2)"

definition tst_ts_diff_us :: "abi \<Rightarrow> tst_ts \<Rightarrow> tst_ts \<Rightarrow> int outcome" where
  "tst_ts_diff_us m t1 t2 = obind (tst_ts_diff m t1 t2) (tst_ts_to_us m)"

definition tst_timespec_diff_us :: "abi \<Rightarrow> timespec \<Rightarrow> timespec \<Rightarrow> int outcome" where
  "tst_timespec_diff_us m t1 t2 = tst_ts_diff_us m (tst_ts_from_timespec t1) (tst_ts_from_timespec t2)"

definition tst_ts_diff_ms :: "abi \<Rightarrow> tst_ts \<Rightarrow> tst_ts \<Rightarrow> int outcome" where
  "tst_ts_diff_ms m t1 t2 = obind (tst_ts_diff m t1 t2) (tst_ts_to_ms m)"

definition tst_timespec_diff_ms :: "abi \<Rightarrow> timespec \<Rightarrow> timespec \<Rightarrow> int outcome" where
  "tst_timespec_diff_ms m t1 t2 = tst_ts_diff_ms m (tst_ts_from_timespec t1) (tst_ts_from_timespec t2)"

definition tst_ts_abs_diff :: "abi \<Rightarrow> tst_ts \<Rightarrow> tst_ts \<Rightarrow> tst_ts outcome" where
  "tst_ts_abs_diff m t1 t2 =
     obind (tst_ts_lt m t1 t2) (\<lambda>lt. if lt then tst_ts_diff m t2 t1 else tst_ts_diff m t1 t2)"

definition tst_ts_abs_diff_us :: "abi \<Rightarrow> tst_ts \<Rightarrow> tst_ts \<Rightarrow> int outcome" where
  "tst_ts_abs_diff_us m t1 t2 = obind (tst_ts_abs_diff m t1 t2) (tst_ts_to_us m)"

definition tst_timespec_abs_diff_us :: "abi \<Rightarrow> timespec \<Rightarrow> timespec \<Rightarrow> int outcome" where
  "tst_timespec_abs_diff_us m t1 t2 =
     tst_ts_abs_diff_us m (tst_ts_from_timespec t1) (tst_ts_from_timespec t2)"

definition tst_ts_abs_diff_ms :: "abi \<Rightarrow> tst_ts \<Rightarrow> tst_ts \<Rightarrow> int outcome" where
  "tst_ts_abs_diff_ms m t1 t2 = obind (tst_ts_abs_diff m t1 t2) (tst_ts_to_ms m)"

section \<open>The timer\<close>

text \<open>The static variables of \<^verbatim>\<open>lib/tst_timer.c\<close>. Reading a clock is a parameter: an error number or
  the time.\<close>

record timer =
  start_time :: timespec
  stop_time :: timespec
  clock_id :: int

definition EINVAL :: int where "EINVAL = 22"

type_synonym clock_source = "int \<Rightarrow> int + timespec"

definition gettime_failed :: report where
  "gettime_failed = (TWARN OR TERRNO, ''tst_clock_gettime() failed'')"

definition tst_timer_check :: "clock_source \<Rightarrow> (int \<Rightarrow> string) \<Rightarrow> int \<Rightarrow> timer \<Rightarrow> timer outcome" where
  "tst_timer_check gettime tst_clock_name clk_id st =
     (case gettime clk_id of
        Inr t \<Rightarrow> Ok (st\<lparr>start_time := t\<rparr>)
      | Inl errno \<Rightarrow>
          if errno = EINVAL
          then Brk (TCONF, ''Clock id '' @ tst_clock_name clk_id @ ''('' @ show_int (clk_id mod 2 ^ 32) @ '') not supported by kernel'')
          else Brk (TBROK OR TERRNO, ''tst_clock_gettime() failed''))"

definition tst_timer_start :: "clock_source \<Rightarrow> int \<Rightarrow> timer \<Rightarrow> report list \<times> timer" where
  "tst_timer_start gettime clk_id st =
     (case gettime clk_id of
        Inr t \<Rightarrow> ([], st\<lparr>clock_id := clk_id, start_time := t\<rparr>)
      | Inl _ \<Rightarrow> ([gettime_failed], st\<lparr>clock_id := clk_id\<rparr>))"

text \<open>After a failed read the code goes on with a local variable that was never set.\<close>

definition tst_timer_expired_ms :: "abi \<Rightarrow> clock_source \<Rightarrow> int \<Rightarrow> timer \<Rightarrow> bool outcome" where
  "tst_timer_expired_ms m gettime ms st =
     (case gettime (clock_id st) of
        Inr cur \<Rightarrow> obind (tst_timespec_diff_ms m cur (start_time st)) (\<lambda>d. Ok (d \<ge> ms))
      | Inl _ \<Rightarrow> UB)"

definition tst_timer_stop :: "clock_source \<Rightarrow> timer \<Rightarrow> report list \<times> timer" where
  "tst_timer_stop gettime st =
     (case gettime (clock_id st) of
        Inr t \<Rightarrow> ([], st\<lparr>stop_time := t\<rparr>) | Inl _ \<Rightarrow> ([gettime_failed], st))"

definition tst_timer_elapsed :: "abi \<Rightarrow> timer \<Rightarrow> timespec outcome" where
  "tst_timer_elapsed m st = tst_timespec_diff m (stop_time st) (start_time st)"

definition tst_timer_elapsed_ms :: "abi \<Rightarrow> timer \<Rightarrow> int outcome" where
  "tst_timer_elapsed_ms m st = obind (tst_timer_elapsed m st) (tst_timespec_to_ms m)"

definition tst_timer_elapsed_us :: "abi \<Rightarrow> timer \<Rightarrow> int outcome" where
  "tst_timer_elapsed_us m st = obind (tst_timer_elapsed m st) (tst_timespec_to_us m)"

end
