(* ===== verification/Timer_Props.thy ===== *)
theory Timer_Props
  imports Timer
begin

text \<open>
  Time arithmetic against the number of nanoseconds a value stands for: results are normalised and
  exact as long as the seconds have room in their member, comparisons order the values, conversions
  round to the nearest unit. The laws of differences are stated once for any representation of
  points in time, in the locale \<open>time_points\<close>, and hold for every type and machine.
\<close>

section \<open>What a value stands for\<close>

definition ts_ns :: "tst_ts \<Rightarrow> int" where
  "ts_ns t = sec t * 1000000000 + nsec t"

definition normal :: "tst_ts \<Rightarrow> bool" where
  "normal t = (0 \<le> nsec t \<and> nsec t < 1000000000)"

text \<open>A type of the enumeration on a machine with members of 32 to 64 bits, and a value of it.\<close>

definition good_bits :: "abi \<Rightarrow> tst_ts_type \<Rightarrow> nat \<Rightarrow> nat \<Rightarrow> bool" where
  "good_bits m ty b c = (ts_bits m ty = Some (b, c) \<and> 32 \<le> b \<and> b \<le> 64 \<and> 32 \<le> c \<and> c \<le> 64)"

lemma fits_32:
  assumes "- 2147483648 \<le> x" "x < 2147483648" "32 \<le> n"
  shows "fits_signed n x"
  using assms fits_signed_mono [of 32 x n] by (simp add: fits_signed_def)

lemma fits_64: "fits_signed n x \<Longrightarrow> n \<le> 64 \<Longrightarrow> fits_signed 64 x"
  by (rule fits_signed_mono)

lemma get_ok:
  assumes "good_bits m (ts_type t) b c"
  shows "tst_ts_get_sec m t = Ok (sec t)" "tst_ts_get_nsec m t = Ok (nsec t)"
  using assms by (auto simp: good_bits_def tst_ts_get_sec_def tst_ts_get_nsec_def)

lemma set_ok:
  assumes "good_bits m (ts_type t) b c"
  shows "fits_signed b x \<Longrightarrow> tst_ts_set_sec m t x = Ok (t\<lparr>sec := x\<rparr>)"
    "fits_signed c x \<Longrightarrow> tst_ts_set_nsec m t x = Ok (t\<lparr>nsec := x\<rparr>)"
  using assms by (auto simp: good_bits_def tst_ts_set_sec_def tst_ts_set_nsec_def to_signed_id)

text \<open>Nanoseconds up to a second out of range are normalised; the seconds must have room for it.\<close>

lemma norm_ts_ok:
  assumes "good_bits m ty b c" "fits_signed b s" "fits_signed b (s + n div 1000000000)"
    "- 1000000000 \<le> n" "n < 2000000000"
  shows "\<exists>t. norm_ts m ty (Ok s) (Ok n) = Ok t \<and> ts_type t = ty \<and> normal t \<and>
    sec t = s + n div 1000000000 \<and> ts_ns t = s * 1000000000 + n"
proof -
  have c: "fits_signed c n" "fits_signed c (n - 1000000000)" if "0 \<le> n"
    using assms(1,4,5) that by (auto simp: good_bits_def intro!: fits_32)
  have c': "fits_signed c n" "fits_signed c (n + 1000000000)" if "n < 0"
    using assms(1,4) that by (auto simp: good_bits_def intro!: fits_32)
  have big: "fits_signed 64 x" if "fits_signed b x" for x using that assms(1) by (auto simp: good_bits_def intro: fits_64)
  have small: "fits_signed 64 (n - 1000000000)" "fits_signed 64 (n + 1000000000)"
    using assms(4,5) by (auto simp: fits_signed_def)
  have g: "good_bits m (ts_type \<lparr>ts_type = ty, sec = a, nsec = d\<rparr>) b c" for a d using assms(1) by simp
  consider "n < 0" | "0 \<le> n" "n < 1000000000" | "1000000000 \<le> n" by linarith
  then show ?thesis
  proof cases
    case 1
    then have "n div 1000000000 = - 1" using assms(4) by simp
    then show ?thesis using 1 assms c' big small g
      by (auto simp: norm_ts_def tst_ts_normalize_def set_ok [OF g] get_ok [OF g] normal_def ts_ns_def)
  next
    case 2
    then show ?thesis using assms c
      by (auto simp: norm_ts_def tst_ts_normalize_def set_ok [OF g] get_ok [OF g] normal_def ts_ns_def)
  next
    case 3
    then have "n div 1000000000 = 1" using assms(5) by simp
    then show ?thesis using 3 assms c big small
      by (auto simp: norm_ts_def tst_ts_normalize_def set_ok [OF g] get_ok [OF g] normal_def ts_ns_def)
  qed
qed

text \<open>A normalised value whose members hold what is stored in them.\<close>

definition ts_ok :: "abi \<Rightarrow> tst_ts \<Rightarrow> bool" where
  "ts_ok m t = (\<exists>b c. good_bits m (ts_type t) b c \<and> fits_signed b (sec t) \<and> normal t)"

lemma ts_ok_sec_64: "ts_ok m t \<Longrightarrow> fits_signed 64 (sec t)"
  by (auto simp: ts_ok_def good_bits_def intro: fits_64)

lemma ts_ok_get: "ts_ok m t \<Longrightarrow> tst_ts_get_sec m t = Ok (sec t) \<and> tst_ts_get_nsec m t = Ok (nsec t)"
  using get_ok by (auto simp: ts_ok_def)

lemma ts_okI:
  "good_bits m (ts_type t) b c \<Longrightarrow> fits_signed b (sec t) \<Longrightarrow> normal t \<Longrightarrow> ts_ok m t"
  by (auto simp: ts_ok_def)

text \<open>The number of seconds is the floor of the value.\<close>

lemma normal_sec: "normal t \<Longrightarrow> sec t = ts_ns t div 1000000000"
  by (auto simp: normal_def ts_ns_def)

lemma normal_nsec: "normal t \<Longrightarrow> nsec t = ts_ns t mod 1000000000"
  by (auto simp: normal_def ts_ns_def)

text \<open>The general form of the arithmetic: a sum of seconds and a sum of nanoseconds, where both the
  first sum and the result have room in the member.\<close>

lemma norm_ts_value:
  assumes "good_bits m ty b c" "fits_signed b s" "fits_signed b ((s * 1000000000 + n) div 1000000000)"
    "- 1000000000 \<le> n" "n < 2000000000"
  shows "\<exists>t. norm_ts m ty (Ok s) (Ok n) = Ok t \<and> ts_type t = ty \<and> ts_ok m t \<and> ts_ns t = s * 1000000000 + n"
proof -
  have "(s * 1000000000 + n) div 1000000000 = s + n div 1000000000" by simp
  then obtain t where "norm_ts m ty (Ok s) (Ok n) = Ok t" "ts_type t = ty" "normal t"
    "sec t = s + n div 1000000000" "ts_ns t = s * 1000000000 + n"
    using norm_ts_ok [OF assms(1,2) _ assms(4,5)] assms(3) by auto
  then show ?thesis using ts_okI [of m t b c] assms(1,3) by auto
qed

lemma get2_ok:
  assumes "ts_ok m t1" "ts_ok m t2"
  shows "fits_signed 64 (f (sec t1) (sec t2)) \<Longrightarrow> get2 (tst_ts_get_sec m) t1 t2 f = Ok (f (sec t1) (sec t2))"
    "fits_signed 64 (f (nsec t1) (nsec t2)) \<Longrightarrow> get2 (tst_ts_get_nsec m) t1 t2 f = Ok (f (nsec t1) (nsec t2))"
  using assms by (auto simp: get2_def ts_ok_get)

lemma nsec_sums:
  assumes "normal t1" "normal t2"
  shows "- 1000000000 \<le> nsec t1 + nsec t2" "nsec t1 + nsec t2 < 2000000000"
    "- 1000000000 \<le> nsec t1 - nsec t2" "nsec t1 - nsec t2 < 2000000000"
    "fits_signed 64 (nsec t1 + nsec t2)" "fits_signed 64 (nsec t1 - nsec t2)"
  using assms by (auto simp: normal_def fits_signed_def)

lemma diff_value:
  assumes "ts_ok m t1" "ts_ok m t2" "good_bits m (ts_type t1) b c" "fits_signed b (sec t1 - sec t2)"
    "fits_signed b ((ts_ns t1 - ts_ns t2) div 1000000000)"
  shows "\<exists>t. tst_ts_diff m t1 t2 = Ok t \<and> ts_type t = ts_type t1 \<and> ts_ok m t \<and> ts_ns t = ts_ns t1 - ts_ns t2"
proof -
  have n: "normal t1" "normal t2" using assms(1,2) by (auto simp: ts_ok_def)
  note sums = nsec_sums [OF n]
  have v: "ts_ns t1 - ts_ns t2 = (sec t1 - sec t2) * 1000000000 + (nsec t1 - nsec t2)"
    by (simp add: ts_ns_def algebra_simps)
  have "fits_signed 64 (sec t1 - sec t2)" using assms(3,4) by (auto simp: good_bits_def intro: fits_64)
  then show ?thesis using norm_ts_value [OF assms(3,4) _ sums(3,4)] assms(5) v sums(6)
    by (simp add: tst_ts_diff_def get2_ok [OF assms(1,2)])
qed

lemma add_value:
  assumes "ts_ok m t1" "ts_ok m t2" "good_bits m (ts_type t1) b c" "fits_signed b (sec t1 + sec t2)"
    "fits_signed b ((ts_ns t1 + ts_ns t2) div 1000000000)"
  shows "\<exists>t. tst_ts_add m t1 t2 = Ok t \<and> ts_type t = ts_type t1 \<and> ts_ok m t \<and> ts_ns t = ts_ns t1 + ts_ns t2"
proof -
  have n: "normal t1" "normal t2" using assms(1,2) by (auto simp: ts_ok_def)
  note sums = nsec_sums [OF n]
  have v: "ts_ns t1 + ts_ns t2 = (sec t1 + sec t2) * 1000000000 + (nsec t1 + nsec t2)"
    by (simp add: ts_ns_def algebra_simps)
  have "fits_signed 64 (sec t1 + sec t2)" using assms(3,4) by (auto simp: good_bits_def intro: fits_64)
  then show ?thesis using norm_ts_value [OF assms(3,4) _ sums(1,2)] assms(5) v sums(5)
    by (simp add: tst_ts_add_def get2_ok [OF assms(1,2)])
qed

lemma add_us_value:
  assumes "ts_ok m t" "good_bits m (ts_type t) b c" "fits_signed b (sec t + us sdiv 1000000)"
    "fits_signed b ((ts_ns t + us * 1000) div 1000000000)"
  shows "\<exists>t'. tst_ts_add_us m t us = Ok t' \<and> ts_type t' = ts_type t \<and> ts_ok m t' \<and> ts_ns t' = ts_ns t + us * 1000"
proof -
  have n: "normal t" using assms(1) by (auto simp: ts_ok_def)
  have r: "- 1000000 < us smod 1000000" "us smod 1000000 < 1000000" using smod_bounds [of 1000000 us] by auto
  have v: "ts_ns t + us * 1000 = (sec t + us sdiv 1000000) * 1000000000 + (nsec t + (us smod 1000000) * 1000)"
    using sdiv_mult_smod_eq [of us 1000000] by (simp add: ts_ns_def algebra_simps)
  have "fits_signed 64 (sec t + us sdiv 1000000)" using assms(2,3) by (auto simp: good_bits_def intro: fits_64)
  moreover have "- 1000000000 \<le> nsec t + (us smod 1000000) * 1000" "nsec t + (us smod 1000000) * 1000 < 2000000000"
    "fits_signed 64 (nsec t + (us smod 1000000) * 1000)" using n r by (auto simp: normal_def fits_signed_def)
  ultimately show ?thesis using norm_ts_value [OF assms(2,3), of "nsec t + (us smod 1000000) * 1000"] assms(4) v
    by (simp add: tst_ts_add_us_def ts_ok_get [OF assms(1)])
qed

lemma sub_us_value:
  assumes "ts_ok m t" "good_bits m (ts_type t) b c" "fits_signed b (sec t - us sdiv 1000000)"
    "fits_signed b ((ts_ns t - us * 1000) div 1000000000)"
  shows "\<exists>t'. tst_ts_sub_us m t us = Ok t' \<and> ts_type t' = ts_type t \<and> ts_ok m t' \<and> ts_ns t' = ts_ns t - us * 1000"
proof -
  have n: "normal t" using assms(1) by (auto simp: ts_ok_def)
  have r: "- 1000000 < us smod 1000000" "us smod 1000000 < 1000000" using smod_bounds [of 1000000 us] by auto
  have v: "ts_ns t - us * 1000 = (sec t - us sdiv 1000000) * 1000000000 + (nsec t - (us smod 1000000) * 1000)"
    using sdiv_mult_smod_eq [of us 1000000] by (simp add: ts_ns_def algebra_simps)
  have "fits_signed 64 (sec t - us sdiv 1000000)" using assms(2,3) by (auto simp: good_bits_def intro: fits_64)
  moreover have "- 1000000000 \<le> nsec t - (us smod 1000000) * 1000" "nsec t - (us smod 1000000) * 1000 < 2000000000"
    "fits_signed 64 (nsec t - (us smod 1000000) * 1000)" using n r by (auto simp: normal_def fits_signed_def)
  ultimately show ?thesis using norm_ts_value [OF assms(2,3), of "nsec t - (us smod 1000000) * 1000"] assms(4) v
    by (simp add: tst_ts_sub_us_def ts_ok_get [OF assms(1)])
qed

section \<open>Points in time\<close>

text \<open>What a client of the comparison and the difference relies on.\<close>

locale time_points =
  fixes dom :: "'t \<Rightarrow> bool" and val :: "'t \<Rightarrow> int"
    and lt :: "'t \<Rightarrow> 't \<Rightarrow> bool outcome" and diff abs_diff :: "'t \<Rightarrow> 't \<Rightarrow> 't outcome"
  assumes lt_val: "dom t1 \<Longrightarrow> dom t2 \<Longrightarrow> lt t1 t2 = Ok (val t1 < val t2)"
    and diff_val: "dom t1 \<Longrightarrow> dom t2 \<Longrightarrow> \<exists>t. diff t1 t2 = Ok t \<and> val t = val t1 - val t2"
    and diff_dom: "dom t1 \<Longrightarrow> dom t2 \<Longrightarrow> val t2 \<le> val t1 \<Longrightarrow> diff t1 t2 = Ok t \<Longrightarrow> dom t"
    and abs_diff_cases: "abs_diff t1 t2 = obind (lt t1 t2) (\<lambda>b. if b then diff t2 t1 else diff t1 t2)"
begin

lemma abs_diff_val:
  assumes "dom t1" "dom t2"
  shows "\<exists>t. abs_diff t1 t2 = Ok t \<and> dom t \<and> val t = \<bar>val t1 - val t2\<bar>"
proof (cases "val t1 < val t2")
  case True
  then obtain t where "diff t2 t1 = Ok t" "val t = val t2 - val t1" using diff_val assms by blast
  then show ?thesis using True diff_dom [of t2 t1 t] assms by (auto simp: abs_diff_cases lt_val)
next
  case False
  then obtain t where "diff t1 t2 = Ok t" "val t = val t1 - val t2" using diff_val assms by blast
  then show ?thesis using False diff_dom [of t1 t2 t] assms by (auto simp: abs_diff_cases lt_val)
qed

lemma abs_diff_sym:
  assumes "dom t1" "dom t2" "abs_diff t1 t2 = Ok t" "abs_diff t2 t1 = Ok t'"
  shows "val t = val t'"
  using abs_diff_val [OF assms(1,2)] abs_diff_val [OF assms(2,1)] assms(3,4) by auto

end

text \<open>Points of one type on or after the epoch.\<close>

definition ts_point :: "abi \<Rightarrow> tst_ts_type \<Rightarrow> tst_ts \<Rightarrow> bool" where
  "ts_point m ty t = (ts_type t = ty \<and> ts_ok m t \<and> 0 \<le> sec t)"

lemma ts_point_diff:
  assumes "ts_point m ty t1" "ts_point m ty t2"
  shows "\<exists>t. tst_ts_diff m t1 t2 = Ok t \<and> ts_type t = ty \<and> ts_ok m t \<and> ts_ns t = ts_ns t1 - ts_ns t2"
proof -
  obtain b c where g: "good_bits m ty b c" "fits_signed b (sec t1)"
    using assms(1) by (auto simp: ts_point_def ts_ok_def)
  have n: "normal t1" "normal t2" "fits_signed b (sec t2)" "0 \<le> sec t1" "0 \<le> sec t2"
    using assms g(1) by (auto simp: ts_point_def ts_ok_def good_bits_def)
  have p: "(0::int) < 2 ^ (b - 1)" by simp
  have "(ts_ns t1 - ts_ns t2) div 1000000000 = sec t1 - sec t2 + (nsec t1 - nsec t2) div 1000000000"
    by (simp add: ts_ns_def algebra_simps flip: add_diff_eq)
  moreover have "(nsec t1 - nsec t2) div 1000000000 \<in> {- 1, 0}" using n(1,2) by (auto simp: normal_def)
  ultimately have "fits_signed b (sec t1 - sec t2)" "fits_signed b ((ts_ns t1 - ts_ns t2) div 1000000000)"
    using n(3-5) g(2) by (auto simp: fits_signed_def)
  then show ?thesis using diff_value [of m t1 t2 b c] assms g(1) by (auto simp: ts_point_def)
qed

lemma ts_lt_value:
  assumes "ts_ok m t1" "ts_ok m t2"
  shows "tst_ts_lt m t1 t2 = Ok (ts_ns t1 < ts_ns t2)"
proof -
  have "normal t1" "normal t2" using assms by (auto simp: ts_ok_def)
  then show ?thesis by (auto simp: tst_ts_lt_def ts_ok_get [OF assms(1)] ts_ok_get [OF assms(2)] ts_ns_def normal_def)
qed

interpretation ts_time: time_points "ts_point m ty" ts_ns "tst_ts_lt m" "tst_ts_diff m" "tst_ts_abs_diff m" for m ty
proof unfold_locales
  show "tst_ts_abs_diff m t1 t2 = obind (tst_ts_lt m t1 t2) (\<lambda>b. if b then tst_ts_diff m t2 t1 else tst_ts_diff m t1 t2)"
    for t1 t2 by (simp add: tst_ts_abs_diff_def)
  fix t1 t2 t
  assume 1: "ts_point m ty t1" and 2: "ts_point m ty t2"
  then show "tst_ts_lt m t1 t2 = Ok (ts_ns t1 < ts_ns t2)" by (simp add: ts_lt_value ts_point_def)
  show "\<exists>t. tst_ts_diff m t1 t2 = Ok t \<and> ts_ns t = ts_ns t1 - ts_ns t2" using ts_point_diff [OF 1 2] by blast
  assume "ts_ns t2 \<le> ts_ns t1" "tst_ts_diff m t1 t2 = Ok t"
  then have "ts_type t = ty \<and> ts_ok m t \<and> 0 \<le> ts_ns t" using ts_point_diff [OF 1 2] by auto
  then show "ts_point m ty t" using normal_sec [of t]
    by (auto simp: ts_point_def ts_ok_def pos_imp_zdiv_nonneg_iff)
qed

section \<open>Conversions\<close>

lemma to_ns_value:
  assumes "ts_ok m t" "fits_signed 64 (sec t * 1000000000)" "fits_signed 64 (ts_ns t)"
  shows "tst_ts_to_ns m t = Ok (ts_ns t)"
  using assms by (simp add: tst_ts_to_ns_def ts_ok_get ts_ns_def)

lemma to_us_value:
  assumes "ts_ok m t" "fits_signed 64 (sec t * 1000000)" "fits_signed 64 ((ts_ns t + 500) div 1000)"
  shows "tst_ts_to_us m t = Ok ((ts_ns t + 500) div 1000)"
proof -
  have n: "0 \<le> nsec t" "nsec t < 1000000000" using assms(1) by (auto simp: ts_ok_def normal_def)
  then have "(nsec t + 500) sdiv 1000 = (nsec t + 500) div 1000" by (simp add: sdiv_nonneg)
  moreover have "(ts_ns t + 500) div 1000 = sec t * 1000000 + (nsec t + 500) div 1000"
    unfolding ts_ns_def by linarith
  moreover have "fits_signed 64 (nsec t + 500)" using n by (simp add: fits_signed_def)
  ultimately show ?thesis using assms by (simp add: tst_ts_to_us_def ts_ok_get)
qed

lemma to_ms_value:
  assumes "ts_ok m t" "fits_signed 64 (sec t * 1000)" "fits_signed 64 ((ts_ns t + 500000) div 1000000)"
  shows "tst_ts_to_ms m t = Ok ((ts_ns t + 500000) div 1000000)"
proof -
  have n: "0 \<le> nsec t" "nsec t < 1000000000" using assms(1) by (auto simp: ts_ok_def normal_def)
  then have "(nsec t + 500000) sdiv 1000000 = (nsec t + 500000) div 1000000" by (simp add: sdiv_nonneg)
  moreover have "(ts_ns t + 500000) div 1000000 = sec t * 1000 + (nsec t + 500000) div 1000000"
    unfolding ts_ns_def by linarith
  moreover have "fits_signed 64 (nsec t + 500000)" using n by (simp add: fits_signed_def)
  ultimately show ?thesis using assms by (simp add: tst_ts_to_ms_def ts_ok_get)
qed

lemma make_ts_ok:
  assumes "good_bits m ty b c" "fits_signed b s" "0 \<le> n" "n < 1000000000"
  shows "make_ts m ty s n = Ok \<lparr>ts_type = ty, sec = s, nsec = n\<rparr>"
proof -
  have "fits_signed c n" using assms by (auto simp: good_bits_def intro!: fits_32)
  moreover have "good_bits m (ts_type \<lparr>ts_type = ty, sec = a, nsec = d\<rparr>) b c" for a d using assms(1) by simp
  ultimately show ?thesis using assms(2) set_ok by (simp add: make_ts_def)
qed

text \<open>Values of at most about 292 years in nanoseconds: all conversions have room.\<close>

lemma sec_small:
  assumes "ts_ok m t" "0 \<le> ts_ns t" "ts_ns t < 2 ^ 62"
  shows "0 \<le> sec t" "sec t \<le> 4611686018" "fits_signed 64 (sec t * 1000000)" "fits_signed 64 (sec t * 1000)"
proof -
  have "sec t = ts_ns t div 1000000000" using assms(1) normal_sec by (auto simp: ts_ok_def)
  then show s: "0 \<le> sec t" "sec t \<le> 4611686018" using assms(2,3) by auto
  show "fits_signed 64 (sec t * 1000000)" "fits_signed 64 (sec t * 1000)" using s by (auto simp: fits_signed_def)
qed

lemma to_us_small:
  assumes "ts_ok m t" "0 \<le> ts_ns t" "ts_ns t < 2 ^ 62"
  shows "tst_ts_to_us m t = Ok ((ts_ns t + 500) div 1000)"
proof -
  have "fits_signed 64 ((ts_ns t + 500) div 1000)" using assms(2,3) by (auto simp: fits_signed_def)
  then show ?thesis using to_us_value [OF assms(1)] sec_small [OF assms] by blast
qed

lemma to_ms_small:
  assumes "ts_ok m t" "0 \<le> ts_ns t" "ts_ns t < 2 ^ 62"
  shows "tst_ts_to_ms m t = Ok ((ts_ns t + 500000) div 1000000)"
proof -
  have "fits_signed 64 ((ts_ns t + 500000) div 1000000)" using assms(2,3) by (auto simp: fits_signed_def)
  then show ?thesis using to_ms_value [OF assms(1)] sec_small [OF assms] by blast
qed

lemma make_ts_value:
  assumes "good_bits m ty b c" "fits_signed b s" "0 \<le> n" "n < 1000000000"
  shows "\<exists>t. make_ts m ty s n = Ok t \<and> ts_ok m t \<and> ts_ns t = s * 1000000000 + n"
  using make_ts_ok [OF assms] assms by (auto intro: ts_okI simp: normal_def ts_ns_def)

lemma from_to_ns:
  assumes "good_bits m ty b c" "0 \<le> k" "k < 2 ^ 62 \<and> fits_signed b (k div 1000000000)"
  shows "obind (tst_ts_from_ns m ty k) (tst_ts_to_ns m) = Ok k"
proof -
  obtain t where t: "make_ts m ty (k div 1000000000) (k mod 1000000000) = Ok t" "ts_ok m t" "ts_ns t = k"
    using make_ts_value [OF assms(1), of "k div 1000000000" "k mod 1000000000"] assms(3) by auto
  have "0 \<le> sec t" "sec t \<le> 4611686018" using sec_small [OF t(2)] t(3) assms(2,3) by auto
  then have "fits_signed 64 (sec t * 1000000000)" "fits_signed 64 k" using assms(2,3) by (auto simp: fits_signed_def)
  then show ?thesis using t to_ns_value [OF t(2)] assms(2) by (simp add: tst_ts_from_ns_def sdiv_nonneg smod_nonneg)
qed

lemma from_to_us:
  assumes "good_bits m ty b c" "0 \<le> k" "k * 1000 < 2 ^ 62 \<and> fits_signed b (k div 1000000)"
  shows "obind (tst_ts_from_us m ty k) (tst_ts_to_us m) = Ok k"
proof -
  obtain t where t: "make_ts m ty (k div 1000000) (k mod 1000000 * 1000) = Ok t" "ts_ok m t"
    "ts_ns t = k div 1000000 * 1000000000 + k mod 1000000 * 1000"
    using make_ts_value [OF assms(1), of "k div 1000000" "k mod 1000000 * 1000"] assms(3) by auto
  then have "ts_ns t = k * 1000" using div_mult_mod_eq [of k 1000000] by linarith
  then show ?thesis using t(1) to_us_small [OF t(2)] assms(2,3) by (simp add: tst_ts_from_us_def sdiv_nonneg smod_nonneg)
qed

lemma from_to_ms:
  assumes "good_bits m ty b c" "0 \<le> k" "k * 1000000 < 2 ^ 62 \<and> fits_signed b (k div 1000)"
  shows "obind (tst_ts_from_ms m ty k) (tst_ts_to_ms m) = Ok k"
proof -
  obtain t where t: "make_ts m ty (k div 1000) (k mod 1000 * 1000000) = Ok t" "ts_ok m t"
    "ts_ns t = k div 1000 * 1000000000 + k mod 1000 * 1000000"
    using make_ts_value [OF assms(1), of "k div 1000" "k mod 1000 * 1000000"] assms(3) by auto
  then have "ts_ns t = k * 1000000" using div_mult_mod_eq [of k 1000] by linarith
  then show ?thesis using t(1) to_ms_small [OF t(2)] assms(2,3) by (simp add: tst_ts_from_ms_def sdiv_nonneg smod_nonneg)
qed

section \<open>Normalised results\<close>

lemma norm_ts_normal:
  assumes "norm_ts m ty s n = Ok t" "\<And>n'. n = Ok n' \<Longrightarrow> - 1000000000 \<le> n' \<and> n' < 2000000000"
    "good_bits m ty b c"
  shows "ts_type t = ty \<and> normal t \<and> fits_signed b (sec t)"
proof -
  obtain s0 n0 where s: "s = Ok s0" and n: "n = Ok n0"
    using assms(1) by (auto simp: norm_ts_def obind_Ok_iff)
  have b: "0 < b" "32 \<le> c" "ts_bits m ty = Some (b, c)" using assms(3) by (auto simp: good_bits_def)
  have "fits_signed c n0" using assms(2) [OF n] b(2) by (auto intro!: fits_32)
  moreover have "fits_signed c (n0 - 1000000000)" "fits_signed c (n0 + 1000000000) \<or> 0 \<le> n0"
    using assms(2) [OF n] b(2) by (auto intro!: fits_32)
  ultimately show ?thesis using assms(1) assms(2) [OF n] b
    by (auto simp: s n norm_ts_def tst_ts_normalize_def tst_ts_set_sec_def tst_ts_set_nsec_def
        tst_ts_get_sec_def tst_ts_get_nsec_def obind_Ok_iff to_signed_id arith_Ok_iff to_signed_fits normal_def
        split: if_splits)
qed

lemma ts_ok_bits: "ts_ok m t \<Longrightarrow> \<exists>b c. good_bits m (ts_type t) b c"
  by (auto simp: ts_ok_def)

lemma norm_ts_keeps:
  assumes "norm_ts m (ts_type t0) s n = Ok t" "ts_ok m t0"
    "\<And>n'. n = Ok n' \<Longrightarrow> - 1000000000 \<le> n' \<and> n' < 2000000000"
  shows "ts_ok m t \<and> ts_type t = ts_type t0"
proof -
  obtain b c where g: "good_bits m (ts_type t0) b c" using ts_ok_bits [OF assms(2)] by blast
  then show ?thesis using norm_ts_normal [OF assms(1,3) g] ts_okI [of m t b c] by auto
qed

lemma ts_eqI: "ts_type t = ts_type t' \<Longrightarrow> normal t \<Longrightarrow> normal t' \<Longrightarrow> ts_ns t = ts_ns t' \<Longrightarrow> t = (t' :: tst_ts)"
  using normal_sec [of t] normal_sec [of t'] normal_nsec [of t] normal_nsec [of t'] by auto

lemma near_div:
  fixes n r s q :: int
  assumes "0 \<le> n" "n < 1000000000" "- 1000000 < r" "r < 1000000"
  shows "\<bar>(s * 1000000000 + n + (q * 1000000 + r) * 1000) div 1000000000 - (s + q)\<bar> \<le> 1"
    "\<bar>(s * 1000000000 + n - (q * 1000000 + r) * 1000) div 1000000000 - (s - q)\<bar> \<le> 1"
proof -
  have "s * 1000000000 + n + (q * 1000000 + r) * 1000 = (n + r * 1000) + (s + q) * 1000000000"
    "s * 1000000000 + n - (q * 1000000 + r) * 1000 = (n - r * 1000) + (s - q) * 1000000000" by simp_all
  moreover have "\<bar>(n + r * 1000) div 1000000000\<bar> \<le> 1" "\<bar>(n - r * 1000) div 1000000000\<bar> \<le> 1"
    using assms by auto
  ultimately show "\<bar>(s * 1000000000 + n + (q * 1000000 + r) * 1000) div 1000000000 - (s + q)\<bar> \<le> 1"
    "\<bar>(s * 1000000000 + n - (q * 1000000 + r) * 1000) div 1000000000 - (s - q)\<bar> \<le> 1"
    by (simp_all only: div_mult_self1 zero_neq_numeral not_False_eq_True if_True)
qed

section \<open>Properties\<close>

text \<open>C28: normalised values stay normalised: whenever an addition, a difference, or the addition or
  subtraction of microseconds returns, its result has its nanoseconds in range, fits its members and
  has the type of the first operand, even where the seconds were cut to the size of their member.\<close>

theorem ts_arith_normalized:
  assumes "ts_ok m t1" "ts_ok m t2" "tst_ts_add m t1 t2 = Ok t \<or> tst_ts_diff m t1 t2 = Ok t \<or>
    tst_ts_add_us m t1 us = Ok t \<or> tst_ts_sub_us m t1 us = Ok t"
  shows "ts_ok m t \<and> ts_type t = ts_type t1"
proof -
  have n: "normal t1" "normal t2" using assms by (auto simp: ts_ok_def)
  have us: "- 1000000 < us smod 1000000" "us smod 1000000 < 1000000" using smod_bounds [of 1000000 us] by auto
  note get = ts_ok_get [OF assms(1)] ts_ok_get [OF assms(2)]
  have "\<exists>s n'. norm_ts m (ts_type t1) s n' = Ok t \<and> (\<forall>k. n' = Ok k \<longrightarrow> - 1000000000 \<le> k \<and> k < 2000000000)"
    using assms(3) n us unfolding tst_ts_add_def tst_ts_diff_def tst_ts_add_us_def tst_ts_sub_us_def
    by (elim disjE) (intro exI conjI allI impI, assumption,
        auto simp: get2_def get arith_Ok_iff normal_def)+
  then show ?thesis using norm_ts_keeps assms(1) by blast
qed

definition abi64 :: abi where
  "abi64 = \<lparr>time_bits = 64, nsec_bits = 64, kold_bits = 64\<rparr>"

definition abi32 :: abi where
  "abi32 = \<lparr>time_bits = 32, nsec_bits = 32, kold_bits = 32\<rparr>"

lemma abi_good:
  "good_bits abi64 TST_LIBC_TIMESPEC 64 64" "good_bits abi32 TST_LIBC_TIMESPEC 32 32"
  "good_bits abi32 TST_KERN_TIMESPEC 64 64"
  by (simp_all add: good_bits_def abi64_def abi32_def)

text \<open>A wrap of the seconds on a 32-bit machine, as after January 2038.\<close>

lemma ts_arith_normalized_witness:
  "\<exists>t. tst_ts_add abi32 \<lparr>ts_type = TST_LIBC_TIMESPEC, sec = 2147483647, nsec = 900000000\<rparr>
       \<lparr>ts_type = TST_LIBC_TIMESPEC, sec = 0, nsec = 200000000\<rparr> = Ok t \<and>
     sec t = - 2147483648 \<and> ts_ok abi32 t"
proof -
  let ?a = "\<lparr>ts_type = TST_LIBC_TIMESPEC, sec = 2147483647, nsec = 900000000\<rparr>"
  let ?b = "\<lparr>ts_type = TST_LIBC_TIMESPEC, sec = 0, nsec = 200000000\<rparr>"
  have "ts_ok abi32 ?a" "ts_ok abi32 ?b"
    using abi_good(2) by (auto intro!: ts_okI simp: fits_signed_def normal_def)
  moreover have "tst_ts_add abi32 ?a ?b = Ok \<lparr>ts_type = TST_LIBC_TIMESPEC, sec = - 2147483648, nsec = 100000000\<rparr>"
    by code_simp
  ultimately show ?thesis using ts_arith_normalized [of abi32 ?a ?b] by fastforce
qed

text \<open>C30: for two points in time of the same type on or after the epoch and less than \<open>2 ^ 62\<close>
  nanoseconds apart, the absolute difference in microseconds is defined, does not depend on the order
  of the arguments, and is the exact difference rounded to the nearest microsecond.\<close>

theorem abs_diff_us_correct:
  assumes "ts_point m ty t1" "ts_point m ty t2" "\<bar>ts_ns t1 - ts_ns t2\<bar> < 2 ^ 62"
  shows "\<exists>us. tst_ts_abs_diff_us m t1 t2 = Ok us \<and> tst_ts_abs_diff_us m t2 t1 = Ok us \<and>
    \<bar>us * 1000 - \<bar>ts_ns t1 - ts_ns t2\<bar>\<bar> \<le> 500"
proof -
  obtain t where t: "tst_ts_abs_diff m t1 t2 = Ok t" "ts_point m ty t" "ts_ns t = \<bar>ts_ns t1 - ts_ns t2\<bar>"
    using ts_time.abs_diff_val [OF assms(1,2)] by blast
  obtain t' where t': "tst_ts_abs_diff m t2 t1 = Ok t'" "ts_point m ty t'" "ts_ns t' = \<bar>ts_ns t1 - ts_ns t2\<bar>"
    using ts_time.abs_diff_val [OF assms(2,1)] by (metis abs_minus_commute)
  have "ts_ok m t" "ts_ok m t'" using t(2) t'(2) by (auto simp: ts_point_def)
  then have "tst_ts_to_us m t = Ok ((\<bar>ts_ns t1 - ts_ns t2\<bar> + 500) div 1000)"
    "tst_ts_to_us m t' = Ok ((\<bar>ts_ns t1 - ts_ns t2\<bar> + 500) div 1000)"
    using to_us_small [of m t] to_us_small [of m t'] t(3) t'(3) assms(3) by auto
  then show ?thesis using t(1) t'(1) by (auto simp: tst_ts_abs_diff_us_def)
qed

lemma abs_diff_us_correct_witness:
  "tst_ts_abs_diff_us abi64 \<lparr>ts_type = TST_LIBC_TIMESPEC, sec = 5, nsec = 400\<rparr>
     \<lparr>ts_type = TST_LIBC_TIMESPEC, sec = 7, nsec = 0\<rparr> = Ok 2000000"
proof -
  let ?a = "\<lparr>ts_type = TST_LIBC_TIMESPEC, sec = 5, nsec = 400\<rparr>"
  let ?b = "\<lparr>ts_type = TST_LIBC_TIMESPEC, sec = 7, nsec = 0\<rparr>"
  have "ts_point abi64 TST_LIBC_TIMESPEC ?a" "ts_point abi64 TST_LIBC_TIMESPEC ?b"
    using abi_good(1) by (auto intro!: ts_okI simp: fits_signed_def normal_def ts_point_def)
  then obtain us where us: "tst_ts_abs_diff_us abi64 ?a ?b = Ok us" "\<bar>us * 1000 - 1999999600\<bar> \<le> 500"
    using abs_diff_us_correct [of abi64 TST_LIBC_TIMESPEC ?a ?b] by (auto simp: ts_ns_def)
  then have "us = 2000000" by linarith
  then show ?thesis using us by simp
qed

text \<open>C31: adding and then subtracting the same number of microseconds gives the value back, and so
  does subtracting and then adding, for positive and negative numbers, as long as the seconds stay a
  second away from the ends of the range of their member.\<close>

theorem add_sub_us_roundtrip:
  assumes "ts_ok m t" "good_bits m (ts_type t) b c" "\<bar>sec t\<bar> + \<bar>us sdiv 1000000\<bar> + 2 < 2 ^ (b - 1)"
  shows "obind (tst_ts_add_us m t us) (\<lambda>t'. tst_ts_sub_us m t' us) = Ok t \<and>
    obind (tst_ts_sub_us m t us) (\<lambda>t'. tst_ts_add_us m t' us) = Ok t"
proof -
  define q where "q = us sdiv 1000000"
  define r where "r = us smod 1000000"
  have us: "us = q * 1000000 + r" "- 1000000 < r" "r < 1000000"
    using smod_bounds [of 1000000 us] sdiv_mult_smod_eq [of us 1000000] by (auto simp: q_def r_def)
  have n: "normal t" using assms(1) by (auto simp: ts_ok_def)
  have room: "fits_signed b x" if "\<bar>x\<bar> \<le> \<bar>sec t\<bar> + \<bar>q\<bar> + 2" for x
    using that assms(3) unfolding fits_signed_def q_def by linarith
  have near: "\<bar>(ts_ns t + us * 1000) div 1000000000 - (sec t + q)\<bar> \<le> 1"
    "\<bar>(ts_ns t - us * 1000) div 1000000000 - (sec t - q)\<bar> \<le> 1"
    using near_div [of "nsec t" r "sec t" q] us n by (simp_all add: ts_ns_def normal_def)
  have fits: "fits_signed b (sec t + q)" "fits_signed b ((ts_ns t + us * 1000) div 1000000000)"
    "fits_signed b (sec t - q)" "fits_signed b ((ts_ns t - us * 1000) div 1000000000)" "fits_signed b (sec t)"
    using near by (intro room; linarith)+
  obtain t1 where t1: "tst_ts_add_us m t us = Ok t1" "ts_type t1 = ts_type t" "ts_ok m t1" "ts_ns t1 = ts_ns t + us * 1000"
    using add_us_value [OF assms(1,2) fits(1) [unfolded q_def] fits(2)] by blast
  obtain t2 where t2: "tst_ts_sub_us m t us = Ok t2" "ts_type t2 = ts_type t" "ts_ok m t2" "ts_ns t2 = ts_ns t - us * 1000"
    using sub_us_value [OF assms(1,2) fits(3) [unfolded q_def] fits(4)] by blast
  have sec: "sec t1 = (ts_ns t + us * 1000) div 1000000000" "sec t2 = (ts_ns t - us * 1000) div 1000000000"
    "sec t = ts_ns t div 1000000000"
    using normal_sec t1(3,4) t2(3,4) n by (auto simp: ts_ok_def)
  have bk: "fits_signed b (sec t1 - q)" "fits_signed b (sec t2 + q)"
    using near unfolding sec(1,2) [symmetric] by (intro room; linarith)+
  have bk': "fits_signed b ((ts_ns t1 - us * 1000) div 1000000000)" "fits_signed b ((ts_ns t2 + us * 1000) div 1000000000)"
    using fits(5) t1(4) t2(4) sec(3) by simp_all
  have g: "good_bits m (ts_type t1) b c" "good_bits m (ts_type t2) b c" using assms(2) t1(2) t2(2) by simp_all
  obtain t1' where "tst_ts_sub_us m t1 us = Ok t1'" "ts_type t1' = ts_type t" "ts_ok m t1'" "ts_ns t1' = ts_ns t"
    using sub_us_value [OF t1(3) g(1) bk(1) [unfolded q_def] bk'(1)] t1(2,4) by auto
  moreover obtain t2' where "tst_ts_add_us m t2 us = Ok t2'" "ts_type t2' = ts_type t" "ts_ok m t2'" "ts_ns t2' = ts_ns t"
    using add_us_value [OF t2(3) g(2) bk(2) [unfolded q_def] bk'(2)] t2(2,4) by auto
  moreover have "t' = t" if "ts_type t' = ts_type t" "ts_ok m t'" "ts_ns t' = ts_ns t" for t'
    using that n ts_eqI [of t' t] by (auto simp: ts_ok_def)
  ultimately show ?thesis using t1(1) t2(1) by simp
qed

lemma add_sub_us_roundtrip_witness:
  "obind (tst_ts_add_us abi32 \<lparr>ts_type = TST_LIBC_TIMESPEC, sec = 1700000000, nsec = 5\<rparr> (- 2500000))
     (\<lambda>t. tst_ts_sub_us abi32 t (- 2500000)) =
   Ok \<lparr>ts_type = TST_LIBC_TIMESPEC, sec = 1700000000, nsec = 5\<rparr>"
proof -
  let ?a = "\<lparr>ts_type = TST_LIBC_TIMESPEC, sec = 1700000000, nsec = 5\<rparr>"
  have "ts_ok abi32 ?a" using abi_good(2) by (auto intro!: ts_okI simp: fits_signed_def normal_def)
  moreover have "good_bits abi32 (ts_type ?a) 32 32" using abi_good(2) by simp
  moreover have "\<bar>sec ?a\<bar> + \<bar>(- 2500000) sdiv 1000000\<bar> + 2 < 2 ^ (32 - 1)" by simp
  ultimately show ?thesis using add_sub_us_roundtrip [of abi32 ?a 32 32 "- 2500000"] by simp
qed

text \<open>C32: a number of nanoseconds, microseconds or milliseconds that is not negative survives the
  conversion to a value and back, provided the seconds fit the member and the number is not above
  \<open>2 ^ 62\<close> nanoseconds.\<close>

theorem from_to_roundtrip:
  assumes "good_bits m ty b c" "0 \<le> k"
  shows "(k < 2 ^ 62 \<and> fits_signed b (k div 1000000000) \<longrightarrow>
      obind (tst_ts_from_ns m ty k) (tst_ts_to_ns m) = Ok k) \<and>
    (k * 1000 < 2 ^ 62 \<and> fits_signed b (k div 1000000) \<longrightarrow>
      obind (tst_ts_from_us m ty k) (tst_ts_to_us m) = Ok k) \<and>
    (k * 1000000 < 2 ^ 62 \<and> fits_signed b (k div 1000) \<longrightarrow>
      obind (tst_ts_from_ms m ty k) (tst_ts_to_ms m) = Ok k)"
  using from_to_ns [OF assms] from_to_us [OF assms] from_to_ms [OF assms] by blast

lemma from_to_roundtrip_witness:
  "obind (tst_ts_from_us abi32 TST_KERN_TIMESPEC 5000000123) (tst_ts_to_us abi32) = Ok 5000000123"
  using from_to_roundtrip [OF abi_good(3), of 5000000123] by (simp add: fits_signed_def)

text \<open>C29: a timer that is started and stopped with working clocks reports the time between the two
  readings, rounded to the nearest millisecond, and it has expired exactly if it has been running for
  longer than the limit, unless the time is within the half millisecond up to the limit, where the
  rounding decides.\<close>

theorem timer_correct:
  assumes "g1 clk = Inr t0" "g2 clk = Inr t1" "good_bits m TST_LIBC_TIMESPEC b c"
    "ts_point m TST_LIBC_TIMESPEC (tst_ts_from_timespec t0)"
    "ts_point m TST_LIBC_TIMESPEC (tst_ts_from_timespec t1)"
    "el = ts_ns (tst_ts_from_timespec t1) - ts_ns (tst_ts_from_timespec t0)" "0 \<le> el" "el < 2 ^ 62"
  shows "\<exists>st1 st2 k x. tst_timer_start g1 clk st = ([], st1) \<and> tst_timer_stop g2 st1 = ([], st2) \<and>
    tst_timer_elapsed_ms m st2 = Ok k \<and> \<bar>k * 1000000 - el\<bar> \<le> 500000 \<and>
    tst_timer_expired_ms m g2 ms st1 = Ok x \<and>
    (el \<in> {ms * 1000000 - 500000..ms * 1000000} \<or> x = (ms * 1000000 < el))"
proof -
  let ?st1 = "st\<lparr>clock_id := clk, start_time := t0\<rparr>"
  have 1: "tst_timer_start g1 clk st = ([], ?st1)" using assms(1) by (simp add: tst_timer_start_def)
  have 2: "tst_timer_stop g2 ?st1 = ([], ?st1\<lparr>stop_time := t1\<rparr>)" using assms(2) by (simp add: tst_timer_stop_def)
  obtain d where d: "tst_ts_diff m (tst_ts_from_timespec t1) (tst_ts_from_timespec t0) = Ok d"
    "ts_type d = TST_LIBC_TIMESPEC" "ts_ok m d" "ts_ns d = el"
    using ts_point_diff [OF assms(5,4)] assms(6) by auto
  have ms: "tst_ts_to_ms m d = Ok ((el + 500000) div 1000000)"
    using to_ms_small [OF d(3)] d(4) assms(7,8) by simp
  have "tst_ts_from_timespec \<lparr>ts_sec = sec d, ts_nsec = nsec d\<rparr> = d"
    using d(2) by (simp add: tst_ts_from_timespec_def)
  then have 3: "tst_timer_elapsed_ms m (?st1\<lparr>stop_time := t1\<rparr>) = Ok ((el + 500000) div 1000000)"
    using d(1,2) ms by (simp add: tst_timer_elapsed_ms_def tst_timer_elapsed_def tst_timespec_diff_def
        tst_ts_to_timespec_def tst_timespec_to_ms_def)
  have "tst_timer_expired_ms m g2 ms ?st1 = Ok (ms \<le> (el + 500000) div 1000000)"
    using assms(2) d(1) ms by (simp add: tst_timer_expired_ms_def tst_timespec_diff_ms_def tst_ts_diff_ms_def)
  moreover have "ms \<le> (el + 500000) div 1000000 \<longleftrightarrow> ms * 1000000 \<le> el + 500000"
    using div_mult_mod_eq [of "el + 500000" 1000000] pos_mod_bound [of 1000000 "el + 500000"]
      pos_mod_sign [of 1000000 "el + 500000"] by linarith
  moreover have "\<bar>(el + 500000) div 1000000 * 1000000 - el\<bar> \<le> 500000"
    using div_mult_mod_eq [of "el + 500000" 1000000] pos_mod_bound [of 1000000 "el + 500000"]
      pos_mod_sign [of 1000000 "el + 500000"] by linarith
  moreover have "el \<in> {ms * 1000000 - 500000..ms * 1000000} \<or>
      (ms * 1000000 \<le> el + 500000) = (ms * 1000000 < el)" by auto
  ultimately show ?thesis using 1 2 3 by auto
qed

definition idle_timer :: timer where
  "idle_timer = \<lparr>start_time = \<lparr>ts_sec = 0, ts_nsec = 0\<rparr>, stop_time = \<lparr>ts_sec = 0, ts_nsec = 0\<rparr>, clock_id = 0\<rparr>"

lemma timer_correct_witness:
  "\<exists>st1 st2. tst_timer_start (\<lambda>_. Inr \<lparr>ts_sec = 10, ts_nsec = 900000000\<rparr>) 1 idle_timer = ([], st1) \<and>
     tst_timer_stop (\<lambda>_. Inr \<lparr>ts_sec = 12, ts_nsec = 100600000\<rparr>) st1 = ([], st2) \<and>
     tst_timer_elapsed_ms abi64 st2 = Ok 1201 \<and>
     tst_timer_expired_ms abi64 (\<lambda>_. Inr \<lparr>ts_sec = 12, ts_nsec = 100600000\<rparr>) 1200 st1 = Ok True"
proof -
  let ?t0 = "\<lparr>ts_sec = 10, ts_nsec = 900000000\<rparr>" and ?t1 = "\<lparr>ts_sec = 12, ts_nsec = 100600000\<rparr>"
  have p: "ts_point abi64 TST_LIBC_TIMESPEC (tst_ts_from_timespec ?t0)"
    "ts_point abi64 TST_LIBC_TIMESPEC (tst_ts_from_timespec ?t1)"
    using abi_good(1) by (auto intro!: ts_okI simp: fits_signed_def normal_def ts_point_def tst_ts_from_timespec_def)
  have e: "1200600000 = ts_ns (tst_ts_from_timespec ?t1) - ts_ns (tst_ts_from_timespec ?t0)"
    by (simp add: ts_ns_def tst_ts_from_timespec_def)
  obtain st1 st2 k where "tst_timer_start (\<lambda>_. Inr ?t0) 1 idle_timer = ([], st1)" "tst_timer_stop (\<lambda>_. Inr ?t1) st1 = ([], st2)"
    "tst_timer_elapsed_ms abi64 st2 = Ok k" "\<bar>k * 1000000 - 1200600000\<bar> \<le> 500000"
    "tst_timer_expired_ms abi64 (\<lambda>_. Inr ?t1) 1200 st1 = Ok True"
    using timer_correct [of "\<lambda>_. Inr ?t0" 1 ?t0 "\<lambda>_. Inr ?t1" ?t1 abi64 64 64 1200600000 idle_timer 1200, OF refl refl abi_good(1) p e]
    by auto
  moreover from this have "k = 1201" by linarith
  ultimately show ?thesis by blast
qed

text \<open>C33: the difference of two normalised timevals of a 32- or 64-bit machine is normalised and exact
  whenever the seconds have room, and so is the number of microseconds made from it.\<close>

theorem timeval_diff_correct:
  assumes "0 \<le> tv_usec t1" "tv_usec t1 < 1000000" "0 \<le> tv_usec t2" "tv_usec t2 < 1000000"
    "\<bar>tv_sec t1 - tv_sec t2\<bar> + 1 < 2 ^ (time_bits m - 1)" "\<bar>tv_sec t1 - tv_sec t2\<bar> < 2 ^ 40" "32 \<le> nsec_bits m"
  shows "\<exists>t. tst_timeval_diff m t1 t2 = Ok t \<and> 0 \<le> tv_usec t \<and> tv_usec t < 1000000 \<and>
    tst_timeval_diff_us m t1 t2 =
      Ok ((tv_sec t1 * 1000000 + tv_usec t1) - (tv_sec t2 * 1000000 + tv_usec t2))"
proof -
  let ?s = "tv_sec t1 - tv_sec t2"
  have s: "fits_signed (time_bits m) ?s" "fits_signed (time_bits m) (?s - 1)"
    using assms(5) unfolding fits_signed_def by linarith+
  have u: "fits_signed (nsec_bits m) x" if "\<bar>x\<bar> < 2000000" for x using that assms(7) by (intro fits_32) linarith+
  have big: "fits_signed 64 (x * 1000000)" "fits_signed 64 (x * 1000000 + y)" if "\<bar>x\<bar> \<le> 2 ^ 40" "\<bar>y\<bar> < 1000000" for x y
    using that by (auto simp: fits_signed_def abs_le_iff abs_less_iff)
  show ?thesis
  proof (cases "tv_usec t1 < tv_usec t2")
    case True
    then have "tst_timeval_diff m t1 t2 = Ok \<lparr>tv_sec = ?s - 1, tv_usec = 1000000 - (tv_usec t2 - tv_usec t1)\<rparr>"
      using s u assms by (simp add: tst_timeval_diff_def)
    moreover have "tst_timeval_to_us \<lparr>tv_sec = ?s - 1, tv_usec = 1000000 - (tv_usec t2 - tv_usec t1)\<rparr> =
        Ok ((?s - 1) * 1000000 + (1000000 - (tv_usec t2 - tv_usec t1)))"
      using big [of "?s - 1" "1000000 - (tv_usec t2 - tv_usec t1)"] True assms by (simp add: tst_timeval_to_us_def)
    ultimately show ?thesis using True assms by (simp add: tst_timeval_diff_us_def algebra_simps)
  next
    case False
    then have "tst_timeval_diff m t1 t2 = Ok \<lparr>tv_sec = ?s, tv_usec = tv_usec t1 - tv_usec t2\<rparr>"
      using s u assms by (simp add: tst_timeval_diff_def)
    moreover have "tst_timeval_to_us \<lparr>tv_sec = ?s, tv_usec = tv_usec t1 - tv_usec t2\<rparr> =
        Ok (?s * 1000000 + (tv_usec t1 - tv_usec t2))"
      using big [of ?s "tv_usec t1 - tv_usec t2"] False assms by (simp add: tst_timeval_to_us_def)
    ultimately show ?thesis using False assms by (simp add: tst_timeval_diff_us_def algebra_simps)
  qed
qed

lemma timeval_diff_correct_witness:
  "tst_timeval_diff_us abi32 \<lparr>tv_sec = 9, tv_usec = 100\<rparr> \<lparr>tv_sec = 7, tv_usec = 900\<rparr> = Ok 1999200"
  using timeval_diff_correct [of "\<lparr>tv_sec = 9, tv_usec = 100\<rparr>" "\<lparr>tv_sec = 7, tv_usec = 900\<rparr>" abi32]
  by (auto simp: abi32_def)

end
