(* ===== verification/Random_Range.thy ===== *)
theory Random_Range
  imports Res_Flags "HOL-Library.Word"
begin

text \<open>
  Ranges and random numbers of \<^verbatim>\<open>lib/random_range.c\<close>: the parser of range lists, the three
  generators for \<^verbatim>\<open>int\<close>, \<^verbatim>\<open>long\<close> and \<^verbatim>\<open>long long\<close> on a machine with 64-bit \<^verbatim>\<open>long\<close>, the halving of large
  intervals, and the choice of a random bit. The value of \<^verbatim>\<open>lrand48\<close> is an argument; it is not
  negative and has 31 bits. Signed overflow, a shift out of range and an overrun of a message
  buffer are the outcome \<open>UB\<close>.
\<close>

section \<open>Scanning an integer\<close>

text \<open>\<^verbatim>\<open>sscanf(str, "%i%c", ip, &c)\<close>: white space, a sign, and the digits of the base the prefix
  selects; nothing may follow.\<close>

definition digit_val :: "char \<Rightarrow> nat" where
  "digit_val c =
     (if isdigit c then chr_code c - 48
      else if 97 \<le> chr_code c \<and> chr_code c \<le> 102 then chr_code c - 87
      else if 65 \<le> chr_code c \<and> chr_code c \<le> 70 then chr_code c - 55 else 99)"

fun scan_digits :: "nat \<Rightarrow> nat \<Rightarrow> string \<Rightarrow> nat \<times> string" where
  "scan_digits base acc [] = (acc, [])"
| "scan_digits base acc (c # s) =
     (if digit_val c < base then scan_digits base (acc * base + digit_val c) s else (acc, c # s))"

definition scan_num :: "nat \<Rightarrow> string \<Rightarrow> (nat \<times> string) option" where
  "scan_num base s = (if s = [] \<or> base \<le> digit_val (hd s) then None else Some (scan_digits base 0 s))"

definition scan_unsigned :: "string \<Rightarrow> (nat \<times> string) option" where
  "scan_unsigned s =
     (if 2 \<le> length s \<and> hd s = CHR ''0'' \<and> (s ! 1 = CHR ''x'' \<or> s ! 1 = CHR ''X'') then scan_num 16 (drop 2 s)
      else if s \<noteq> [] \<and> hd s = CHR ''0'' then scan_num 8 s
      else scan_num 10 s)"

definition scan_i :: "string \<Rightarrow> (int \<times> string) option" where
  "scan_i str =
     (let s = dropWhile isspace str
      in if s \<noteq> [] \<and> hd s = CHR ''-'' then map_option (\<lambda>(n, r). (- int n, r)) (scan_unsigned (tl s))
         else if s \<noteq> [] \<and> hd s = CHR ''+'' then map_option (\<lambda>(n, r). (int n, r)) (scan_unsigned (tl s))
         else map_option (\<lambda>(n, r). (int n, r)) (scan_unsigned s))"

text \<open>A number that does not fit in an \<^verbatim>\<open>int\<close> has no defined conversion.\<close>

definition str_to_int :: "string \<Rightarrow> int option outcome" where
  "str_to_int str =
     (case scan_i str of
        None \<Rightarrow> Ok None
      | Some (v, rest) \<Rightarrow> if fits_signed 32 v then Ok (if rest = [] then Some v else None) else UB)"

section \<open>Range lists\<close>

record range =
  rmin :: int
  rmax :: int
  rmult :: int

text \<open>One call of \<^verbatim>\<open>strtok\<close> on what is left of the string: the token and the rest.\<close>

definition strtok :: "char \<Rightarrow> string \<Rightarrow> (string \<times> string) option" where
  "strtok d s =
     (let t = dropWhile (\<lambda>c. c = d) s
      in if t = [] then None else Some (takeWhile (\<lambda>c. c \<noteq> d) t, drop 1 (dropWhile (\<lambda>c. c \<noteq> d) t)))"

lemma strtok_shorter: "strtok d s = Some (t, r) \<Longrightarrow> length r < length s"
proof -
  assume "strtok d s = Some (t, r)"
  then have "dropWhile (\<lambda>c. c = d) s \<noteq> []" "r = drop 1 (dropWhile (\<lambda>c. c \<noteq> d) (dropWhile (\<lambda>c. c = d) s))"
    by (auto simp: strtok_def Let_def split: if_splits)
  moreover have "length (dropWhile (\<lambda>c. c \<noteq> d) (dropWhile (\<lambda>c. c = d) s)) \<le> length s"
    using length_dropWhile_le order_trans by blast
  moreover have "0 < length s" using calculation(1) by (cases s) auto
  ultimately show ?thesis using diff_le_self [of _ 1] by (simp del: dropWhile_eq_Nil_conv, linarith)
qed

text \<open>\<^verbatim>\<open>cp = strchr(s, ':')\<close>, the cut at \<open>cp\<close> and the string behind it.\<close>

definition split_colon :: "string \<Rightarrow> string \<times> string option" where
  "split_colon s =
     (if CHR '':'' \<in> set s
      then (takeWhile (\<lambda>c. c \<noteq> CHR '':'') s, Some (drop 1 (dropWhile (\<lambda>c. c \<noteq> CHR '':'') s)))
      else (s, None))"

definition ERR_SIZE :: nat where "ERR_SIZE = 256"

definition parse_error :: "string \<Rightarrow> (string + 'a) outcome" where
  "parse_error s =
     (let msg = ''error parsing string '' @ s @ '' into an integer''
      in if length msg < ERR_SIZE then Ok (Inl msg) else UB)"

text \<open>The value of a field: the default if the field is empty.\<close>

definition parse_field ::
  "(string \<Rightarrow> int option outcome) \<Rightarrow> string \<Rightarrow> int \<Rightarrow> (string + int) outcome" where
  "parse_field parse_func s def =
     (if 0 < length s
      then obind (parse_func s) (\<lambda>p. case p of None \<Rightarrow> parse_error s | Some v \<Rightarrow> Ok (Inr v))
      else Ok (Inr def))"

definition parse_range ::
  "(string \<Rightarrow> int option outcome) \<Rightarrow> int \<Rightarrow> int \<Rightarrow> int \<Rightarrow> string \<Rightarrow> (string + range) outcome" where
  "parse_range parse_func defmin defmax defmult tok =
     (let (n1str, rest) = split_colon tok;
          (n2str, multstr) = (case rest of None \<Rightarrow> (None, None) | Some r \<Rightarrow> map_prod Some id (split_colon r))
      in obind (parse_field parse_func n1str defmin) (\<lambda>m1. case m1 of Inl e \<Rightarrow> Ok (Inl e) | Inr mn \<Rightarrow>
         obind (case n2str of None \<Rightarrow> Ok (Inr mn) | Some n2 \<Rightarrow> parse_field parse_func n2 defmax)
           (\<lambda>m2. case m2 of Inl e \<Rightarrow> Ok (Inl e) | Inr mx \<Rightarrow>
         obind (case multstr of None \<Rightarrow> Ok (Inr defmult) | Some ms \<Rightarrow> parse_field parse_func ms defmult)
           (\<lambda>m3. case m3 of Inl e \<Rightarrow> Ok (Inl e) | Inr mu \<Rightarrow> Ok (Inr \<lparr>rmin = mn, rmax = mx, rmult = mu\<rparr>)))))"

text \<open>The loop over the tokens with the ranges written so far and the number of cells left.\<close>

function parse_loop ::
  "(string \<Rightarrow> int option outcome) \<Rightarrow> int \<Rightarrow> int \<Rightarrow> int \<Rightarrow> string \<Rightarrow> nat \<Rightarrow> range list \<Rightarrow> (string + range list) outcome" where
  "parse_loop parse_func defmin defmax defmult s room rs =
     (case strtok (CHR '','') s of
        None \<Rightarrow> Ok (Inr rs)
      | Some (tok, rest) \<Rightarrow>
          if room = 0 then UB
          else obind (parse_range parse_func defmin defmax defmult tok) (\<lambda>r. case r of
              Inl e \<Rightarrow> Ok (Inl e)
            | Inr x \<Rightarrow> parse_loop parse_func defmin defmax defmult rest (room - 1) (rs @ [x])))"
  by pat_completeness auto
termination
  by (relation "measure (\<lambda>(f, a, b, c, s, n, rs). length s)") (auto dest: strtok_shorter)

declare parse_loop.simps [simp del]

definition parse_ranges ::
  "string \<Rightarrow> int \<Rightarrow> int \<Rightarrow> int \<Rightarrow> (string \<Rightarrow> int option outcome) option \<Rightarrow> (string + range list) outcome" where
  "parse_ranges str defmin defmax defmult parse_func =
     (let ncommas = length (filter (\<lambda>c. c = CHR '','') str);
          f = (case parse_func of None \<Rightarrow> str_to_int | Some g \<Rightarrow> g)
      in parse_loop f defmin defmax defmult str (ncommas + 1) [])"

definition range_min :: "range list \<Rightarrow> nat \<Rightarrow> int outcome" where
  "range_min rbuf r = (if r < length rbuf then Ok (rmin (rbuf ! r)) else UB)"

definition range_max :: "range list \<Rightarrow> nat \<Rightarrow> int outcome" where
  "range_max rbuf r = (if r < length rbuf then Ok (rmax (rbuf ! r)) else UB)"

definition range_mult :: "range list \<Rightarrow> nat \<Rightarrow> int outcome" where
  "range_mult rbuf r = (if r < length rbuf then Ok (rmult (rbuf ! r)) else UB)"

section \<open>Random numbers\<close>

text \<open>The part the three generators share, at \<open>n\<close> bits: the sanity check, the exchange of the ends,
  their adjustment to multiples, and the number of multiples. \<open>Inl\<close> is the text in the error buffer.\<close>

definition bump_min :: "nat \<Rightarrow> int \<Rightarrow> int \<Rightarrow> int outcome" where
  "bump_min n mn mult =
     (let r = mn smod mult in
      if r \<noteq> 0 then obind (arith n (mult - r)) (\<lambda>d. arith n (mn + d)) else Ok mn)"

definition reduce_max :: "nat \<Rightarrow> int \<Rightarrow> int \<Rightarrow> int outcome" where
  "reduce_max n mx mult = (let r = mx smod mult in if r \<noteq> 0 then arith n (mx - r) else Ok mx)"

definition range_setup :: "nat \<Rightarrow> int \<Rightarrow> int \<Rightarrow> int \<Rightarrow> (string + int \<times> int \<times> int) outcome" where
  "range_setup n mn0 mx0 mult =
     (if mult < 1 then Ok (Inl ''mult arg must be greater than 0'')
      else
        let (mn, mx) = (if mx0 < mn0 then (mx0, mn0) else (mn0, mx0))
        in obind (bump_min n mn mult) (\<lambda>mn'. obind (reduce_max n mx mult) (\<lambda>mx'.
             if mn' > mx' then
               Ok (Inl (''no numbers in the range '' @ show_int mn0 @ '':'' @ show_int mx0 @
                        '' that are a multiple of '' @ show_int mult))
             else obind (arith n (mx' - mn')) (\<lambda>d. obind (arith n (d sdiv mult + 1)) (\<lambda>nmults.
               Ok (Inr (mn', mx', nmults)))))))"

text \<open>The returned number and what \<^verbatim>\<open>*errp\<close> is set to.\<close>

type_synonym range_result = "(int \<times> string option) outcome"

definition pick :: "int \<Rightarrow> int \<Rightarrow> int \<Rightarrow> int \<Rightarrow> range_result" where
  "pick mn mult nmults rnd =
     obind (arith 64 ((rnd smod nmults) * mult)) (\<lambda>p. obind (arith 64 (mn + p)) (\<lambda>v. Ok (v, None)))"

definition random_range :: "int \<Rightarrow> int \<Rightarrow> int \<Rightarrow> int \<Rightarrow> range_result" where
  "random_range mn mx mult rnd =
     obind (range_setup 32 mn mx mult) (\<lambda>r. case r of
       Inl e \<Rightarrow> Ok (- 1, Some e) | Inr (mn', mx', nmults) \<Rightarrow> pick mn' mult nmults rnd)"

definition random_rangel :: "int \<Rightarrow> int \<Rightarrow> int \<Rightarrow> int \<Rightarrow> range_result" where
  "random_rangel mn mx mult rnd =
     obind (range_setup 64 mn mx mult) (\<lambda>r. case r of
       Inl e \<Rightarrow> Ok (- 1, Some e) | Inr (mn', mx', nmults) \<Rightarrow> pick mn' mult nmults rnd)"

text \<open>\<^verbatim>\<open>rand & (1 << cnt)\<close>: the shift of an \<^verbatim>\<open>int\<close> is defined up to bit 30.\<close>

definition test_bit :: "int \<Rightarrow> int \<Rightarrow> bool outcome" where
  "test_bit r cnt = (if 0 \<le> cnt \<and> cnt \<le> 30 then Ok (bit r (nat cnt)) else UB)"

function divider :: "int \<Rightarrow> int \<Rightarrow> int \<Rightarrow> int \<Rightarrow> int \<Rightarrow> int outcome" where
  "divider lrand48 mn mx cnt rand =
     (if cnt > 32 then Ok (- 1)
      else
        let rand' = (if cnt = 0 \<or> rand < - 1 then lrand48 else rand)
        in obind (arith 64 (mx - mn)) (\<lambda>diff.
             if diff \<le> 2147483647 then arith 64 (mn + rand')
             else
               let half = diff sdiv 2
               in obind (arith 64 (mn + half)) (\<lambda>med.
                    obind (test_bit rand' cnt) (\<lambda>b.
                      if half \<le> 2147483647 then
                        if b then arith 64 (med + rand') else arith 64 (mn + rand')
                      else if b then divider lrand48 med mx (cnt + 1) rand'
                      else divider lrand48 mn med (cnt + 1) rand'))))"
  by pat_completeness auto
termination
  by (relation "measure (\<lambda>(l, mn, mx, cnt, r). nat (33 - cnt))") auto

declare divider.simps [simp del]

definition random_rangell :: "int \<Rightarrow> int \<Rightarrow> int \<Rightarrow> int \<Rightarrow> range_result" where
  "random_rangell mn mx mult rnd =
     obind (range_setup 64 mn mx mult) (\<lambda>r. case r of
       Inl e \<Rightarrow> Ok (- 1, Some e)
     | Inr (mn', mx', nmults) \<Rightarrow>
         if mx' \<le> 2147483647 then pick mn' mult nmults rnd
         else obind (divider rnd mn' mx' 0 (- 1)) (pick mn' mult nmults))"

section \<open>Random bits\<close>

text \<open>The shift \<^verbatim>\<open>bit = bit << 1\<close> of a \<^verbatim>\<open>long\<close> reaches the sign bit and then drops it; it is modelled as the wrapping
  shift that the compilers in use implement.\<close>

fun count_bits :: "64 word \<Rightarrow> nat \<Rightarrow> 64 word \<Rightarrow> int \<Rightarrow> int" where
  "count_bits msk 0 b nbits = nbits"
| "count_bits msk (Suc k) b nbits =
     count_bits msk k (push_bit 1 b) (if msk AND b \<noteq> 0 then nbits + 1 else nbits)"

text \<open>\<^verbatim>\<open>while (bit) { if (mask & 1L) bit--; mask = mask >> 1; nshift++; }\<close>\<close>

partial_function (option) shift_loop :: "64 word \<Rightarrow> int \<Rightarrow> nat \<Rightarrow> nat option" where
  "shift_loop msk b nshift =
     (if b \<noteq> 0 then
        shift_loop (signed_drop_bit 1 msk) (if msk AND 1 \<noteq> 0 then b - 1 else b) (nshift + 1)
      else Some nshift)"

declare shift_loop.simps [code]

definition random_bit :: "64 word \<Rightarrow> int \<Rightarrow> 64 word outcome" where
  "random_bit msk rnd =
     (if msk = 0 then Ok 0
      else
        let nbits = count_bits msk 64 1 0
        in obind (random_range 1 nbits 1 rnd) (\<lambda>(b, _).
             case shift_loop msk b 0 of
               None \<Rightarrow> UB
             | Some nshift \<Rightarrow> if 1 \<le> nshift \<and> nshift \<le> 64 then Ok (push_bit (nshift - 1) 1) else UB))"

end
