(* ===== verification/Random_Range_Props.thy ===== *)
theory Random_Range_Props
  imports Random_Range
begin

text \<open>
  What the generators of \<^verbatim>\<open>lib/random_range.c\<close> promise. The contract of the generators is the locale
  \<open>range_generator\<close>: a generator reports what \<open>range_setup\<close> reports and otherwise picks a
  multiple with some number that is not negative. The three generators are its instances.
\<close>

section \<open>The ends of the range\<close>

lemma dvd_minus_smod: "(m :: int) dvd x - x smod m"
  by (metis dvd_triv_left add_diff_cancel_right' mult.commute sdiv_mult_smod_eq)

lemma bump_min_sound:
  assumes "bump_min n mn mult = Ok v" "1 \<le> mult"
  shows "mn \<le> v" "mult dvd v"
proof -
  have b: "mn smod mult < mult" using smod_bounds [of mult mn] assms(2) by simp
  have d: "mult dvd mn - mn smod mult" by (rule dvd_minus_smod)
  show "mn \<le> v" using assms b
    by (auto simp: bump_min_def Let_def obind_Ok_iff arith_Ok_iff split: if_splits)
  show "mult dvd v"
  proof (cases "mn smod mult = 0")
    case True then show ?thesis using assms d by (simp add: bump_min_def)
  next
    case False
    then have "v = mn + (mult - mn smod mult)"
      using assms by (auto simp: bump_min_def Let_def obind_Ok_iff arith_Ok_iff)
    then have "v = (mn - mn smod mult) + mult" by simp
    then show ?thesis using d by (metis dvd_add dvd_refl)
  qed
qed

lemma reduce_max_sound:
  assumes "reduce_max n mx mult = Ok v"
  shows "v = mx - mx smod mult" "mult dvd v"
proof -
  show v: "v = mx - mx smod mult" using assms
    by (auto simp: reduce_max_def Let_def arith_Ok_iff split: if_splits)
  show "mult dvd v" using dvd_minus_smod v by simp
qed

text \<open>Without negative ends, the ends become the least and the greatest multiple in the range.\<close>

definition least_mult :: "int \<Rightarrow> int \<Rightarrow> int" where
  "least_mult m x = (x + m - 1) div m * m"

definition greatest_mult :: "int \<Rightarrow> int \<Rightarrow> int" where
  "greatest_mult m x = x div m * m"

lemma le_div_int_iff: "0 < m \<Longrightarrow> k \<le> x div m \<longleftrightarrow> k * m \<le> (x :: int)"
proof
  assume m: "0 < m" and "k \<le> x div m"
  then have "k * m \<le> x div m * m" by simp
  then show "k * m \<le> x" using div_mult_mod_eq [of x m] pos_mod_sign [OF m, of x] by linarith
next
  assume m: "0 < m" and "k * m \<le> x"
  then have "k * m < (x div m + 1) * m"
    using div_mult_mod_eq [of x m] pos_mod_bound [OF m, of x]
    unfolding distrib_right mult_1_left by linarith
  then have "k < x div m + 1" using m by (simp only: mult_less_cancel_right_pos)
  then show "k \<le> x div m" by simp
qed

lemma least_mult_le_iff:
  assumes "0 < m" "m dvd v" shows "least_mult m x \<le> v \<longleftrightarrow> x \<le> v"
proof -
  obtain k where v: "v = k * m" using assms(2) by (auto simp: dvd_def mult.commute)
  have "least_mult m x \<le> v \<longleftrightarrow> (x + m - 1) div m < k + 1"
    using assms(1) by (simp add: least_mult_def v)
  also have "\<dots> \<longleftrightarrow> x + m - 1 < (k + 1) * m"
    using le_div_int_iff [OF assms(1), of "k + 1" "x + m - 1"] by (meson not_le)
  also have "\<dots> \<longleftrightarrow> x \<le> v" by (auto simp: v algebra_simps)
  finally show ?thesis .
qed

lemma greatest_mult_ge_iff:
  assumes "0 < m" "m dvd v" shows "v \<le> greatest_mult m x \<longleftrightarrow> v \<le> x"
proof -
  obtain k where v: "v = k * m" using assms(2) by (auto simp: dvd_def mult.commute)
  have "v \<le> greatest_mult m x \<longleftrightarrow> k \<le> x div m" using assms(1) by (simp add: greatest_mult_def v)
  also have "\<dots> \<longleftrightarrow> v \<le> x" unfolding v using assms(1)
    by (simp add: le_div_int_iff)
  finally show ?thesis .
qed

lemma mult_dvd_ends [simp]: "m dvd least_mult m x" "m dvd greatest_mult m x"
  by (simp_all add: least_mult_def greatest_mult_def)

lemma least_mult_bounds:
  assumes "0 < m" shows "x \<le> least_mult m x" "least_mult m x < x + m"
proof -
  show "x \<le> least_mult m x" using least_mult_le_iff [OF assms, of "least_mult m x" x] by simp
  have "(x + m - 1) div m * m \<le> x + m - 1"
    using pos_mod_sign [OF assms, of "x + m - 1"] div_mult_mod_eq [of "x + m - 1" m] by linarith
  then show "least_mult m x < x + m" by (simp add: least_mult_def)
qed

lemma greatest_mult_bounds:
  assumes "0 < m" shows "greatest_mult m x \<le> x" "0 \<le> x \<Longrightarrow> 0 \<le> greatest_mult m x"
  using greatest_mult_ge_iff [OF assms, of "greatest_mult m x" x] greatest_mult_ge_iff [OF assms, of 0 x]
  by simp_all

lemma bump_nonneg:
  assumes "0 < m" "0 \<le> x"
  shows "(if x mod m = 0 then x else x + (m - x mod m)) = least_mult m x"
proof -
  define q r where "q = x div m" and "r = x mod m"
  have x: "x = q * m + r" by (simp add: q_def r_def)
  have r: "0 \<le> r" "r < m" using assms by (simp_all add: r_def)
  have "least_mult m x = (if r = 0 then q * m else (q + 1) * m)"
  proof (cases "r = 0")
    case True
    have "(m - 1 + q * m) div m = q" using assms(1) by (simp)
    then show ?thesis using True by (simp add: least_mult_def x algebra_simps)
  next
    case False
    have "(r - 1 + (q + 1) * m) div m = q + 1" using assms(1) r False
      by (subst div_mult_self1) (simp_all)
    then show ?thesis using False by (simp add: least_mult_def x algebra_simps)
  qed
  moreover have "q * m = x - r" "(q + 1) * m = x + (m - r)" using x by (simp_all add: algebra_simps)
  ultimately show ?thesis by (simp add: r_def)
qed

lemma fits_signed_between: "fits_signed n b \<Longrightarrow> 0 \<le> x \<Longrightarrow> x \<le> b \<Longrightarrow> fits_signed n x"
  unfolding fits_signed_def by (smt (verit) zero_le_power)

lemma bump_min_nonneg:
  assumes "1 \<le> mult" "0 \<le> mn" "fits_signed n (mn + mult)"
  shows "bump_min n mn mult = Ok (least_mult mult mn)"
proof -
  have m: "0 < mult" using assms by simp
  have r: "0 \<le> mn mod mult" "mn mod mult < mult" using m by simp_all
  have "fits_signed n (mult - mn mod mult)" "fits_signed n (mn + (mult - mn mod mult))"
    using assms r by (auto intro: fits_signed_between [OF assms(3)])
  then show ?thesis using bump_nonneg [OF m assms(2)] m assms(2)
    by (auto simp: bump_min_def smod_nonneg Let_def)
qed

lemma reduce_max_nonneg:
  assumes "1 \<le> mult" "0 \<le> mx" "fits_signed n mx"
  shows "reduce_max n mx mult = Ok (greatest_mult mult mx)"
proof -
  have m: "0 < mult" using assms by simp
  have g: "mx - mx mod mult = greatest_mult mult mx" by (simp add: greatest_mult_def minus_mod_eq_div_mult)
  have "fits_signed n (greatest_mult mult mx)"
    by (rule fits_signed_between [OF assms(3)]) (use greatest_mult_bounds [OF m] assms in auto)
  moreover have "mx mod mult = 0 \<Longrightarrow> mx = greatest_mult mult mx" using g by simp
  ultimately show ?thesis using m assms(2) by (auto simp: reduce_max_def smod_nonneg Let_def g)
qed

definition no_mult_msg :: "int \<Rightarrow> int \<Rightarrow> int \<Rightarrow> string" where
  "no_mult_msg mn mx mult =
     ''no numbers in the range '' @ show_int mn @ '':'' @ show_int mx @ '' that are a multiple of '' @ show_int mult"

lemma range_setup_nonneg:
  assumes "1 \<le> mult" "0 \<le> mn" "0 \<le> mx" "fits_signed n (max mn mx + mult)"
  shows "range_setup n mn mx mult =
    (let lo = least_mult mult (min mn mx); hi = greatest_mult mult (max mn mx)
     in Ok (if lo > hi then Inl (no_mult_msg mn mx mult) else Inr (lo, hi, (hi - lo) div mult + 1)))"
proof -
  define a b where "a = min mn mx" and "b = max mn mx"
  have ab: "0 \<le> a" "a \<le> b" "(if mx < mn then (mx, mn) else (mn, mx)) = (a, b)"
    using assms by (auto simp: a_def b_def min_def max_def)
  have fb: "fits_signed n (b + mult)" using assms(4) by (simp add: b_def)
  have f: "fits_signed n (a + mult)" "fits_signed n b"
    using ab assms(1) by (auto intro: fits_signed_between [OF fb])
  note bm = bump_min_nonneg [OF assms(1) ab(1) f(1)]
  note rm = reduce_max_nonneg [OF assms(1) _ f(2)]
  define lo hi where "lo = least_mult mult a" and "hi = greatest_mult mult b"
  have lohi: "0 \<le> lo" "hi \<le> b"
    using least_mult_bounds [of mult a] greatest_mult_bounds [of mult b] ab assms(1)
    by (auto simp: lo_def hi_def)
  have "fits_signed n (hi - lo)" "fits_signed n ((hi - lo) div mult + 1)" if "lo \<le> hi"
  proof -
    show "fits_signed n (hi - lo)" using that lohi assms(1) by (intro fits_signed_between [OF fb]) auto
    have "(hi - lo) div mult \<le> hi - lo" using that assms(1) 
      by (metis div_by_1 zdiv_mono2 zero_less_one diff_ge_0_iff_ge)
    then show "fits_signed n ((hi - lo) div mult + 1)"
      using that lohi assms(1) by (intro fits_signed_between [OF fb]) (auto simp: pos_imp_zdiv_nonneg_iff)
  qed
  then show ?thesis using assms(1) ab bm rm
    by (simp add: range_setup_def no_mult_msg_def Let_def sdiv_nonneg
        lo_def [symmetric] hi_def [symmetric] a_def [symmetric] b_def [symmetric])
qed

section \<open>The generators\<close>

text \<open>The documented contract: a multiple of \<open>mult\<close> in the range, or a message and $-1$ if there is none.\<close>

definition mults :: "int \<Rightarrow> int \<Rightarrow> int \<Rightarrow> int set" where
  "mults mn mx mult = {v. min mn mx \<le> v \<and> v \<le> max mn mx \<and> mult dvd v}"

definition range_contract :: "int \<Rightarrow> int \<Rightarrow> int \<Rightarrow> range_result \<Rightarrow> bool" where
  "range_contract mn mx mult res =
     (case res of
        Ok (v, None) \<Rightarrow> v \<in> mults mn mx mult
      | Ok (v, Some e) \<Rightarrow> v = - 1 \<and> e = no_mult_msg mn mx mult \<and> mults mn mx mult = {}
      | _ \<Rightarrow> False)"

lemma mults_ends:
  assumes "1 \<le> mult"
  shows "mults mn mx mult =
    {v. least_mult mult (min mn mx) \<le> v \<and> v \<le> greatest_mult mult (max mn mx) \<and> mult dvd v}"
  using assms by (auto simp: mults_def least_mult_le_iff greatest_mult_ge_iff)

lemma mults_empty_iff:
  assumes "1 \<le> mult"
  shows "mults mn mx mult = {} \<longleftrightarrow> greatest_mult mult (max mn mx) < least_mult mult (min mn mx)"
proof -
  have "greatest_mult mult (max mn mx) \<in> mults mn mx mult"
    if "least_mult mult (min mn mx) \<le> greatest_mult mult (max mn mx)"
    using that by (simp add: mults_ends [OF assms])
  then show ?thesis using assms by (force simp: mults_ends not_less)
qed

text \<open>A pick is a multiple between the ends, and every multiple between them is a pick.\<close>

lemma pick_value:
  assumes ends: "lo \<le> hi" "mult dvd lo" "mult dvd hi" "1 \<le> mult"
    and fits: "fits_signed 64 lo" "fits_signed 64 hi" "0 \<le> hi" "hi - lo < 2 ^ 63" and r: "0 \<le> r"
  shows "pick lo mult ((hi - lo) div mult + 1) r = Ok (lo + r mod ((hi - lo) div mult + 1) * mult, None)"
    "lo \<le> lo + r mod ((hi - lo) div mult + 1) * mult" "lo + r mod ((hi - lo) div mult + 1) * mult \<le> hi"
proof -
  define k where "k = (hi - lo) div mult"
  have "mult dvd hi - lo" using ends by simp
  then have k: "k * mult = hi - lo" by (simp only: k_def dvd_div_mult_self)
  have k0: "0 \<le> k" using ends by (simp only: k_def pos_imp_zdiv_nonneg_iff)
  define j where "j = r mod (k + 1)"
  have j: "0 \<le> j" "j \<le> k" using k0 pos_mod_bound [of "k + 1" r] by (simp_all add: j_def)
  have p: "0 \<le> j * mult" "j * mult \<le> hi - lo"
    using j ends(4) k mult_right_mono [of j k mult] by simp_all
  show "lo \<le> lo + r mod ((hi - lo) div mult + 1) * mult" "lo + r mod ((hi - lo) div mult + 1) * mult \<le> hi"
    using p by (simp_all add: j_def k_def)
  have "fits_signed 64 (j * mult)" "fits_signed 64 (lo + j * mult)"
    using p fits by (auto simp: fits_signed_def)
  then show "pick lo mult ((hi - lo) div mult + 1) r = Ok (lo + r mod ((hi - lo) div mult + 1) * mult, None)"
    using r k0 by (simp add: pick_def smod_nonneg k_def [symmetric] j_def [symmetric])
qed

locale range_generator =
  fixes n :: nat
    and gen :: "int \<Rightarrow> int \<Rightarrow> int \<Rightarrow> int \<Rightarrow> range_result"
    and ends_ok :: "int \<Rightarrow> int \<Rightarrow> bool"
  assumes bits: "n \<le> 64"
    and gen_error: "range_setup n mn mx mult = Ok (Inl e) \<Longrightarrow> gen mn mx mult rnd = Ok (- 1, Some e)"
    and gen_pick: "range_setup n mn mx mult = Ok (Inr (lo, hi, k)) \<Longrightarrow> ends_ok lo hi \<Longrightarrow>
      0 \<le> rnd \<Longrightarrow> rnd < 2 ^ 31 \<Longrightarrow> \<exists>r\<ge>0. gen mn mx mult rnd = pick lo mult k r"
begin

lemma contract:
  assumes "1 \<le> mult" "0 \<le> mn" "0 \<le> mx" "fits_signed n (max mn mx + mult)" "0 \<le> rnd" "rnd < 2 ^ 31"
    and ok: "\<And>lo hi. 0 \<le> lo \<Longrightarrow> lo \<le> hi \<Longrightarrow> hi \<le> max mn mx \<Longrightarrow> ends_ok lo hi"
  shows "range_contract mn mx mult (gen mn mx mult rnd)"
proof -
  define lo hi where "lo = least_mult mult (min mn mx)" and "hi = greatest_mult mult (max mn mx)"
  note ends = range_setup_nonneg [OF assms(1-4), folded lo_def hi_def, unfolded Let_def]
  show ?thesis
  proof (cases "lo > hi")
    case True
    then show ?thesis using ends gen_error [of mn mx mult _ rnd] mults_empty_iff [OF assms(1), of mn mx]
      by (simp add: range_contract_def lo_def [symmetric] hi_def [symmetric])
  next
    case False
    have b: "0 \<le> lo" "hi \<le> max mn mx" "0 \<le> hi"
      using least_mult_bounds [of mult "min mn mx"] greatest_mult_bounds [of mult "max mn mx"] assms
      by (auto simp: lo_def hi_def)
    have f: "fits_signed 64 (max mn mx + mult)" using assms(4) bits by (rule fits_signed_mono)
    have f': "fits_signed 64 lo" "fits_signed 64 hi" "hi - lo < 2 ^ 63"
      using b False f assms(1) by (auto simp: fits_signed_def)
    obtain r where r: "0 \<le> r" "gen mn mx mult rnd = pick lo mult ((hi - lo) div mult + 1) r"
      using gen_pick [of mn mx mult lo hi] ends False ok [of lo hi] b assms(5,6) by auto
    have d: "mult dvd lo" "mult dvd hi" by (simp_all add: lo_def hi_def)
    from pick_value [OF _ d assms(1) f'(1,2) b(3) f'(3) r(1)] False
    show ?thesis using d by (simp add: r(2) range_contract_def mults_ends [OF assms(1)]
        lo_def [symmetric] hi_def [symmetric])
  qed
qed

end

text \<open>The halving stops before it runs out of random bits, and its result is not negative.\<close>

lemma divider_step:
  assumes "0 \<le> mn" "mn \<le> mx" "mx + 2 ^ 31 \<le> 2 ^ 63" "mx - mn \<le> 2 ^ (61 - k)" "k \<le> 30"
    and "rand' = (if k = 0 \<or> rand < - 1 then l else rand)" "0 \<le> rand'" "rand' < 2 ^ 31"
    and step: "\<And>a b. 0 \<le> a \<Longrightarrow> a \<le> b \<Longrightarrow> b \<le> mx \<Longrightarrow> b - a \<le> 2 ^ (60 - k) \<Longrightarrow> k < 30 \<Longrightarrow>
      \<exists>v\<ge>0. divider l a b (int k + 1) rand' = Ok v"
  shows "\<exists>v\<ge>0. divider l mn mx (int k) rand = Ok v"
proof -
  define diff where "diff = mx - mn"
  have d: "0 \<le> diff" "diff \<le> 2 ^ (61 - k)" using assms by (simp_all add: diff_def)
  have p: "(2::int) ^ (61 - k) = 2 * 2 ^ (60 - k)" using assms(5) by (simp add: Suc_diff_le flip: power_Suc)
  have p61: "(2::int) ^ (61 - k) \<le> 2 ^ 61" by (rule power_increasing) simp_all
  define half where "half = diff div 2"
  have h: "0 \<le> half" "half \<le> diff" "half \<le> 2 ^ (60 - k)" "diff - half \<le> 2 ^ (60 - k)"
    using d p by (simp_all add: half_def)
  have fits: "fits_signed 64 diff" "fits_signed 64 (mn + rand')" "fits_signed 64 (mn + half)"
    "fits_signed 64 (mn + half + rand')"
    using assms d h p61 by (simp_all add: fits_signed_def diff_def)
  have k30: "k < 30" if "\<not> half \<le> 2147483647"
  proof (rule ccontr)
    assume "\<not> k < 30"
    then have "k = 30" using assms(5) by simp
    then have "half \<le> 2 ^ 30" using h(3) by simp
    then show False using that by simp
  qed
  have lo: "\<exists>v\<ge>0. divider l mn (mn + half) (int k + 1) rand' = Ok v" if "\<not> half \<le> 2147483647"
    using k30 [OF that] h assms(1) by (intro step) (simp_all add: diff_def)
  have hi: "\<exists>v\<ge>0. divider l (mn + half) mx (int k + 1) rand' = Ok v" if "\<not> half \<le> 2147483647"
    using k30 [OF that] h assms(1) by (intro step) (simp_all add: diff_def)
  have r: "(if int k = 0 \<or> rand < - 1 then l else rand) = rand'" using assms(6) by simp
  have "divider l mn mx (int k) rand =
    (if diff \<le> 2147483647 then Ok (mn + rand')
     else if half \<le> 2147483647 then Ok (if bit rand' k then mn + half + rand' else mn + rand')
     else if bit rand' k then divider l (mn + half) mx (int k + 1) rand'
     else divider l mn (mn + half) (int k + 1) rand')"
    using assms(5) fits d
    unfolding divider.simps [of l mn mx "int k" rand] r diff_def [symmetric]
    by (simp add: sdiv_nonneg half_def [symmetric] test_bit_def)
  then show ?thesis using lo hi assms(1,7) h(1) by auto
qed

lemma divider_nonneg:
  assumes "0 \<le> mn" "mn \<le> mx" "mx + 2 ^ 31 \<le> 2 ^ 63" "mx - mn \<le> 2 ^ (61 - k)" "k \<le> 30"
    and "rand' = (if k = 0 \<or> rand < - 1 then l else rand)" "0 \<le> rand'" "rand' < 2 ^ 31"
  shows "\<exists>v\<ge>0. divider l mn mx (int k) rand = Ok v"
  using assms
proof (induction "30 - k" arbitrary: k mn mx rand rand')
  case 0
  then show ?case by (intro divider_step [of mn mx k rand' rand l]) simp_all
next
  case (Suc d)
  have IH: "\<exists>v\<ge>0. divider l a b (int (Suc k)) rand' = Ok v"
    if "0 \<le> a" "a \<le> b" "b \<le> mx" "b - a \<le> 2 ^ (60 - k)" "k < 30" for a b
    using that Suc.prems Suc.hyps(2) by (intro Suc.hyps(1) [of "Suc k" a b rand' rand']) simp_all
  show ?case using Suc.prems
    by (intro divider_step [of mn mx k rand' rand l]) (use IH in \<open>simp_all add: add.commute\<close>)
qed

interpretation rr: range_generator "32" random_range "\<lambda>lo hi. True"
  by unfold_locales (auto simp: random_range_def)

interpretation rrl: range_generator "64" random_rangel "\<lambda>lo hi. True"
  by unfold_locales (auto simp: random_rangel_def)

definition divisible :: "int \<Rightarrow> int \<Rightarrow> bool" where
  "divisible lo hi = (0 \<le> lo \<and> lo \<le> hi \<and> hi \<le> 2 ^ 61)"

interpretation rrll: range_generator "64" random_rangell divisible
proof
  fix mn mx mult lo hi k rnd :: int
  assume s: "range_setup 64 mn mx mult = Ok (Inr (lo, hi, k))" "divisible lo hi" "0 \<le> rnd" "rnd < 2 ^ 31"
  show "\<exists>r\<ge>0. random_rangell mn mx mult rnd = pick lo mult k r"
  proof (cases "hi \<le> 2147483647")
    case True then show ?thesis using s by (auto simp: random_rangell_def)
  next
    case False
    then obtain v where "0 \<le> v" "divider rnd lo hi 0 (- 1) = Ok v"
      using divider_nonneg [of lo hi 0 rnd "- 1" rnd] s by (auto simp: divisible_def)
    then show ?thesis using s(1) False by (auto simp: random_rangell_def)
  qed
qed (auto simp: random_rangell_def)

lemma range_set_eq:
  assumes "1 \<le> mult" "0 \<le> mn" "0 \<le> mx" "fits_signed 32 (max mn mx + mult)"
  shows "{v. \<exists>rnd. 0 \<le> rnd \<and> rnd < 2 ^ 31 \<and> random_range mn mx mult rnd = Ok (v, None)} = mults mn mx mult"
    (is "?L = ?R")
proof (intro equalityI subsetI)
  fix v assume "v \<in> ?L"
  then obtain rnd where "0 \<le> rnd" "rnd < 2 ^ 31" "random_range mn mx mult rnd = Ok (v, None)" by auto
  then show "v \<in> ?R" using rr.contract [OF assms, of rnd] by (simp add: range_contract_def)
next
  fix v assume v: "v \<in> ?R"
  define lo hi where "lo = least_mult mult (min mn mx)" and "hi = greatest_mult mult (max mn mx)"
  have b: "lo \<le> v" "v \<le> hi" "mult dvd v" using v by (simp_all add: mults_ends [OF assms(1)] lo_def hi_def)
  have b': "0 \<le> lo" "hi \<le> max mn mx"
    using least_mult_bounds [of mult "min mn mx"] greatest_mult_bounds [of mult "max mn mx"] assms
    by (auto simp: lo_def hi_def)
  define j where "j = (v - lo) div mult"
  have d: "mult dvd lo" "mult dvd hi" by (simp_all add: lo_def hi_def)
  then have "mult dvd v - lo" using b(3) by simp
  then have jm: "j * mult = v - lo" by (simp only: j_def dvd_div_mult_self)
  have j: "0 \<le> j" "j \<le> v - lo" using b assms(1)
    by (simp_all only: j_def pos_imp_zdiv_nonneg_iff) (use jm mult_left_mono [of 1 mult j] b in \<open>simp add: j_def pos_imp_zdiv_nonneg_iff\<close>)
  have jk: "j \<le> (hi - lo) div mult" using b(2) jm assms(1) by (simp add: le_div_int_iff)
  have f: "max mn mx + mult < 2 ^ 31" using assms(4) by (simp add: fits_signed_def)
  then have f': "fits_signed 64 lo" "fits_signed 64 hi" "0 \<le> hi" "hi - lo < 2 ^ 63"
    using b b' assms(1) by (auto simp: fits_signed_def)
  have "range_setup 32 mn mx mult = Ok (Inr (lo, hi, (hi - lo) div mult + 1))"
    using range_setup_nonneg [OF assms] b by (simp add: lo_def [symmetric] hi_def [symmetric] Let_def)
  then have "random_range mn mx mult j = pick lo mult ((hi - lo) div mult + 1) j"
    by (simp add: random_range_def)
  also have "\<dots> = Ok (v, None)"
    using pick_value(1) [OF _ d assms(1) f' j(1)] b jk j(1) jm by simp
  finally show "v \<in> ?L" using j b b' f assms(1) by (intro CollectI exI [of _ j]) auto
qed

section \<open>Random bits\<close>

definition set_bits :: "64 word \<Rightarrow> nat list" where
  "set_bits msk = filter (bit msk) [0..<64]"

lemma and_push_bit_iff: "i < 64 \<Longrightarrow> (msk :: 64 word) AND push_bit i 1 \<noteq> 0 \<longleftrightarrow> bit msk i"
  unfolding bit_eq_iff [of "msk AND push_bit i 1" 0] by (auto simp: bit_simps)

lemma count_bits_eq:
  "i + k = 64 \<Longrightarrow> count_bits msk k (push_bit i 1) c = c + int (length (filter (bit msk) [i..<64]))"
proof (induction k arbitrary: i c)
  case (Suc k)
  then have "[i..<64] = i # [Suc i..<64]" by (simp add: upt_conv_Cons)
  moreover have "push_bit 1 (push_bit i (1 :: 64 word)) = push_bit (Suc i) 1" by simp
  then have "count_bits msk (Suc k) (push_bit i 1) c =
      count_bits msk k (push_bit (Suc i) 1) (if bit msk i then c + 1 else c)"
    using Suc.prems by (simp only: count_bits.simps and_push_bit_iff)
  moreover have "\<dots> = (if bit msk i then c + 1 else c) + int (length (filter (bit msk) [Suc i..<64]))"
    by (rule Suc.IH) (use Suc.prems in simp)
  ultimately show ?case by (simp only: filter.simps) simp
qed simp

lemma shift_loop_eq:
  "i \<le> 64 \<Longrightarrow> 1 \<le> b \<Longrightarrow> b \<le> length (filter (bit msk) [i..<64]) \<Longrightarrow>
   shift_loop (signed_drop_bit i msk) (int b) i = Some (Suc (filter (bit msk) [i..<64] ! (b - 1)))"
proof (induction "64 - i" arbitrary: i b)
  case (Suc d)
  then have i: "i < 64" "[i..<64] = i # [Suc i..<64]" by (simp_all add: upt_conv_Cons)
  have a: "signed_drop_bit i msk AND 1 \<noteq> 0 \<longleftrightarrow> bit msk i"
    using i(1) and_push_bit_iff [of 0] by (simp add: bit_signed_drop_bit_iff)
  have s: "signed_drop_bit 1 (signed_drop_bit i msk) = signed_drop_bit (Suc i) msk"
    by simp
  have unf: "shift_loop (signed_drop_bit i msk) (int b) i =
      shift_loop (signed_drop_bit (Suc i) msk) (if bit msk i then int b - 1 else int b) (i + 1)"
    using Suc.prems(2) by (subst shift_loop.simps) (simp only: a s, simp)
  show ?case
  proof (cases "bit msk i \<and> b = 1")
    case True
    then show ?thesis using unf i by (simp add: shift_loop.simps [of _ 0])
  next
    case False
    then show ?thesis
      using unf i Suc.hyps(1) [of "Suc i" "if bit msk i then b - 1 else b"] Suc.hyps(2) Suc.prems
      by (cases "bit msk i") (auto simp: nth_Cons')
  qed
qed simp

lemma random_bit_value:
  assumes "msk \<noteq> 0" "0 \<le> rnd" "rnd < 2 ^ 31"
  shows "\<exists>b. 1 \<le> b \<and> b \<le> length (set_bits msk) \<and> random_range 1 (int (length (set_bits msk))) 1 rnd = Ok (int b, None)
    \<and> random_bit msk rnd = Ok (push_bit (set_bits msk ! (b - 1)) 1)"
proof -
  define n where "n = length (set_bits msk)"
  have "set_bits msk \<noteq> []"
    using assms(1) by (auto simp: set_bits_def filter_empty_conv bit_eq_iff [of msk 0] dest: bit_imp_le_length)
  then have n: "1 \<le> n" "n \<le> 64"
    using length_filter_le [of "bit msk" "[0..<64]"] by (auto simp: n_def set_bits_def Suc_le_eq)
  have f: "fits_signed 32 (max 1 (int n) + 1)" using n by (simp add: fits_signed_def)
  have "mults 1 (int n) 1 \<noteq> {}" using n by (auto simp: mults_def intro: exI [of _ 1])
  then obtain v where v: "random_range 1 (int n) 1 rnd = Ok (v, None)" "1 \<le> v" "v \<le> int n"
    using rr.contract [of 1 1 "int n" rnd] assms f n
    by (auto simp: range_contract_def mults_def split: outcome.splits option.splits)
  define b where "b = nat v"
  have b: "v = int b" "1 \<le> b" "b \<le> n" using v by (simp_all add: b_def)
  have p: "set_bits msk ! (b - 1) < 64"
    using b nth_mem [of "b - 1" "set_bits msk"] by (auto simp: n_def set_bits_def)
  have "count_bits msk 64 1 0 = int n" using count_bits_eq [of 0 64 msk 0] by (simp add: n_def set_bits_def)
  moreover have "shift_loop msk (int b) 0 = Some (Suc (set_bits msk ! (b - 1)))"
    using shift_loop_eq [of 0 b msk] b by (simp add: n_def set_bits_def)
  ultimately have "random_bit msk rnd = Ok (push_bit (set_bits msk ! (b - 1)) 1)"
    using assms(1) v(1) p by (simp add: random_bit_def b(1))
  then show ?thesis using v(1) b by (auto simp: n_def)
qed

section \<open>Ends of any sign\<close>

lemma range_setup_signed:
  assumes "1 \<le> mult" "mult < 2 ^ 29" "\<bar>mn\<bar> < 2 ^ 30" "\<bar>mx\<bar> < 2 ^ 30" "0 \<le> max mn mx"
  obtains e where "range_setup 32 mn mx mult = Ok (Inl e)"
  | lo hi where "range_setup 32 mn mx mult = Ok (Inr (lo, hi, (hi - lo) div mult + 1))"
      "min mn mx \<le> lo" "lo \<le> hi" "hi \<le> max mn mx" "0 \<le> hi" "mult dvd lo" "mult dvd hi"
proof -
  define a b where "a = min mn mx" and "b = max mn mx"
  have ab: "0 \<le> b" "(if mx < mn then (mx, mn) else (mn, mx)) = (a, b)"
    using assms by (auto simp: a_def b_def min_def max_def)
  have r: "- mult < a smod mult" "a smod mult < mult" "0 \<le> b smod mult" "b smod mult \<le> b"
    using smod_bounds [of mult a] ab assms(1) by (simp_all add: smod_nonneg zmod_le_nonneg_dividend)
  have bd: "- (2 ^ 30) < a" "a < 2 ^ 30" "b < 2 ^ 30" using assms by (auto simp: a_def b_def)
  have "fits_signed 32 (mult - a smod mult)" "fits_signed 32 (a + (mult - a smod mult))"
    using assms(2) r bd by (simp_all add: fits_signed_def)
  then have "\<exists>lo. bump_min 32 a mult = Ok lo" by (simp add: bump_min_def Let_def)
  then obtain lo where lo: "bump_min 32 a mult = Ok lo" by blast
  have "fits_signed 32 (b - b smod mult)" using r bd by (simp add: fits_signed_def)
  then have "\<exists>hi. reduce_max 32 b mult = Ok hi" by (simp add: reduce_max_def Let_def)
  then obtain hi where hi: "reduce_max 32 b mult = Ok hi" by blast
  have l: "a \<le> lo" "mult dvd lo" using bump_min_sound [OF lo assms(1)] by auto
  have h: "hi = b - b smod mult" "mult dvd hi" using reduce_max_sound [OF hi] by auto
  show ?thesis
  proof (cases "lo > hi")
    case True
    then have "\<exists>e. range_setup 32 mn mx mult = Ok (Inl e)"
      using ab assms(1) lo hi by (simp add: range_setup_def)
    then show ?thesis using that(1) by blast
  next
    case False
    have q: "0 \<le> (hi - lo) div mult" "(hi - lo) div mult \<le> hi - lo"
      using False assms(1) zdiv_mono2 [of "hi - lo" 1 mult] by (simp_all add: pos_imp_zdiv_nonneg_iff)
    have "fits_signed 32 (hi - lo)" "fits_signed 32 ((hi - lo) div mult + 1)"
      using False l h r bd q by (simp_all add: fits_signed_def)
    then have "range_setup 32 mn mx mult = Ok (Inr (lo, hi, (hi - lo) div mult + 1))"
      using ab assms(1) lo hi False by (simp add: range_setup_def sdiv_nonneg)
    then show ?thesis using that(2) l h r False by (simp add: a_def b_def)
  qed
qed

section \<open>Properties\<close>

text \<open>
  C34: for ends that are not negative, \<^verbatim>\<open>random_range()\<close> returns a multiple of \<^verbatim>\<open>mult\<close> within the range and
  clears \<^verbatim>\<open>*errp\<close>, or, exactly if the range has no multiple, returns $-1$ with the message that says so.
  The ends may be given in either order. The largest end plus \<^verbatim>\<open>mult\<close> must fit in an \<^verbatim>\<open>int\<close>. (The comment in the
  source allows negative ends too; there the contract fails, see \<open>random_range_negative_max\<close>.)
\<close>
theorem random_range_correct:
  assumes "1 \<le> mult" "0 \<le> mn" "0 \<le> mx" "fits_signed 32 (max mn mx + mult)" "0 \<le> rnd" "rnd < 2 ^ 31"
  shows "range_contract mn mx mult (random_range mn mx mult rnd)"
  using rr.contract [OF assms] by simp

theorem random_range_correct_witness: "range_contract 20 3 7 (random_range 20 3 7 99)"
  using random_range_correct [of 7 20 3 99] by (simp add: fits_signed_def)

text \<open>
  C35: for ends that are not negative and whose larger one plus \<^verbatim>\<open>mult\<close> fits in an \<^verbatim>\<open>int\<close>, the numbers that
  \<^verbatim>\<open>random_range()\<close> returns over all values of \<^verbatim>\<open>lrand48()\<close> are all the multiples of \<^verbatim>\<open>mult\<close> in the range and
  nothing else.
\<close>
theorem random_range_complete:
  assumes "1 \<le> mult" "0 \<le> mn" "0 \<le> mx" "fits_signed 32 (max mn mx + mult)"
  shows "{v. \<exists>rnd. 0 \<le> rnd \<and> rnd < 2 ^ 31 \<and> random_range mn mx mult rnd = Ok (v, None)} = mults mn mx mult"
  using range_set_eq [OF assms] .

theorem random_range_complete_witness:
  "{v. \<exists>rnd. 0 \<le> rnd \<and> rnd < 2 ^ 31 \<and> random_range 5 40 9 rnd = Ok (v, None)} = mults 5 40 9"
  using random_range_complete [of 9 5 40] by (simp add: fits_signed_def)

text \<open>
  C36: for ends that are not negative and at most $2^{61}$, with \<^verbatim>\<open>mult\<close> from 1 to $2^{61}$, the 64-bit generators
  \<^verbatim>\<open>random_rangel()\<close> and \<^verbatim>\<open>random_rangell()\<close> return a multiple of \<^verbatim>\<open>mult\<close> within the range, or $-1$ with the
  message exactly if there is none; for
  \<^verbatim>\<open>random_rangell()\<close> this covers the recursive halving of \<^verbatim>\<open>divider()\<close>, which ends before it would
  test a bit that \<^verbatim>\<open>1 << cnt\<close> cannot reach.
\<close>
theorem random_rangell_correct:
  assumes "1 \<le> mult" "mult \<le> 2 ^ 61" "0 \<le> mn" "0 \<le> mx" "max mn mx \<le> 2 ^ 61" "0 \<le> rnd" "rnd < 2 ^ 31"
  shows "range_contract mn mx mult (random_rangel mn mx mult rnd) \<and>
    range_contract mn mx mult (random_rangell mn mx mult rnd)"
proof -
  have f: "fits_signed 64 (max mn mx + mult)" using assms by (simp add: fits_signed_def max_def)
  have "divisible lo hi" if "0 \<le> lo" "lo \<le> hi" "hi \<le> max mn mx" for lo hi
    using that assms(5) by (auto simp: divisible_def)
  then show ?thesis using rrl.contract [OF assms(1,3,4) f assms(6,7)]
      rrll.contract [OF assms(1,3,4) f assms(6,7)] by blast
qed

theorem random_rangell_correct_witness:
  "range_contract 0 1000000000000000000 3 (random_rangel 0 1000000000000000000 3 1234567890) \<and>
   range_contract 0 1000000000000000000 3 (random_rangell 0 1000000000000000000 3 1234567890)"
  by (rule random_rangell_correct) simp_all

text \<open>
  C37: for a mask that is not zero, \<^verbatim>\<open>random_bit()\<close> returns, over all values of \<^verbatim>\<open>lrand48()\<close>, the single
  bits that are set in the mask, each of them and nothing else, the sign bit included. In particular the
  search for the chosen bit always ends.
\<close>
theorem random_bit_complete:
  assumes "msk \<noteq> 0"
  shows "random_bit msk ` {rnd. 0 \<le> rnd \<and> rnd < 2 ^ 31} = (\<lambda>i. Ok (push_bit i 1)) ` {i. bit msk i}"
    (is "?L = ?R")
proof (intro equalityI subsetI)
  fix r assume "r \<in> ?L"
  then obtain b where "1 \<le> b" "b \<le> length (set_bits msk)" "r = Ok (push_bit (set_bits msk ! (b - 1)) 1)"
    using random_bit_value [OF assms] by blast
  then show "r \<in> ?R" using nth_mem [of "b - 1" "set_bits msk"] by (auto simp: set_bits_def)
next
  fix r assume "r \<in> ?R"
  then obtain i where i: "bit msk i" "r = Ok (push_bit i 1)" by auto
  then have "i \<in> set (set_bits msk)" using bit_imp_le_length [of msk i] by (simp add: set_bits_def)
  then obtain k where k: "k < length (set_bits msk)" "set_bits msk ! k = i" by (auto simp: in_set_conv_nth)
  have "length (set_bits msk) \<le> 64" using length_filter_le [of "bit msk" "[0..<64]"] by (simp add: set_bits_def)
  then have "fits_signed 32 (max 1 (int (length (set_bits msk))) + 1)" by (simp add: fits_signed_def)
  then have "int (k + 1) \<in> {v. \<exists>rnd. 0 \<le> rnd \<and> rnd < 2 ^ 31 \<and>
      random_range 1 (int (length (set_bits msk))) 1 rnd = Ok (v, None)}"
    using k by (subst range_set_eq) (auto simp: mults_def)
  then obtain rnd where rnd: "0 \<le> rnd" "rnd < 2 ^ 31"
    "random_range 1 (int (length (set_bits msk))) 1 rnd = Ok (int (k + 1), None)" by auto
  obtain b where b: "random_range 1 (int (length (set_bits msk))) 1 rnd = Ok (int b, None)"
    "random_bit msk rnd = Ok (push_bit (set_bits msk ! (b - 1)) 1)"
    using random_bit_value [OF assms rnd(1,2)] by blast
  then have "b = k + 1" using rnd(3) by simp
  then have "random_bit msk rnd = r" using b(2) k i by simp
  then show "r \<in> ?L" using rnd by auto
qed

theorem random_bit_complete_witness:
  "random_bit 0x8000000000000105 ` {rnd. 0 \<le> rnd \<and> rnd < 2 ^ 31} =
     (\<lambda>i. Ok (push_bit i 1)) ` {i. bit (0x8000000000000105 :: 64 word) i}"
  by (rule random_bit_complete) simp

text \<open>
  With a negative end the numbers are still safe if the larger end is not negative: for ends below
  $2^{30}$ and \<^verbatim>\<open>mult\<close> below $2^{29}$ no operation overflows, and a number that is returned without an error
  is a multiple of \<^verbatim>\<open>mult\<close> in the range.
\<close>
theorem random_range_signed:
  assumes "1 \<le> mult" "mult < 2 ^ 29" "\<bar>mn\<bar> < 2 ^ 30" "\<bar>mx\<bar> < 2 ^ 30" "0 \<le> max mn mx" "0 \<le> rnd"
  shows "\<exists>v e. random_range mn mx mult rnd = Ok (v, e) \<and> (case e of None \<Rightarrow> v \<in> mults mn mx mult | Some _ \<Rightarrow> v = - 1)"
  using assms(1-5)
proof (cases rule: range_setup_signed)
  case (1 e)
  then show ?thesis by (simp add: random_range_def)
next
  case (2 lo hi)
  have "fits_signed 64 lo" "fits_signed 64 hi" "hi - lo < 2 ^ 63"
    using 2 assms(3,4) by (auto simp: fits_signed_def)
  from pick_value [OF 2(3,6,7) assms(1) this(1,2) 2(5) this(3) assms(6)]
  show ?thesis using 2 by (simp add: random_range_def mults_def)
qed

theorem random_range_signed_witness:
  "\<exists>v e. random_range (- 7) 12 3 5 = Ok (v, e) \<and> (case e of None \<Rightarrow> v \<in> mults (- 7) 12 3 | Some _ \<Rightarrow> v = - 1)"
  by (rule random_range_signed) simp_all

text \<open>Two inputs with negative ends on which the contract fails: the number exceeds the larger end, and
  the only multiple in the range is missed.\<close>

lemma random_range_negative_max: "random_range (- 5) (- 3) 2 0 = Ok (- 2, None) \<and> - 2 \<notin> mults (- 5) (- 3) 2"
  by (simp add: mults_def random_range_def range_setup_def bump_min_def reduce_max_def pick_def
      arith_def fits_signed_def signed_modulo_int_def signed_divide_int_def)

lemma random_range_negative_min:
  "random_range (- 3) 3 5 r = Ok (- 1, Some (no_mult_msg (- 3) 3 5)) \<and> 0 \<in> mults (- 3) 3 5"
  by (simp add: mults_def random_range_def range_setup_def bump_min_def reduce_max_def no_mult_msg_def
      arith_def fits_signed_def signed_modulo_int_def signed_divide_int_def)

end
