(* ===== verification/Range_Lists.thy ===== *)
theory Range_Lists
  imports Random_Range
begin

text \<open>
  What \<^verbatim>\<open>parse_ranges()\<close> promises: it parses the fields between the commas one after the other and
  never writes behind the array it allocates, and it reads back every list of ranges in the written
  form \<^verbatim>\<open>min:max:mult\<close>.
\<close>

section \<open>Fields between separators\<close>

fun split_on :: "char \<Rightarrow> string \<Rightarrow> string list" where
  "split_on d [] = [[]]"
| "split_on d (c # s) = (if c = d then [] # split_on d s else (c # hd (split_on d s)) # tl (split_on d s))"

definition tokens :: "char \<Rightarrow> string \<Rightarrow> string list" where
  "tokens d s = filter (\<lambda>t. t \<noteq> []) (split_on d s)"

lemma split_on_nonempty [simp]: "split_on d s \<noteq> []"
  by (cases s) auto

lemma split_on_no_sep: "d \<notin> set s \<Longrightarrow> split_on d s = [s]"
  by (induction s) auto

lemma split_on_sep: "d \<notin> set s \<Longrightarrow> split_on d (s @ d # t) = s # split_on d t"
  by (induction s) auto

lemma tokens_skip: "tokens d (dropWhile (\<lambda>c. c = d) s) = tokens d s"
  by (induction s) (auto simp: tokens_def)

lemma split_first:
  "split_on d s = takeWhile (\<lambda>c. c \<noteq> d) s #
    (if dropWhile (\<lambda>c. c \<noteq> d) s = [] then [] else split_on d (tl (dropWhile (\<lambda>c. c \<noteq> d) s)))"
  by (induction s) auto

text \<open>The tokens are the fields that are not empty; a token with something behind it uses up a comma.\<close>

definition commas :: "char \<Rightarrow> string \<Rightarrow> nat" where
  "commas d s = length (filter (\<lambda>c. c = d) s)"

lemma strtok_tokens:
  "strtok d s = (case tokens d s of [] \<Rightarrow> None | t # ts \<Rightarrow> Some (t, snd (the (strtok d s))))"
  "strtok d s = Some (t, r) \<Longrightarrow> tokens d s = t # tokens d r"
proof -
  let ?u = "dropWhile (\<lambda>c. c = d) s"
  have e: "tokens d s = []" if "?u = []" unfolding tokens_skip [of d s, symmetric] that by (simp add: tokens_def)
  have f: "tokens d s = takeWhile (\<lambda>c. c \<noteq> d) ?u # tokens d (drop 1 (dropWhile (\<lambda>c. c \<noteq> d) ?u))" if u: "?u \<noteq> []"
  proof -
    have "hd ?u \<noteq> d" using u hd_dropWhile [of "\<lambda>c. c = d" s] by blast
    then have "takeWhile (\<lambda>c. c \<noteq> d) ?u \<noteq> []" using u by (cases ?u) simp_all
    then have "tokens d ?u = takeWhile (\<lambda>c. c \<noteq> d) ?u # tokens d (drop 1 (dropWhile (\<lambda>c. c \<noteq> d) ?u))"
      using split_first [of d ?u] by (simp add: tokens_def drop_Suc del: dropWhile_eq_Nil_conv)
    then show ?thesis by (simp only: tokens_skip)
  qed
  show "strtok d s = (case tokens d s of [] \<Rightarrow> None | t # ts \<Rightarrow> Some (t, snd (the (strtok d s))))"
    using e f by (cases "?u = []") (simp_all add: strtok_def Let_def del: dropWhile_eq_Nil_conv)
  show "tokens d s = t # tokens d r" if "strtok d s = Some (t, r)"
    using that f by (auto simp: strtok_def Let_def simp del: dropWhile_eq_Nil_conv split: if_splits)
qed

lemma commas_dropWhile: "commas d (dropWhile P s) \<le> commas d s"
  by (induction s) (auto simp: commas_def)

lemma strtok_commas:
  assumes "strtok d s = Some (t, r)" shows "r = [] \<or> commas d r < commas d s"
proof -
  obtain v where v: "v = dropWhile (\<lambda>c. c \<noteq> d) (dropWhile (\<lambda>c. c = d) s)" and r: "r = drop 1 v"
    using assms by (auto simp: strtok_def Let_def split: if_splits)
  have le: "commas d v \<le> commas d s" unfolding v using commas_dropWhile order_trans by blast
  show ?thesis
  proof (cases v)
    case (Cons x w)
    then have "x = d" using hd_dropWhile [of "\<lambda>c. c \<noteq> d"] v by (metis list.distinct(1) list.sel(1))
    then show ?thesis using le r Cons by (simp add: commas_def)
  qed (simp add: r)
qed

section \<open>The parser\<close>

text \<open>One field after the other, up to the first error.\<close>

fun parse_all :: "('a \<Rightarrow> (string + 'b) outcome) \<Rightarrow> 'a list \<Rightarrow> (string + 'b list) outcome" where
  "parse_all f [] = Ok (Inr [])"
| "parse_all f (t # ts) = obind (f t) (\<lambda>r. case r of Inl e \<Rightarrow> Ok (Inl e) | Inr x \<Rightarrow>
     obind (parse_all f ts) (\<lambda>rs. case rs of Inl e \<Rightarrow> Ok (Inl e) | Inr xs \<Rightarrow> Ok (Inr (x # xs))))"

definition prepend :: "'b list \<Rightarrow> (string + 'b list) outcome \<Rightarrow> (string + 'b list) outcome" where
  "prepend xs m = obind m (\<lambda>rs. case rs of Inl e \<Rightarrow> Ok (Inl e) | Inr ys \<Rightarrow> Ok (Inr (xs @ ys)))"

lemma prepend_step:
  "prepend rs (obind m (\<lambda>q. case q of Inl e \<Rightarrow> Ok (Inl e) | Inr xs \<Rightarrow> Ok (Inr (x # xs)))) = prepend (rs @ [x]) m"
  by (cases m) (auto simp: prepend_def split: sum.splits)

lemma parse_loop_eq:
  assumes "s = [] \<or> commas (CHR '','') s < room"
  shows "parse_loop f a b c s room rs = prepend rs (parse_all (parse_range f a b c) (tokens (CHR '','') s))"
  using assms
proof (induction f a b c s room rs rule: parse_loop.induct)
  case (1 f a b c s room rs)
  show ?case
  proof (cases "strtok (CHR '','') s")
    case None
    then have "tokens (CHR '','') s = []" using strtok_tokens(1) [of "CHR '',''" s] by (auto split: list.splits)
    then show ?thesis using None by (simp add: parse_loop.simps [of f a b c s] prepend_def)
  next
    case (Some p)
    obtain t r where p: "p = (t, r)" by (cases p)
    have st: "strtok (CHR '','') s = Some (t, r)" using Some p by simp
    have "s \<noteq> []" using st by (auto simp: strtok_def)
    then have room: "commas (CHR '','') s < room" "room \<noteq> 0" using "1.prems" by auto
    have nxt: "r = [] \<or> commas (CHR '','') r < room - 1" using strtok_commas [OF st] room by auto
    have IH: "parse_loop f a b c r (room - 1) (rs @ [x]) =
        prepend (rs @ [x]) (parse_all (parse_range f a b c) (tokens (CHR '','') r))" for x
      using "1.IH" [OF st refl room(2) nxt] .
    have "parse_loop f a b c s room rs = obind (parse_range f a b c t) (\<lambda>q. case q of
        Inl e \<Rightarrow> Ok (Inl e) | Inr x \<Rightarrow> parse_loop f a b c r (room - 1) (rs @ [x]))"
      using st room by (simp add: parse_loop.simps [of f a b c s])
    then show ?thesis unfolding strtok_tokens(2) [OF st] parse_all.simps IH prepend_step [symmetric]
      by (cases "parse_range f a b c t") (auto simp: prepend_def split: sum.split)
  qed
qed

section \<open>Printed numbers\<close>

lemma digit_char:
  assumes "d < 10"
  shows "isdigit (char_of (48 + d))" "digit_val (char_of (48 + d)) = d"
  using assms by (simp_all add: isdigit_def digit_val_def)

lemma isdigit_not_special:
  "isdigit c \<Longrightarrow> c \<noteq> CHR ''-'' \<and> c \<noteq> CHR ''+'' \<and> c \<noteq> CHR '','' \<and> c \<noteq> CHR '':'' \<and> c \<noteq> CHR ''x'' \<and> c \<noteq> CHR ''X'' \<and> \<not> isspace c"
  by (auto simp: isdigit_def isspace_def)

lemma scan_digits_append:
  "scan_digits b acc s = (v, []) \<Longrightarrow> scan_digits b acc (s @ t) = scan_digits b v t"
  by (induction b acc s rule: scan_digits.induct) (auto split: if_splits)

lemma scan_show_nat: "scan_digits 10 0 (show_nat n) = (n, [])"
proof (induction n rule: show_nat.induct)
  case (1 n)
  show ?case
  proof (cases "n < 10")
    case True
    then show ?thesis by (subst show_nat.simps) (simp add: digit_char)
  next
    case False
    then have "scan_digits 10 0 (show_nat n) = scan_digits 10 (n div 10) [char_of (48 + n mod 10)]"
      using scan_digits_append [OF "1.IH"] by (subst show_nat.simps) simp
    then show ?thesis by (simp add: digit_char)
  qed
qed

lemma scan_unsigned_show: "scan_unsigned (show_nat n) = Some (n, [])"
proof -
  have d: "isdigit (hd (show_nat n))" using show_nat_digits hd_in_set show_nat_nonempty by blast
  have v: "digit_val (hd (show_nat n)) < 10" using d by (auto simp: digit_val_def isdigit_def)
  have z: "show_nat 0 = ''0''" by (subst show_nat.simps) (simp add: char_of_zero)
  show ?thesis
  proof (cases "n = 0")
    case True
    then show ?thesis by (simp add: z scan_unsigned_def scan_num_def digit_val_def isdigit_def)
  next
    case False
    then show ?thesis using show_nat_hd [of n] v scan_show_nat [of n]
      by (simp add: scan_unsigned_def scan_num_def)
  qed
qed

lemma str_to_int_show:
  assumes "fits_signed 32 i" shows "str_to_int (show_int i) = Ok (Some i)"
proof -
  have d: "isdigit (hd (show_nat n))" for n using show_nat_digits hd_in_set show_nat_nonempty by blast
  have w: "dropWhile isspace (show_nat n) = show_nat n" for n
    using isdigit_not_special [OF d [of n]] by (cases "show_nat n") auto
  have "scan_i (show_int i) = Some (i, [])"
    using w isdigit_not_special [OF d]
    by (auto simp: scan_i_def show_int_def scan_unsigned_show isspace_def Let_def)
  then show ?thesis using assms by (simp add: str_to_int_def)
qed

section \<open>Printed ranges\<close>

definition print_range :: "range \<Rightarrow> string" where
  "print_range r = show_int (rmin r) @ '':'' @ show_int (rmax r) @ '':'' @ show_int (rmult r)"

fun print_ranges :: "range list \<Rightarrow> string" where
  "print_ranges [] = []"
| "print_ranges [r] = print_range r"
| "print_ranges (r # rs) = print_range r @ '','' @ print_ranges rs"

lemma show_int_chars: "c \<in> set (show_int i) \<Longrightarrow> c \<noteq> CHR '':'' \<and> c \<noteq> CHR '',''"
  using isdigit_not_special [OF show_nat_digits] by (auto simp: show_int_def split: if_splits)

lemma show_int_nonempty [simp]: "show_int i \<noteq> []"
  by (simp add: show_int_def)

lemma split_colon_sep: "CHR '':'' \<notin> set s \<Longrightarrow> split_colon (s @ CHR '':'' # t) = (s, Some t)"
proof -
  assume "CHR '':'' \<notin> set s"
  then have "takeWhile (\<lambda>c. c \<noteq> CHR '':'') (s @ CHR '':'' # t) = s \<and>
      dropWhile (\<lambda>c. c \<noteq> CHR '':'') (s @ CHR '':'' # t) = CHR '':'' # t" by (induction s) auto
  then show ?thesis by (simp add: split_colon_def)
qed

lemma parse_field_show: "fits_signed 32 i \<Longrightarrow> parse_field str_to_int (show_int i) d = Ok (Inr i)"
  by (simp add: parse_field_def str_to_int_show)

definition range_fits :: "range \<Rightarrow> bool" where
  "range_fits r = (fits_signed 32 (rmin r) \<and> fits_signed 32 (rmax r) \<and> fits_signed 32 (rmult r))"

lemma parse_print_range:
  assumes "range_fits r"
  shows "parse_range str_to_int a b c (print_range r) = Ok (Inr r)"
proof -
  have n: "CHR '':'' \<notin> set (show_int i)" for i using show_int_chars by blast
  have "split_colon (show_int i) = (show_int i, None)" for i using n by (simp add: split_colon_def)
  then show ?thesis using assms
    by (simp add: parse_range_def print_range_def split_colon_sep [OF n] parse_field_show range_fits_def)
qed

lemma print_range_token: "CHR '','' \<notin> set (print_range r)" "print_range r \<noteq> []"
  using show_int_chars by (auto simp: print_range_def)

lemma tokens_print: "tokens (CHR '','') (print_ranges rs) = map print_range rs"
  by (induction rs rule: print_ranges.induct)
    (simp_all add: tokens_def split_on_no_sep split_on_sep print_range_token)

lemma parse_all_map: "(\<And>x. x \<in> set xs \<Longrightarrow> f (g x) = Ok (Inr x)) \<Longrightarrow> parse_all f (map g xs) = Ok (Inr xs)"
  by (induction xs) auto

lemma parse_ranges_tokens:
  "parse_ranges str a b c pf =
    parse_all (parse_range (case pf of None \<Rightarrow> str_to_int | Some f \<Rightarrow> f) a b c) (tokens (CHR '','') str)"
proof -
  have "prepend [] m = m" for m :: "(string + range list) outcome"
    by (cases m) (auto simp: prepend_def split: sum.splits)
  then show ?thesis by (simp add: parse_ranges_def Let_def parse_loop_eq commas_def)
qed

section \<open>Errors\<close>

lemma tokens_length: "t \<in> set (tokens d s) \<Longrightarrow> length t \<le> length s"
proof -
  have "t \<in> set (split_on d s) \<Longrightarrow> length t \<le> length s"
  proof (induction s arbitrary: t)
    case (Cons c s)
    have "hd (split_on d s) \<in> set (split_on d s)" "set (tl (split_on d s)) \<subseteq> set (split_on d s)"
      by (simp_all add: list.set_sel(2) subsetI)
    then show ?case using Cons by (fastforce split: if_splits)
  qed simp
  then show "t \<in> set (tokens d s) \<Longrightarrow> length t \<le> length s" by (simp add: tokens_def)
qed

definition parse_msg :: "string \<Rightarrow> string" where
  "parse_msg s = ''error parsing string '' @ s @ '' into an integer''"

text \<open>The numbers of a range: its text up to the first colon, up to the second colon, and what is left.\<close>

definition range_fields :: "string \<Rightarrow> string list" where
  "range_fields t =
     (case split_on (CHR '':'') t of
        a # b # c # cs \<Rightarrow> [a, b, foldl (\<lambda>u v. u @ '':'' @ v) c cs]
      | fs \<Rightarrow> fs)"

text \<open>The range they describe, with the defaults for what is missing.\<close>

definition field_val :: "(string \<Rightarrow> int option) \<Rightarrow> int \<Rightarrow> string \<Rightarrow> int" where
  "field_val p def s = (if s = [] then def else the (p s))"

definition range_of :: "(string \<Rightarrow> int option) \<Rightarrow> int \<Rightarrow> int \<Rightarrow> int \<Rightarrow> string list \<Rightarrow> range" where
  "range_of p defmin defmax defmult fs =
     \<lparr>rmin = field_val p defmin (hd fs),
      rmax = (if length fs = 1 then field_val p defmin (hd fs) else field_val p defmax (fs ! 1)),
      rmult = (if length fs < 3 then defmult else field_val p defmult (fs ! 2))\<rparr>"

definition first_refused :: "(string \<Rightarrow> int option) \<Rightarrow> string list \<Rightarrow> string option" where
  "first_refused p fs = find (\<lambda>s. s \<noteq> [] \<and> p s = None) fs"

lemma find_append: "find P (xs @ ys) = (case find P xs of None \<Rightarrow> find P ys | Some x \<Rightarrow> Some x)"
  by (induction xs) auto

lemma join_split: "foldl (\<lambda>u v. u @ [d] @ v) (hd (split_on d s)) (tl (split_on d s)) = s"
proof (induction s)
  case (Cons c s)
  have pre: "foldl (\<lambda>u v. u @ [d] @ v) (a @ x) vs = a @ foldl (\<lambda>u v. u @ [d] @ v) x vs" for a x vs
    by (induction vs arbitrary: x) auto
  have "split_on d s = hd (split_on d s) # tl (split_on d s)" by simp
  then show ?case
    using Cons pre [of "[c]" "hd (split_on d s)"] pre [of "[d]" "hd (split_on d s)"]
    by (cases "split_on d s") auto
qed simp

lemma split_on_colon:
  "split_on (CHR '':'') t = fst (split_colon t) #
    (case snd (split_colon t) of None \<Rightarrow> [] | Some r \<Rightarrow> split_on (CHR '':'') r)"
proof (cases "CHR '':'' \<in> set t")
  case True
  then have ne: "dropWhile (\<lambda>c. c \<noteq> CHR '':'') t \<noteq> []" by auto
  show ?thesis
    unfolding split_first [of "CHR '':''" t] if_not_P [OF ne] using True by (simp add: split_colon_def drop_Suc)
qed (simp add: split_colon_def split_on_no_sep)

lemma range_fields_colon:
  "range_fields t =
    (case split_colon t of
       (a, None) \<Rightarrow> [a]
     | (a, Some r) \<Rightarrow> (case split_colon r of (b, None) \<Rightarrow> [a, b] | (b, Some c) \<Rightarrow> [a, b, c]))"
proof -
  obtain a m where t: "split_colon t = (a, m)" by (cases "split_colon t")
  show ?thesis
  proof (cases m)
    case None
    then show ?thesis using split_on_colon [of t] t by (simp add: range_fields_def)
  next
    case (Some r)
    obtain b n where r: "split_colon r = (b, n)" by (cases "split_colon r")
    have f: "split_on (CHR '':'') t = a # b # (case n of None \<Rightarrow> [] | Some c \<Rightarrow> split_on (CHR '':'') c)"
      using split_on_colon [of t] split_on_colon [of r] t r Some by simp
    have "foldl (\<lambda>u v. u @ '':'' @ v) c' cs = c" if "split_on (CHR '':'') c = c' # cs" for c' cs c
      using join_split [of "CHR '':''" c] that by simp
    then show ?thesis using f t r Some
      by (auto simp: range_fields_def split: option.splits list.splits)
  qed
qed

lemma split_colon_length:
  "length (fst (split_colon s)) \<le> length s"
  "snd (split_colon s) = Some r \<Longrightarrow> length r \<le> length s"
  using length_takeWhile_le [of "\<lambda>c. c \<noteq> CHR '':''" s] length_dropWhile_le [of "\<lambda>c. c \<noteq> CHR '':''" s]
  by (auto simp: split_colon_def split: if_splits)

lemma parse_field_spec:
  "length s < 219 \<Longrightarrow> parse_field (\<lambda>s. Ok (p s)) s d =
    Ok (if s \<noteq> [] \<and> p s = None then Inl (parse_msg s) else Inr (field_val p d s))"
  by (auto simp: parse_field_def parse_error_def parse_msg_def field_val_def ERR_SIZE_def Let_def split: option.splits)

text \<open>The outcome for the fields \<open>fs\<close>: the message for the first one that is refused, or a value.\<close>

definition outcome_of :: "(string \<Rightarrow> int option) \<Rightarrow> string list \<Rightarrow> 'a \<Rightarrow> string + 'a" where
  "outcome_of p fs x = (case first_refused p fs of Some s \<Rightarrow> Inl (parse_msg s) | None \<Rightarrow> Inr x)"

lemma parse_range_spec:
  assumes "length t < 219"
  shows "parse_range (\<lambda>s. Ok (p s)) a b c t = Ok (outcome_of p (range_fields t) (range_of p a b c (range_fields t)))"
proof -
  obtain n1 rest where s1: "split_colon t = (n1, rest)" by (cases "split_colon t")
  have l1: "length n1 < 219" "\<And>r. rest = Some r \<Longrightarrow> length r < 219"
    using split_colon_length [of t] s1 assms by fastforce+
  show ?thesis
  proof (cases rest)
    case None
    then show ?thesis using l1
      by (simp add: parse_range_def s1 range_fields_colon parse_field_spec outcome_of_def first_refused_def range_of_def)
  next
    case (Some r)
    obtain n2 ms where s2: "split_colon r = (n2, ms)" by (cases "split_colon r")
    have l2: "length n2 < 219" "\<And>m. ms = Some m \<Longrightarrow> length m < 219"
      using split_colon_length [of r] s2 l1(2) [OF Some] by fastforce+
    show ?thesis using Some l1(1) l2
      by (cases ms) (auto simp: parse_range_def s1 s2 range_fields_colon parse_field_spec outcome_of_def first_refused_def range_of_def)
  qed
qed

lemma parse_all_spec:
  assumes "\<And>t. t \<in> set ts \<Longrightarrow> g t = Ok (outcome_of p (h t) (x t))"
  shows "parse_all g ts = Ok (outcome_of p (concat (map h ts)) (map x ts))"
  using assms
  by (induction ts) (auto simp: outcome_of_def first_refused_def find_append split: option.splits)

section \<open>Properties\<close>

text \<open>
  C38: \<^verbatim>\<open>parse_ranges()\<close> parses the fields between commas that are not empty, one after the other up to the
  first error, with the parse function it is given or \<^verbatim>\<open>str_to_int()\<close>. The array of \<^verbatim>\<open>ncommas + 1\<close> ranges is never
  overrun: the model has the outcome \<open>UB\<close> for a write behind it, and the right side does not count cells.
\<close>
theorem parse_ranges_correct:
  "parse_ranges str defmin defmax defmult parse_func =
    parse_all (parse_range (case parse_func of None \<Rightarrow> str_to_int | Some f \<Rightarrow> f) defmin defmax defmult)
      (tokens (CHR '','') str)"
  by (rule parse_ranges_tokens)

text \<open>
  C39: \<^verbatim>\<open>parse_ranges()\<close> with the default parse function reads back every list of ranges of \<^verbatim>\<open>int\<close> values that is
  written as \<^verbatim>\<open>min:max:mult\<close> fields with commas between them.
\<close>
theorem parse_ranges_roundtrip:
  assumes "list_all range_fits rs"
  shows "parse_ranges (print_ranges rs) defmin defmax defmult None = Ok (Inr rs)"
  using assms by (simp add: parse_ranges_tokens tokens_print parse_all_map parse_print_range list_all_iff)

theorem parse_ranges_roundtrip_witness:
  "parse_ranges (print_ranges [\<lparr>rmin = - 5, rmax = 70, rmult = 3\<rparr>, \<lparr>rmin = 0, rmax = 9, rmult = 1\<rparr>]) 1 2 3 None =
    Ok (Inr [\<lparr>rmin = - 5, rmax = 70, rmult = 3\<rparr>, \<lparr>rmin = 0, rmax = 9, rmult = 1\<rparr>])"
  by (rule parse_ranges_roundtrip) (simp add: range_fits_def fits_signed_def)

text \<open>
  C40: for a string of fewer than 219 characters and a parse function \<open>p\<close> that gives a number or refuses,
  \<^verbatim>\<open>parse_ranges()\<close> returns without overrunning its message buffer. If a number of the ranges is refused,
  the result is the message that names the first such number in the order of the string; otherwise it is the
  list of the ranges in that order, each with the numbers its fields give and the defaults for empty or missing ones
  (a range of a single number has that number as both ends).
\<close>
theorem parse_ranges_errors:
  assumes "length str < 219"
  shows "parse_ranges str defmin defmax defmult (Some (\<lambda>s. Ok (p s))) =
    (let rs = map range_fields (tokens (CHR '','') str)
     in case first_refused p (concat rs) of
          Some s \<Rightarrow> Ok (Inl (''error parsing string '' @ s @ '' into an integer''))
        | None \<Rightarrow> Ok (Inr (map (range_of p defmin defmax defmult) rs)))"
proof -
  have "parse_range (\<lambda>s. Ok (p s)) defmin defmax defmult t =
      Ok (outcome_of p (range_fields t) (range_of p defmin defmax defmult (range_fields t)))"
    if "t \<in> set (tokens (CHR '','') str)" for t
    using tokens_length [OF that] assms by (intro parse_range_spec) simp
  then have "parse_all (parse_range (\<lambda>s. Ok (p s)) defmin defmax defmult) (tokens (CHR '','') str) =
      Ok (outcome_of p (concat (map range_fields (tokens (CHR '','') str)))
        (map (\<lambda>t. range_of p defmin defmax defmult (range_fields t)) (tokens (CHR '','') str)))"
    by (rule parse_all_spec)
  then show ?thesis unfolding parse_ranges_tokens option.case
    by (auto simp: outcome_of_def parse_msg_def Let_def comp_def split: option.splits)
qed

theorem parse_ranges_errors_witness:
  "parse_ranges ''1:x,4'' 0 9 1 (Some (\<lambda>s. Ok (if s = ''x'' then None else Some 7))) =
    Ok (Inl (''error parsing string x into an integer'')) \<and>
   parse_ranges '',5:,6'' 0 9 1 (Some (\<lambda>s. Ok (if s = ''x'' then None else Some 7))) =
    Ok (Inr [\<lparr>rmin = 7, rmax = 9, rmult = 1\<rparr>, \<lparr>rmin = 7, rmax = 7, rmult = 1\<rparr>])"
proof -
  let ?p = "\<lambda>s. if s = ''x'' then None else Some (7 :: int)"
  have "map range_fields (tokens (CHR '','') ''1:x,4'') = [[''1'', ''x''], [''4'']]"
    "map range_fields (tokens (CHR '','') '',5:,6'') = [[''5'', []], [''6'']]" by code_simp+
  then show ?thesis
    using parse_ranges_errors [of "''1:x,4''" 0 9 1 ?p] parse_ranges_errors [of "'',5:,6''" 0 9 1 ?p]
    by (simp add: first_refused_def range_of_def field_val_def)
qed

end
