(* ===== verification/Data_Storage.thy ===== *)
theory Data_Storage
  imports Res_Flags
begin

text \<open>
  The trees of \<^verbatim>\<open>metadata/data_storage.h\<close>: strings, numbers, arrays and hashes with room for
  \<^verbatim>\<open>MAX_ELEMS\<close> elements, their operations and their output as text and as JSON. Every node has one owner,
  so a tree is a value and an operation that updates a node in place returns the new node beside the
  return code of the code. Allocation always succeeds.
\<close>

section \<open>Nodes\<close>

datatype data_type = DATA_ARRAY | DATA_HASH | DATA_STRING | DATA_INT

text \<open>The cells in use; the number of cells is \<^verbatim>\<open>MAX_ELEMS\<close> for every node the code creates.\<close>

datatype data_node =
    Node_String string
  | Node_Int int
  | Node_Hash "(string \<times> data_node) list"
  | Node_Array "data_node list"

fun node_type :: "data_node \<Rightarrow> data_type" where
  "node_type (Node_String s) = DATA_STRING"
| "node_type (Node_Int i) = DATA_INT"
| "node_type (Node_Hash es) = DATA_HASH"
| "node_type (Node_Array ns) = DATA_ARRAY"

fun data_type_name :: "data_type \<Rightarrow> string" where
  "data_type_name DATA_ARRAY = ''array''"
| "data_type_name DATA_HASH = ''hash''"
| "data_type_name DATA_STRING = ''string''"
| "data_type_name DATA_INT = ''int''"

definition MAX_ELEMS :: nat where "MAX_ELEMS = 100"

definition data_node_string :: "string \<Rightarrow> data_node" where
  "data_node_string string = Node_String string"

definition data_node_int :: "int \<Rightarrow> data_node" where
  "data_node_int i = Node_Int i"

definition data_node_hash :: data_node where
  "data_node_hash = Node_Hash []"

definition data_node_array :: data_node where
  "data_node_array = Node_Array []"

section \<open>Operations\<close>

fun data_node_hash_add :: "data_node \<Rightarrow> string \<Rightarrow> data_node \<Rightarrow> int \<times> data_node" where
  "data_node_hash_add (Node_Hash elems) ident payload =
     (if length elems = MAX_ELEMS then (1, Node_Hash elems) else (0, Node_Hash (elems @ [(ident, payload)])))"
| "data_node_hash_add self ident payload = (1, self)"

text \<open>The loop that looks for a key: its index, or the number of elements.\<close>

fun find_elem :: "(string \<times> data_node) list \<Rightarrow> string \<Rightarrow> nat" where
  "find_elem [] ident = 0"
| "find_elem (e # elems) ident = (if fst e = ident then 0 else Suc (find_elem elems ident))"

text \<open>Deletion moves the last element into the free cell. The code reads the hash member without
  looking at the type.\<close>

fun data_node_hash_del :: "data_node \<Rightarrow> string \<Rightarrow> (int \<times> data_node) outcome" where
  "data_node_hash_del (Node_Hash elems) ident =
     (let i = find_elem elems ident in
      if i \<ge> length elems then Ok (0, Node_Hash elems)
      else Ok (1, Node_Hash (butlast (elems[i := last elems]))))"
| "data_node_hash_del self ident = UB"

fun data_node_hash_get :: "data_node \<Rightarrow> string \<Rightarrow> data_node option outcome" where
  "data_node_hash_get (Node_Hash elems) ident =
     (let i = find_elem elems ident in if i \<ge> length elems then Ok None else Ok (Some (snd (elems ! i))))"
| "data_node_hash_get self ident = UB"

fun data_node_array_add :: "data_node \<Rightarrow> data_node \<Rightarrow> int \<times> data_node" where
  "data_node_array_add (Node_Array ns) payload =
     (if length ns = MAX_ELEMS then (1, Node_Array ns) else (0, Node_Array (ns @ [payload])))"
| "data_node_array_add self payload = (1, self)"

fun data_node_array_len :: "data_node \<Rightarrow> nat" where
  "data_node_array_len (Node_Array ns) = length ns"
| "data_node_array_len self = 0"

section \<open>Output\<close>

definition data_print_padd :: "nat \<Rightarrow> string" where
  "data_print_padd i = replicate i (CHR '' '')"

fun data_node_print' :: "data_node \<Rightarrow> nat \<Rightarrow> string"
  and print_elems :: "(string \<times> data_node) list \<Rightarrow> nat \<Rightarrow> string"
  and print_nodes :: "data_node list \<Rightarrow> nat \<Rightarrow> string" where
  "data_node_print' (Node_Int v) padd = data_print_padd padd @ show_int v @ [LF]"
| "data_node_print' (Node_String s) padd = data_print_padd padd @ [SQUOTE] @ s @ [SQUOTE, LF]"
| "data_node_print' (Node_Hash elems) padd = print_elems elems padd"
| "data_node_print' (Node_Array ns) padd = print_nodes ns padd"
| "print_elems [] padd = []"
| "print_elems ((ident, n) # elems) padd =
     data_print_padd padd @ ident @ '' = {'' @ [LF] @ data_node_print' n (padd + 1) @
     data_print_padd padd @ ''},'' @ [LF] @ print_elems elems padd"
| "print_nodes [] padd = []"
| "print_nodes (n # ns) padd =
     data_print_padd padd @ ''{'' @ [LF] @ data_node_print' n (padd + 1) @
     data_print_padd padd @ ''},'' @ [LF] @ print_nodes ns padd"

definition data_node_print :: "data_node \<Rightarrow> string" where
  "data_node_print self = ''{'' @ [LF] @ data_node_print' self 1 @ ''}'' @ [LF]"

definition data_fprintf :: "nat \<Rightarrow> string \<Rightarrow> string" where
  "data_fprintf padd s = replicate padd (CHR '' '') @ s"

text \<open>\<^verbatim>\<open>*str >= 0x20\<close> on a signed \<^verbatim>\<open>char\<close>: bytes from 128 on are negative.\<close>

definition printable :: "char \<Rightarrow> bool" where
  "printable c = (0x20 \<le> to_signed 8 (int (chr_code c)))"

abbreviation BACKSLASH :: char where "BACKSLASH \<equiv> CHR 0x5C"

definition esc_char :: "char \<Rightarrow> string" where
  "esc_char c =
     (if c = BACKSLASH then [BACKSLASH, BACKSLASH]
      else if c = DQUOTE then [BACKSLASH, DQUOTE]
      else if c = CHR 0x09 then replicate 8 (CHR '' '')
      else if printable c then [c] else [])"

definition data_fprintf_esc :: "nat \<Rightarrow> string \<Rightarrow> string" where
  "data_fprintf_esc padd str =
     replicate padd (CHR '' '') @ [DQUOTE] @ concat (map esc_char str) @ [DQUOTE]"

fun data_to_json' :: "data_node \<Rightarrow> nat \<Rightarrow> bool \<Rightarrow> string"
  and json_elems :: "(string \<times> data_node) list \<Rightarrow> nat \<Rightarrow> string"
  and json_nodes :: "data_node list \<Rightarrow> nat \<Rightarrow> string" where
  "data_to_json' (Node_Int v) padd do_padd = data_fprintf (if do_padd then padd else 0) (show_int v)"
| "data_to_json' (Node_String s) padd do_padd = data_fprintf_esc (if do_padd then padd else 0) s"
| "data_to_json' (Node_Hash elems) padd do_padd = json_elems elems padd"
| "data_to_json' (Node_Array ns) padd do_padd =
     data_fprintf (if do_padd then padd else 0) [CHR ''['', LF] @ json_nodes ns (padd + 1) @ data_fprintf padd '']''"
| "json_elems [] padd = []"
| "json_elems ((ident, n) # elems) padd =
     data_fprintf padd ([DQUOTE] @ ident @ [DQUOTE] @ '': '') @ data_to_json' n (padd + 1) False @
     (if elems \<noteq> [] then '','' else []) @ [LF] @ json_elems elems padd"
| "json_nodes [] padd = []"
| "json_nodes (n # ns) padd =
     data_to_json' n padd True @ (if ns \<noteq> [] then '','' else []) @ [LF] @ json_nodes ns padd"

definition data_to_json :: "data_node \<Rightarrow> nat \<Rightarrow> string" where
  "data_to_json self padd = ''{'' @ [LF] @ data_to_json' self (padd + 1) True @ data_fprintf padd ''}''"

end
