(* ===== verification/Metaparse_Lex.thy ===== *)
theory Metaparse_Lex
  imports Data_Storage
begin

text \<open>
  The tokens of \<^verbatim>\<open>metadata/metaparse.c\<close>: comments, documentation comments and \<^verbatim>\<open>next_token2()\<close>. A stream
  is the list of the characters that are still to be read; reading at the end of the file gives
  \<open>None\<close>, the C value \<^verbatim>\<open>EOF\<close>. The two comment loops do not look for the end of the file, so they are
  partial functions whose value \<open>None\<close> means that the loop does not end.
\<close>

section \<open>Streams\<close>

type_synonym stream = string

fun getc :: "stream \<Rightarrow> char option \<times> stream" where
  "getc [] = (None, [])"
| "getc (c # f) = (Some c, f)"

text \<open>\<^verbatim>\<open>ungetc()\<close> of \<^verbatim>\<open>EOF\<close> does nothing.\<close>

fun ungetc :: "char option \<Rightarrow> stream \<Rightarrow> stream" where
  "ungetc None f = f"
| "ungetc (Some c) f = c # f"

text \<open>The C string in a buffer.\<close>

definition cstr :: "string \<Rightarrow> string" where
  "cstr buf = takeWhile (\<lambda>c. c \<noteq> NUL) buf"

section \<open>Comments\<close>

partial_function (option) oneline_comment :: "stream \<Rightarrow> stream option" where
  "oneline_comment f =
     (let (c, f') = getc f in if c \<noteq> Some LF then oneline_comment f' else Some f')"

declare oneline_comment.simps [code]

definition eat_asterisk_space :: "string \<Rightarrow> string" where
  "eat_asterisk_space c =
     (let s = dropWhile isspace c in
      if s \<noteq> [] \<and> hd s = CHR ''*'' then (if tl s \<noteq> [] \<and> isspace (hd (tl s)) then tl (tl s) else tl s) else c)"

definition COMMENT_BUF :: nat where "COMMENT_BUF = 4096"

text \<open>A line of a documentation comment goes into the array, unless that is full.\<close>

definition add_doc_line :: "data_node \<Rightarrow> string \<Rightarrow> data_node" where
  "add_doc_line doc buf = snd (data_node_array_add doc (data_node_string (eat_asterisk_space (cstr buf))))"

definition buf_char :: "char option \<Rightarrow> char" where
  "buf_char c = (case c of None \<Rightarrow> CHR 0xFF | Some x \<Rightarrow> x)"

partial_function (option) multiline_loop ::
  "stream \<Rightarrow> data_node option \<Rightarrow> nat \<Rightarrow> string \<Rightarrow> (stream \<times> data_node option) option" where
  "multiline_loop f doc state buf =
     (let (c, f') = getc f in
      if doc \<noteq> None \<and> c = Some LF then
        multiline_loop f' (Some (add_doc_line (the doc) buf)) state []
      else if doc \<noteq> None \<and> length buf + 1 \<ge> COMMENT_BUF then multiline_loop f' doc state buf
      else
        let buf' = (if doc \<noteq> None then buf @ [buf_char c] else buf) in
        if state = 0 then multiline_loop f' doc (if c = Some (CHR ''*'') then 1 else 0) buf'
        else if c = Some (CHR ''/'') then Some (f', doc)
        else if c = Some (CHR ''*'') then multiline_loop f' doc 1 buf'
        else multiline_loop f' doc 0 buf')"

declare multiline_loop.simps [code]

definition multiline_comment :: "stream \<Rightarrow> data_node option \<Rightarrow> (stream \<times> data_node option) option" where
  "multiline_comment f doc = multiline_loop f doc 0 []"

definition doc_prefix :: string where "doc_prefix = [BACKSLASH, LF]"

text \<open>The comment does not become documentation, but \<open>doc\<close> stays as it is.\<close>

definition skip_comment :: "stream \<Rightarrow> data_node option \<Rightarrow> (stream \<times> data_node option) option" where
  "skip_comment f doc = Option.bind (multiline_comment f None) (\<lambda>(f', _). Some (f', doc))"

fun maybe_doc_loop :: "string \<Rightarrow> stream \<Rightarrow> data_node option \<Rightarrow> (stream \<times> data_node option) option" where
  "maybe_doc_loop [] f doc = multiline_comment f doc"
| "maybe_doc_loop (p # ps) f doc =
     (let (c, f') = getc f in
      if c = Some p then maybe_doc_loop ps f' doc
      else skip_comment (if c = Some (CHR ''*'') then ungetc c f' else f') doc)"

definition maybe_doc_comment :: "stream \<Rightarrow> data_node option \<Rightarrow> (stream \<times> data_node option) option" where
  "maybe_doc_comment f doc = maybe_doc_loop doc_prefix f doc"

definition maybe_comment :: "stream \<Rightarrow> data_node option \<Rightarrow> (stream \<times> data_node option) option" where
  "maybe_comment f doc =
     (let (c, f') = getc f in
      if c = Some (CHR ''/'') then Option.bind (oneline_comment f') (\<lambda>g. Some (g, doc))
      else if c = Some (CHR ''*'') then maybe_doc_comment f' doc
      else Some (ungetc c f', doc))"

section \<open>A comment does not give characters back\<close>

lemma length_getc: "getc f = (c, f') \<Longrightarrow> length f' \<le> length f"
  by (cases f) auto

lemma length_getc_Some: "getc f = (Some c, f') \<Longrightarrow> length f = Suc (length f')"
  by (cases f) auto

lemma length_ungetc: "getc f = (c, f') \<Longrightarrow> length (ungetc c f') = length f"
  by (cases f) auto

lemma oneline_comment_length: "oneline_comment f = Some f' \<Longrightarrow> length f' \<le> length f"
proof (erule oneline_comment.raw_induct [where P = "\<lambda>f f'. length f' \<le> length f", rotated])
  fix g f f'
  assume IH: "\<And>f f'. g f = Some f' \<Longrightarrow> length f' \<le> length f"
    and step: "(let (c, f') = getc f in if c \<noteq> Some LF then g f' else Some f') = Some f'"
  obtain c r where r: "getc f = (c, r)" by (cases "getc f")
  show "length f' \<le> length f"
    using IH [of r f'] step length_getc [OF r] by (auto simp: r split: if_splits)
qed

lemma multiline_loop_length:
  "multiline_loop f doc state buf = Some x \<Longrightarrow> length (fst x) \<le> length f"
proof (erule multiline_loop.raw_induct [where P = "\<lambda>f doc state buf x. length (fst x) \<le> length f", rotated], goal_cases)
  case (1 g f doc state buf x)
  obtain c r where r: "getc f = (c, r)" by (cases "getc f")
  have IH: "g r d s b = Some x \<Longrightarrow> length (fst x) \<le> length f" for d s b
    using 1(1) [of r d s b x] length_getc [OF r] by simp
  show ?case using 1(2) IH length_getc [OF r] by (auto simp: r Let_def split: if_splits)
qed

lemma maybe_doc_loop_length: "maybe_doc_loop ps f doc = Some x \<Longrightarrow> length (fst x) \<le> length f"
proof (induction ps arbitrary: f)
  case (Cons p ps)
  obtain c r where r: "getc f = (c, r)" by (cases "getc f")
  show ?case using Cons.prems Cons.IH [of r] length_getc [OF r] length_ungetc [OF r] multiline_loop_length
    by (fastforce simp: r skip_comment_def multiline_comment_def Option.bind_eq_Some_conv split: if_splits)
qed (auto simp: multiline_comment_def dest: multiline_loop_length)

lemma maybe_comment_length: "maybe_comment f doc = Some (f', doc') \<Longrightarrow> length f' \<le> length f"
proof -
  assume a: "maybe_comment f doc = Some (f', doc')"
  obtain c r where r: "getc f = (c, r)" by (cases "getc f")
  show ?thesis using a length_getc [OF r] length_ungetc [OF r] oneline_comment_length maybe_doc_loop_length
    by (fastforce simp: maybe_comment_def r maybe_doc_comment_def Option.bind_eq_Some_conv split: if_splits)
qed

section \<open>Tokens\<close>

definition is_punct :: "char \<Rightarrow> bool" where
  "is_punct c = (c \<in> set ''{};()=,[]#'')"

definition is_word :: "char \<Rightarrow> bool" where
  "is_word c = (isalnum c \<or> c \<in> set ''._-'')"

text \<open>The token or \<^verbatim>\<open>NULL\<close>, the rest of the stream and the documentation.\<close>

type_synonym token_result = "(string option \<times> stream \<times> data_node option) run"

text \<open>The code behind the label \<^verbatim>\<open>exit\<close>, with a buffer of \<open>n\<close> bytes.\<close>

definition token_exit :: "nat \<Rightarrow> string \<Rightarrow> bool \<Rightarrow> stream \<Rightarrow> data_node option \<Rightarrow> token_result" where
  "token_exit n buf in_str f doc =
     (if buf = [] \<and> \<not> in_str then Some (Ok (None, f, doc))
      else if length buf < n then Some (Ok (Some (cstr buf), f, doc))
      else Some UB)"

function token_loop :: "nat \<Rightarrow> stream \<Rightarrow> data_node option \<Rightarrow> string \<Rightarrow> bool \<Rightarrow> token_result" where
  "token_loop n [] doc buf in_str = token_exit n buf in_str [] doc"
| "token_loop n (c # f) doc buf in_str =
     (if in_str then
        if c = DQUOTE \<and> (buf = [] \<or> last buf \<noteq> BACKSLASH) then token_exit n buf in_str f doc
        else token_loop n f doc (if length buf < n - 1 then buf @ [c] else buf) in_str
      else if is_punct c then
        if buf \<noteq> [] then token_exit n buf in_str (ungetc (Some c) f) doc
        else token_exit n (if length buf < n - 1 then buf @ [c] else buf) in_str f doc
      else if is_word c then
        if length buf < n then token_loop n f doc (buf @ [c]) in_str else Some UB
      else if c = CHR ''/'' then
        (case maybe_comment f doc of
           None \<Rightarrow> None
         | Some (f', doc') \<Rightarrow> token_loop n f' doc' buf in_str)
      else if c = DQUOTE then token_loop n f doc buf True
      else if c = CHR '' '' \<or> c = LF \<or> c = CHR 0x09 then
        if buf \<noteq> [] then token_exit n buf in_str f doc else token_loop n f doc buf in_str
      else token_loop n f doc buf in_str)"
  by pat_completeness auto
termination
  by (relation "measure (\<lambda>(n, f, doc, buf, in_str). length f)") (auto dest: maybe_comment_length)

definition next_token2 :: "stream \<Rightarrow> nat \<Rightarrow> data_node option \<Rightarrow> token_result" where
  "next_token2 f buf_len doc = token_loop buf_len f doc [] False"

definition TOKEN_BUF :: nat where "TOKEN_BUF = 4096"

definition next_token :: "stream \<Rightarrow> data_node option \<Rightarrow> token_result" where
  "next_token f doc = next_token2 f TOKEN_BUF doc"

lemma token_exit_length:
  "token_exit n buf in_str f doc = Some (Ok (t, f', doc')) \<Longrightarrow>
    f' = f \<and> doc' = doc \<and> (t \<noteq> None \<longleftrightarrow> buf \<noteq> [] \<or> in_str)"
  by (auto simp: token_exit_def split: if_splits)

lemma token_loop_length:
  "token_loop n f doc buf in_str = Some (Ok (t, f', doc')) \<Longrightarrow>
    length f' \<le> length f \<and> (t \<noteq> None \<and> buf = [] \<and> \<not> in_str \<longrightarrow> length f' < length f)"
proof (induction n f doc buf in_str rule: token_loop.induct)
  case (1 n doc buf in_str)
  then show ?case by (auto dest: token_exit_length)
next
  case (2 n c f doc buf in_str)
  have comment: "length f' \<le> Suc (length f) \<and> (t \<noteq> None \<and> buf = [] \<longrightarrow> length f' < Suc (length f))"
    if "maybe_comment f doc = Some (g, d)" "token_loop n g d buf False = Some (Ok (t, f', doc'))"
      "\<not> in_str" "\<not> is_punct c" "\<not> is_word c" "c = CHR ''/''" for g d
    using "2.IH"(3) [OF that(3-6,1) refl] that maybe_comment_length [OF that(1)] by auto
  show ?case using 2 comment
    by (auto dest!: token_exit_length split: if_splits option.splits prod.splits)
qed

lemma next_token2_shorter:
  "next_token2 f n doc = Some (Ok (Some t, f', doc')) \<Longrightarrow> length f' < length f"
  using token_loop_length [of n f doc "[]" False] by (auto simp: next_token2_def)

lemma next_token_shorter:
  "next_token f doc = Some (Ok (Some t, f', doc')) \<Longrightarrow> length f' < length f"
  by (auto simp: next_token_def dest: next_token2_shorter)

lemma next_token_length: "next_token f doc = Some (Ok (t, f', doc')) \<Longrightarrow> length f' \<le> length f"
  using token_loop_length by (auto simp: next_token_def next_token2_def)

end
