(* ===== verification/Metaparse_Comments.thy ===== *)
theory Metaparse_Comments
  imports Metaparse_Lex "HOL-Library.Sublist"
begin

text \<open>
  When the comment loops of \<^verbatim>\<open>metadata/metaparse.c\<close> end. A line comment ends with the first line feed, a
  plain block comment with the first \<^verbatim>\<open>*/\<close>, and a documentation comment, whose lines are collected, with the
  first \<^verbatim>\<open>*/\<close> when line feeds are ignored; without it the loops read the end of the file forever.
\<close>

section \<open>Line comments\<close>





section \<open>Block comments\<close>







section \<open>Documentation comments\<close>


definition state_after :: "nat \<Rightarrow> string \<Rightarrow> nat" where
  "state_after s l = (if l = [] then s else if last l = CHR ''*'' then 1 else 0)"



lemma state_after_append [simp]: "state_after (state_after s a) b = state_after s (a @ b)"
  by (auto simp: state_after_def)








section \<open>Properties\<close>



end
