(* ===== verification/Metaparse.thy ===== *)
theory Metaparse
  imports Metaparse_Lex
begin

text \<open>
  The metadata extractor \<^verbatim>\<open>metadata/metaparse.c\<close> from the include files to \<^verbatim>\<open>main()\<close>. The file system is a
  function from paths to contents; messages on standard error are not modelled, and \<^verbatim>\<open>exit(1)\<close> is the outcome
  \<open>Brk\<close> with the number 1 and the message. The loops over tokens end because every token takes
  characters from the stream; \<^verbatim>\<open>parse_array()\<close>, which calls itself inside its loop, has fuel.
\<close>

section \<open>Include files\<close>

record env =
  files :: "string \<Rightarrow> string option"
  includepath :: string
  cmdline_includepath :: "string list"
  table_size :: nat

definition open_file :: "env \<Rightarrow> string \<Rightarrow> string \<Rightarrow> stream option" where
  "open_file e dir fname = files e (dir @ ''/'' @ fname)"

text \<open>\<^verbatim>\<open>fscanf(f, "%s...", buf)\<close> with a buffer of \<open>n\<close> bytes: the word and the rest. At the end of the file
  the buffer is used without having been set.\<close>

definition scan_word :: "nat \<Rightarrow> stream \<Rightarrow> (string \<times> stream) outcome" where
  "scan_word n f =
     (let g = dropWhile isspace f; w = takeWhile (\<lambda>c. \<not> isspace c) g in
      if g = [] \<or> length w \<ge> n then UB else Ok (cstr w, dropWhile (\<lambda>c. \<not> isspace c) g))"

fun open_cmdline :: "env \<Rightarrow> string list \<Rightarrow> string \<Rightarrow> stream option" where
  "open_cmdline e [] fname = None"
| "open_cmdline e (d # ds) fname =
     (case open_file e d fname of None \<Rightarrow> open_cmdline e ds fname | Some inc \<Rightarrow> Some inc)"

definition open_include :: "env \<Rightarrow> stream \<Rightarrow> (stream option \<times> stream) outcome" where
  "open_include e f =
     obind (scan_word 256 f) (\<lambda>(buf, r).
       let f' = dropWhile isspace r in
       if buf = [] \<or> hd buf \<noteq> DQUOTE then Ok (None, f')
       else if tl buf = [] then UB
       else
         let fname = butlast (tl buf) in
         case open_file e (includepath e) fname of
           Some inc \<Rightarrow> Ok (Some inc, f')
         | None \<Rightarrow> Ok (open_cmdline e (cmdline_includepath e) fname, f'))"

section \<open>Arrays\<close>

text \<open>The return value (0 or 1), the rest of the stream and the array.\<close>

fun parse_array :: "nat \<Rightarrow> stream \<Rightarrow> data_node \<Rightarrow> (int \<times> stream \<times> data_node) run" where
  "parse_array 0 f node = None"
| "parse_array (Suc fuel) f node =
     rbind (next_token f None) (\<lambda>(token, f', _). case token of
         None \<Rightarrow> Some (Ok (1, f', node))
       | Some t \<Rightarrow>
           if t = ''{'' then
             rbind (parse_array fuel f' data_node_array) (\<lambda>(_, f'', ret).
               parse_array fuel f'' (if data_node_array_len ret \<noteq> 0 then snd (data_node_array_add node ret) else node))
           else if t = ''}'' then Some (Ok (0, f', node))
           else if t = '','' then parse_array fuel f' node
           else if t = ''NULL'' then parse_array fuel f' node
           else parse_array fuel f' (snd (data_node_array_add node (data_node_string t))))"

definition parse_array_top :: "stream \<Rightarrow> (int \<times> stream \<times> data_node) run" where
  "parse_array_top f = parse_array (Suc (length f)) f data_node_array"

text \<open>The table of macros of \<^verbatim>\<open>hsearch()\<close>: an entry is not replaced, and a full table takes no more.\<close>

type_synonym macros = "(string \<times> string) list"

definition hsearch_enter :: "nat \<Rightarrow> macros \<Rightarrow> string \<Rightarrow> string \<Rightarrow> macros" where
  "hsearch_enter htab_size ms k v = (if map_of ms k \<noteq> None \<or> length ms \<ge> htab_size then ms else ms @ [(k, v)])"

definition try_apply_macro :: "macros \<Rightarrow> string \<Rightarrow> string" where
  "try_apply_macro ms res = (case map_of ms res of None \<Rightarrow> res | Some d \<Rightarrow> d)"

text \<open>The loop of \<^verbatim>\<open>parse_get_array_len()\<close>.\<close>

function array_len_loop :: "stream \<Rightarrow> int \<Rightarrow> int \<Rightarrow> bool \<Rightarrow> (int \<times> stream) run" where
  "array_len_loop f cnt depth prev_comma =
     rbind (next_token f None) (\<lambda>(token, f', _). case token of
         None \<Rightarrow> Some (Ok (0, f'))
       | Some t \<Rightarrow>
           let depth1 = (if t = ''{'' then depth + 1 else depth);
               depth2 = (if t = ''}'' then depth1 - 1 else depth1);
               pc1 = (if t = ''}'' then prev_comma else False);
               comma = (t = '','' \<and> depth2 = 0);
               pc2 = (comma \<or> pc1);
               cnt' = (if comma then cnt + 1 else cnt)
           in if depth2 < 0 then Some (Ok (cnt' + (if pc2 then 0 else 1), f'))
              else array_len_loop f' cnt' depth2 pc2)"
  by pat_completeness auto
termination
  by (relation "measure (\<lambda>(f, c, d, p). length f)") (auto dest: next_token_shorter)

declare array_len_loop.simps [simp del]

definition parse_get_array_len :: "stream \<Rightarrow> (int \<times> stream) run" where
  "parse_get_array_len f =
     rbind (next_token f None) (\<lambda>(token, f', _).
       if token = Some ''{'' then array_len_loop f' 0 0 False else Some (Ok (0, f')))"

definition ID_BUF :: nat where "ID_BUF = 2048"

text \<open>\<open>prev\<close> is the content of \<^verbatim>\<open>buf[prev_buf]\<close>.\<close>

function look_for_array_size :: "stream \<Rightarrow> string \<Rightarrow> string \<Rightarrow> data_node option run" where
  "look_for_array_size f arr_id prev =
     rbind (next_token2 f ID_BUF None) (\<lambda>(token, f', _). case token of
         None \<Rightarrow> Some (Ok None)
       | Some t \<Rightarrow>
           if t = ''='' \<and> prev = arr_id then
             rbind (parse_get_array_len f') (\<lambda>(n, _). Some (Ok (Some (data_node_int n))))
           else if t \<noteq> '']'' \<and> t \<noteq> ''['' then look_for_array_size f' arr_id t
           else look_for_array_size f' arr_id prev)"
  by pat_completeness auto
termination
  by (relation "measure (\<lambda>(f, a, p). length f)") (auto dest: next_token2_shorter)

declare look_for_array_size.simps [simp del]

lemma open_include_length: "open_include e f = Ok (inc, f') \<Longrightarrow> length f' \<le> length f"
proof -
  have d: "length (dropWhile P (dropWhile Q (dropWhile R f))) \<le> length f" for P Q R
    by (meson length_dropWhile_le order_trans)
  assume "open_include e f = Ok (inc, f')"
  then show ?thesis
    by (auto simp: open_include_def scan_word_def Let_def obind_Ok_iff d split: if_splits option.splits)
qed

text \<open>The search in the included files; \<open>hash\<close> stays set after the first number sign.\<close>

function search_includes :: "env \<Rightarrow> stream \<Rightarrow> string \<Rightarrow> bool \<Rightarrow> data_node option run" where
  "search_includes e f arr_id hash =
     rbind (next_token f None) (\<lambda>(token, f', _). case token of
         None \<Rightarrow> Some (Ok None)
       | Some t \<Rightarrow>
           if t \<noteq> [] \<and> hd t = CHR ''#'' then search_includes e f' arr_id True
           else if \<not> hash then search_includes e f' arr_id hash
           else if t = ''include'' then
             rbind (Some (open_include e f')) (\<lambda>(inc, f'').
               rbind (case inc of None \<Rightarrow> Some (Ok None) | Some g \<Rightarrow> look_for_array_size g arr_id []) (\<lambda>res.
                 if res \<noteq> None then Some (Ok res) else search_includes e f'' arr_id hash))
           else search_includes e f' arr_id hash)"
  by pat_completeness auto
termination
  by (relation "measure (\<lambda>(e, f, a, h). length f)") (auto dest!: next_token_shorter open_include_length)

declare search_includes.simps [simp del]

text \<open>The stream is read again from its start, \<open>whole\<close>, and then set back. \<open>Inl\<close> is the return value 1.\<close>

definition parse_array_size ::
  "env \<Rightarrow> stream \<Rightarrow> stream \<Rightarrow> (stream + data_node option \<times> stream) run" where
  "parse_array_size e whole f =
     rbind (next_token f None) (\<lambda>(token, f', _).
       if token \<noteq> Some ''('' then Some (Ok (Inl f'))
       else rbind (next_token f' None) (\<lambda>(token, f'', _). case token of
           None \<Rightarrow> Some (Ok (Inl f''))
         | Some arr_id \<Rightarrow>
             rbind (look_for_array_size whole arr_id []) (\<lambda>res.
               rbind (if res = None then search_includes e whole arr_id False else Some (Ok res)) (\<lambda>res.
                 Some (Ok (Inr (res, f'')))))))"

section \<open>The test structure\<close>

lemma parse_array_length:
  "parse_array fuel f node = Some (Ok (r, f', n)) \<Longrightarrow> length f' \<le> length f"
proof (induction fuel f node arbitrary: r f' n rule: parse_array.induct)
  case (2 fuel f node)
  obtain token g d where t: "next_token f None = Some (Ok (token, g, d))"
    using "2.prems" by (auto simp: rbind_Ok_iff)
  have g: "length g \<le> length f" using t token_loop_length by (auto simp: next_token_def next_token2_def)
  show ?case
  proof (cases token)
    case None
    then show ?thesis using "2.prems" t g by simp
  next
    case (Some tk)
    note IH = "2.IH" [OF t refl refl Some]
    show ?thesis
    proof (cases "tk = ''{''")
      case True
      then obtain r1 g1 n1 where a: "parse_array fuel g data_node_array = Some (Ok (r1, g1, n1))"
        and b: "parse_array fuel g1 (if data_node_array_len n1 \<noteq> 0 then snd (data_node_array_add node n1) else node)
          = Some (Ok (r, f', n))"
        using "2.prems" t Some by (auto simp: rbind_Ok_iff)
      show ?thesis using IH(1) [OF True a] IH(2) [OF True a refl refl b] g by simp
    next
      case False
      then show ?thesis using "2.prems" t Some g IH(3-) by (auto split: if_splits)
    qed
  qed
qed simp

lemma parse_array_top_length:
  "parse_array_top f = Some (Ok (r, f', n)) \<Longrightarrow> length f' \<le> length f"
  unfolding parse_array_top_def by (rule parse_array_length)

lemma parse_array_size_length:
  "parse_array_size e whole f = Some (Ok (Inr (res, f'))) \<Longrightarrow> length f' < length f"
  by (auto simp: parse_array_size_def rbind_Ok_iff dest!: next_token_shorter split: if_splits option.splits)

lemma parse_array_size_Inl:
  "parse_array_size e whole f = Some (Ok (Inl f')) \<Longrightarrow> length f' \<le> length f"
  by (auto simp: parse_array_size_def rbind_Ok_iff dest!: next_token_length split: if_splits option.splits)

text \<open>The key of a member: without the dot.\<close>

definition member_key :: "string \<Rightarrow> string" where
  "member_key ident = (if ident \<noteq> [] \<and> hd ident = CHR ''.'' then tl ident else ident)"

definition add_member :: "data_node \<Rightarrow> string \<Rightarrow> data_node \<Rightarrow> data_node" where
  "add_member node ident ret = snd (data_node_hash_add node (member_key ident) ret)"

type_synonym struct_result = "(int \<times> stream \<times> data_node option \<times> data_node) run"

function parse_struct_loop ::
  "env \<Rightarrow> stream \<Rightarrow> macros \<Rightarrow> stream \<Rightarrow> data_node option \<Rightarrow> data_node \<Rightarrow> string \<Rightarrow> nat \<Rightarrow> struct_result" where
  "parse_struct_loop e whole ms f doc node ident state =
     rbind (next_token f doc) (\<lambda>(token, f', doc'). case token of
         None \<Rightarrow> Some (Ok (1, f', doc', node))
       | Some t \<Rightarrow>
           if t = ''}'' then Some (Ok (0, f', doc', node))
           else if state = 0 then parse_struct_loop e whole ms f' doc' node t 1
           else if state = 1 then
             parse_struct_loop e whole ms f' doc' node ident (if t = ''='' then 2 else 1)
           else if state = 2 \<and> t = ''('' then parse_struct_loop e whole ms f' doc' node ident 3
           else if state = 3 then
             parse_struct_loop e whole ms f' doc' node ident (if t = '')'' then 2 else 3)
           else if state = 4 then
             parse_struct_loop e whole ms f' doc' node ident (if t = '','' then 0 else 4)
           else if t = ''{'' then
             rbind (parse_array_top f') (\<lambda>(_, f'', ret).
               parse_struct_loop e whole ms f'' doc' (add_member node ident ret) ident 4)
           else if t = ''ARRAY_SIZE'' then
             rbind (parse_array_size e whole f') (\<lambda>r. case r of
                 Inl f'' \<Rightarrow> Some (Ok (1, f'', doc', node))
               | Inr (res, f'') \<Rightarrow> (case res of
                   None \<Rightarrow> parse_struct_loop e whole ms f'' doc' node ident state
                 | Some ret \<Rightarrow> parse_struct_loop e whole ms f'' doc' (add_member node ident ret) ident 4))
           else
             parse_struct_loop e whole ms f' doc'
               (add_member node ident (data_node_string (try_apply_macro ms t))) ident 4)"
  by pat_completeness auto
termination
  by (relation "measure (\<lambda>(e, w, ms, f, doc, node, ident, state). length f)")
    (auto dest!: next_token_shorter parse_array_top_length parse_array_size_length)

declare parse_struct_loop.simps [simp del]

definition parse_test_struct ::
  "env \<Rightarrow> stream \<Rightarrow> macros \<Rightarrow> stream \<Rightarrow> data_node option \<Rightarrow> data_node \<Rightarrow> struct_result" where
  "parse_test_struct e whole ms f doc node = parse_struct_loop e whole ms f doc node [] 0"

definition struct_tokens :: "string list" where
  "struct_tokens = [''static'', ''struct'', ''tst_test'', ''test'', ''='', ''{'']"

section \<open>Macros\<close>

text \<open>The value that is read so far is \<open>buf\<close>, with room for \<open>n\<close> characters.\<close>

fun macro_get_string :: "nat \<Rightarrow> stream \<Rightarrow> string \<Rightarrow> string \<times> stream" where
  "macro_get_string n [] buf = (buf, [])"
| "macro_get_string n (c # f) buf =
     (if c = DQUOTE then
        if buf = [] \<or> last buf \<noteq> BACKSLASH then (buf, f)
        else macro_get_string n f (butlast buf @ [DQUOTE])
      else macro_get_string n f (if length buf < n then buf @ [c] else buf))"

fun macro_val_loop :: "nat \<Rightarrow> stream \<Rightarrow> char \<Rightarrow> string \<Rightarrow> string \<times> stream" where
  "macro_val_loop n [] prev buf = (buf, [])"
| "macro_val_loop n (c # f) prev buf =
     (if c = LF then
        if prev = BACKSLASH then macro_val_loop n f c (butlast buf) else (buf, f)
      else if c = CHR '' '' \<or> c = CHR 0x09 then macro_val_loop n f c buf
      else macro_val_loop n f c (if length buf < n then buf @ [c] else buf))"

definition macro_get_val :: "nat \<Rightarrow> stream \<Rightarrow> string \<times> stream" where
  "macro_get_val buf_len f =
     (let g = dropWhile isspace f in
      if g \<noteq> [] \<and> hd g = DQUOTE then macro_get_string (buf_len - 1) (tl g) []
      else macro_val_loop (buf_len - 1) g NUL [])"

definition parse_macro :: "env \<Rightarrow> stream \<Rightarrow> macros \<Rightarrow> (stream \<times> macros) outcome" where
  "parse_macro e f ms =
     obind (scan_word 128 f) (\<lambda>(name, r).
       let (c, r') = getc r in
       if c = Some LF then Ok (r', ms)
       else
         let (v, r'') = macro_get_val 256 r' in
         if name \<noteq> [] \<and> hd name = CHR ''_'' then Ok (r'', ms)
         else Ok (r'', hsearch_enter (table_size e) ms name (cstr v)))"

lemma macro_get_string_length: "macro_get_string n f buf = (v, f') \<Longrightarrow> length f' \<le> length f"
  by (induction n f buf rule: macro_get_string.induct) (auto split: if_splits)

lemma macro_val_loop_length: "macro_val_loop n f prev buf = (v, f') \<Longrightarrow> length f' \<le> length f"
  by (induction n f prev buf rule: macro_val_loop.induct) (auto split: if_splits)

lemma macro_get_val_length: "macro_get_val n f = (v, f') \<Longrightarrow> length f' \<le> length f"
  using length_dropWhile_le [of isspace f]
  by (auto simp: macro_get_val_def Let_def dest!: macro_get_string_length macro_val_loop_length split: if_splits)

lemma scan_word_length: "scan_word n f = Ok (w, f') \<Longrightarrow> length f' \<le> length f"
  using length_dropWhile_le [of "\<lambda>c. \<not> isspace c" "dropWhile isspace f"] length_dropWhile_le [of isspace f]
  by (auto simp: scan_word_def Let_def split: if_splits)

lemma parse_macro_length: "parse_macro e f ms = Ok (f', ms') \<Longrightarrow> length f' \<le> length f"
proof -
  assume a: "parse_macro e f ms = Ok (f', ms')"
  then obtain w r where w: "scan_word 128 f = Ok (w, r)" by (auto simp: parse_macro_def obind_Ok_iff)
  obtain c r' where c: "getc r = (c, r')" by (cases "getc r")
  obtain v r'' where v: "macro_get_val 256 r' = (v, r'')" by (cases "macro_get_val 256 r'")
  have "f' = r' \<or> f' = r''" using a by (auto simp: parse_macro_def w c v split: if_splits)
  then show ?thesis using scan_word_length [OF w] length_getc [OF c] macro_get_val_length [OF v] by auto
qed

function include_loop :: "env \<Rightarrow> stream \<Rightarrow> bool \<Rightarrow> macros \<Rightarrow> macros run" where
  "include_loop e inc hash ms =
     rbind (next_token inc None) (\<lambda>(token, inc', _). case token of
         None \<Rightarrow> Some (Ok ms)
       | Some t \<Rightarrow>
           if t \<noteq> [] \<and> hd t = CHR ''#'' then include_loop e inc' True ms
           else if \<not> hash then include_loop e inc' hash ms
           else if t = ''define'' then
             rbind (Some (parse_macro e inc' ms)) (\<lambda>(inc'', ms'). include_loop e inc'' False ms')
           else include_loop e inc' False ms)"
  by pat_completeness auto
termination
  by (relation "measure (\<lambda>(e, f, h, ms). length f)") (auto dest!: next_token_shorter parse_macro_length)

declare include_loop.simps [simp del]

definition parse_include_macros :: "env \<Rightarrow> stream \<Rightarrow> macros \<Rightarrow> (stream \<times> macros) run" where
  "parse_include_macros e f ms =
     rbind (Some (open_include e f)) (\<lambda>(inc, f'). case inc of
         None \<Rightarrow> Some (Ok (f', ms))
       | Some g \<Rightarrow> rbind (include_loop e g False ms) (\<lambda>ms'. Some (Ok (f', ms'))))"

section \<open>Files\<close>

lemma parse_struct_loop_length:
  "parse_struct_loop e whole ms f doc node ident state = Some (Ok (r, f', doc', node')) \<Longrightarrow> length f' \<le> length f"
proof (induction "length f" arbitrary: f doc node ident state rule: less_induct)
  case less
  obtain token g d where t: "next_token f doc = Some (Ok (token, g, d))"
    using less.prems by (auto simp: parse_struct_loop.simps [of e whole ms f] rbind_Ok_iff)
  note unf = less.prems [unfolded parse_struct_loop.simps [of e whole ms f] t rbind.simps prod.case]
  show ?case
  proof (cases token)
    case None
    then show ?thesis using unf next_token_length [OF t] by simp
  next
    case (Some tk)
    have g: "length g < length f" using t Some by (auto dest: next_token_shorter)
    have IH: "parse_struct_loop e whole ms h d2 n2 i2 s2 = Some (Ok (r, f', doc', node')) \<Longrightarrow>
        length h \<le> length g \<Longrightarrow> length f' \<le> length f" for h d2 n2 i2 s2
      using less.hyps [of h d2 n2 i2 s2] g by simp
    have arr: "length f' \<le> length f" if "rbind (parse_array_top g) (\<lambda>(_, f'', ret).
        parse_struct_loop e whole ms f'' d (add_member node ident ret) ident 4) = Some (Ok (r, f', doc', node'))"
      using that IH by (auto simp: rbind_Ok_iff dest!: parse_array_top_length)
    have sz: "length f' \<le> length f" if a: "rbind (parse_array_size e whole g) (\<lambda>r. case r of
          Inl f'' \<Rightarrow> Some (Ok (1, f'', d, node))
        | Inr (res, f'') \<Rightarrow> (case res of
            None \<Rightarrow> parse_struct_loop e whole ms f'' d node ident state
          | Some ret \<Rightarrow> parse_struct_loop e whole ms f'' d (add_member node ident ret) ident 4))
        = Some (Ok (r, f', doc', node'))"
    proof -
      obtain q where q: "parse_array_size e whole g = Some (Ok q)" using a by (auto simp: rbind_Ok_iff)
      show ?thesis
      proof (cases q)
        case (Inl h)
        then show ?thesis using a q g parse_array_size_Inl [of e whole g h] by simp
      next
        case (Inr p)
        obtain res h where p: "p = (res, h)" by (cases p)
        have "length h \<le> length g" using q Inr p parse_array_size_length [of e whole g res h] by simp
        then show ?thesis using a q Inr p IH [of h] by (cases res) auto
      qed
    qed
    show ?thesis using unf g arr sz IH [of g] unfolding Some option.case by (auto split: if_splits)
  qed
qed

lemma next_token_both:
  "next_token f doc = Some (Ok (t, f', doc')) \<Longrightarrow> length f' \<le> length f \<and> (\<forall>x. t = Some x \<longrightarrow> length f' < length f)"
  using next_token_length next_token_shorter by blast

lemma parse_include_macros_length: "parse_include_macros e f ms = Some (Ok (f', ms')) \<Longrightarrow> length f' \<le> length f"
  by (auto simp: parse_include_macros_def rbind_Ok_iff dest!: open_include_length split: option.splits)

text \<open>The loop of \<^verbatim>\<open>parse_file()\<close>: whether the structure was found, the documentation and the hash.\<close>

function parse_file_loop ::
  "env \<Rightarrow> stream \<Rightarrow> stream \<Rightarrow> nat \<Rightarrow> bool \<Rightarrow> data_node option \<Rightarrow> data_node \<Rightarrow> macros \<Rightarrow>
   (bool \<times> data_node option \<times> data_node) run" where
  "parse_file_loop e whole f state found doc res ms =
     rbind (next_token f doc) (\<lambda>(token, f', doc'). case token of
         None \<Rightarrow> Some (Ok (found, doc', res))
       | Some t \<Rightarrow>
           if state < 6 \<and> struct_tokens ! state = t then
             if state + 1 < 6 then parse_file_loop e whole f' (state + 1) found doc' res ms
             else
               rbind (parse_test_struct e whole ms f' doc' res) (\<lambda>(_, f'', doc'', res').
                 parse_file_loop e whole f'' (state + 1) True doc'' res' ms)
           else if t \<noteq> [] \<and> hd t = CHR ''#'' then
             rbind (next_token f' doc') (\<lambda>(token2, f2, doc2).
               if token2 = Some ''define'' then
                 rbind (Some (parse_macro e f2 ms)) (\<lambda>(f3, ms'). parse_file_loop e whole f3 0 found doc2 res ms')
               else if token2 = Some ''include'' then
                 rbind (parse_include_macros e f2 ms) (\<lambda>(f3, ms'). parse_file_loop e whole f3 0 found doc2 res ms')
               else parse_file_loop e whole f2 0 found doc2 res ms)
           else parse_file_loop e whole f' 0 found doc' res ms)"
  by pat_completeness auto
termination
  by (relation "measure (\<lambda>(e, w, f, state, found, doc, res, ms). length f)")
    (auto simp: parse_test_struct_def
      dest!: next_token_both parse_macro_length parse_struct_loop_length parse_include_macros_length)

declare parse_file_loop.simps [simp del]

text \<open>\<^verbatim>\<open>dirname()\<close> and \<^verbatim>\<open>basename()\<close> of the C library.\<close>

definition strip_slashes :: "string \<Rightarrow> string" where
  "strip_slashes p = rev (dropWhile (\<lambda>c. c = CHR ''/'') (rev p))"

definition dirname :: "string \<Rightarrow> string" where
  "dirname p =
     (let s = strip_slashes p; d = rev (dropWhile (\<lambda>c. c \<noteq> CHR ''/'') (rev s)) in
      if s = [] then (if p = [] then ''.'' else ''/'')
      else if d = [] then ''.''
      else if strip_slashes d = [] then ''/'' else strip_slashes d)"

definition basename :: "string \<Rightarrow> string" where
  "basename p =
     (let s = strip_slashes p in
      if s = [] then (if p = [] then ''.'' else ''/'') else rev (takeWhile (\<lambda>c. c \<noteq> CHR ''/'') (rev s)))"

text \<open>\<open>files\<close> has no value for a file that does not exist. A file that exists is taken to be readable: the source does not
  check the result of \<^verbatim>\<open>fopen()\<close> here.\<close>

definition parse_file :: "env \<Rightarrow> string \<Rightarrow> data_node option run" where
  "parse_file e0 fname =
     (case files e0 fname of
        None \<Rightarrow> Some (Ok None)
      | Some src \<Rightarrow>
          rbind (parse_file_loop (e0\<lparr>includepath := dirname fname\<rparr>) src src 0 False
                   (Some data_node_array) data_node_hash [])
            (\<lambda>(found, doc, res).
              let d = (case doc of None \<Rightarrow> data_node_array | Some d \<Rightarrow> d) in
              if data_node_array_len d \<noteq> 0
              then Some (Ok (Some (snd (data_node_hash_add res ''doc'' d))))
              else Some (Ok (if found then Some res else None))))"

section \<open>Normalisation and output\<close>

definition tst_test_typemap :: "(string \<times> data_type) list" where
  "tst_test_typemap = [(''test_variants'', DATA_INT)]"

text \<open>\<^verbatim>\<open>strtol(str, &endptr, 10)\<close>: the value, what is behind the number, and whether \<^verbatim>\<open>errno\<close> is set.\<close>

definition strtol10 :: "string \<Rightarrow> int \<times> string \<times> bool" where
  "strtol10 str =
     (let s = dropWhile isspace str;
          neg = (s \<noteq> [] \<and> hd s = CHR ''-'');
          t = (if s \<noteq> [] \<and> (hd s = CHR ''-'' \<or> hd s = CHR ''+'') then tl s else s);
          ds = takeWhile isdigit t;
          v = (if neg then - int (digits_val ds) else int (digits_val ds))
      in if ds = [] then (0, str, False)
         else if fits_signed 64 v then (v, dropWhile isdigit t, False)
         else (if neg then - (2 ^ 63) else 2 ^ 63 - 1, dropWhile isdigit t, True))"

definition convert_str2int :: "data_node \<Rightarrow> string \<Rightarrow> string \<Rightarrow> data_node outcome" where
  "convert_str2int res ident str_val =
     (let (v, rest, err) = strtol10 str_val in
      if err \<or> rest \<noteq> [] then Brk (1, ''Cannot convert '' @ ident @ '' value '' @ str_val @ '' to int!'')
      else obind (data_node_hash_del res ident) (\<lambda>(_, res').
        Ok (snd (data_node_hash_add res' ident (data_node_int v)))))"

fun check_types :: "(string \<times> data_type) list \<Rightarrow> data_node \<Rightarrow> data_node outcome" where
  "check_types [] res = Ok res"
| "check_types ((ident, ty) # tm) res =
     obind (data_node_hash_get res ident) (\<lambda>n. case n of
         None \<Rightarrow> check_types tm res
       | Some m \<Rightarrow>
           if node_type m = ty then check_types tm res
           else (case m of
               Node_String s \<Rightarrow>
                 if ty = DATA_INT then obind (convert_str2int res ident s) (check_types tm)
                 else Brk (1, ''Cannot convert '' @ ident @ '' from '' @ data_type_name (node_type m) @ '' to '' @ data_type_name ty @ ''!'')
             | _ \<Rightarrow>
                 Brk (1, ''Cannot convert '' @ ident @ '' from '' @ data_type_name (node_type m) @ '' to '' @ data_type_name ty @ ''!'')))"

definition check_normalize_types :: "data_node \<Rightarrow> data_node outcome" where
  "check_normalize_types res = check_types tst_test_typemap res"

definition filter_out :: "string list" where
  "filter_out = [''bufs'', ''cleanup'', ''mntpoint'', ''setup'', ''tcnt'', ''test'', ''test_all'']"

definition implies :: "(string \<times> string list) list" where
  "implies =
     [(''mount_device'', [''format_device'', ''needs_device'', ''needs_tmpdir'']),
      (''format_device'', [''needs_device'', ''needs_tmpdir'']),
      (''all_filesystems'', [''needs_device'', ''needs_tmpdir'']),
      (''needs_device'', [''needs_tmpdir'']),
      (''needs_checkpoints'', [''needs_tmpdir'']),
      (''resource_files'', [''needs_tmpdir''])]"

definition strip_name :: "string \<Rightarrow> string" where
  "strip_name path =
     (let name = basename path; len = length name in
      if len > 2 \<and> name ! (len - 1) = CHR ''c'' \<and> name ! (len - 2) = CHR ''.'' then take (len - 2) name else name)"

fun filter_elems :: "string list \<Rightarrow> data_node \<Rightarrow> data_node outcome" where
  "filter_elems [] res = Ok res"
| "filter_elems (k # ks) res = obind (data_node_hash_del res k) (\<lambda>(_, res'). filter_elems ks res')"

fun add_implied :: "string list \<Rightarrow> data_node \<Rightarrow> data_node outcome" where
  "add_implied [] res = Ok res"
| "add_implied (k # ks) res =
     obind (data_node_hash_get res k) (\<lambda>n. case n of
         Some _ \<Rightarrow> add_implied ks res
       | None \<Rightarrow> add_implied ks (snd (data_node_hash_add res k (data_node_string ''1''))))"

fun apply_implies :: "(string \<times> string list) list \<Rightarrow> data_node \<Rightarrow> data_node outcome" where
  "apply_implies [] res = Ok res"
| "apply_implies ((flag, ks) # is) res =
     obind (data_node_hash_get res flag) (\<lambda>n. case n of
         None \<Rightarrow> apply_implies is res
       | Some _ \<Rightarrow> obind (add_implied ks res) (apply_implies is))"

text \<open>The part of \<^verbatim>\<open>main()\<close> that works on the hash. The loop between the filter and the types only reports useless
  tags on standard error and is left out.\<close>

definition normalize :: "data_node \<Rightarrow> data_node outcome" where
  "normalize res =
     obind (filter_elems filter_out res) (\<lambda>r1. obind (check_normalize_types r1) (apply_implies implies))"

datatype cli_opt = Opt_h | Opt_I string | Opt_v | Opt_other

definition INCLUDE_PATH_MAX :: nat where "INCLUDE_PATH_MAX = 5"

definition help_text :: "string \<Rightarrow> string" where
  "help_text prgname =
     ''usage: '' @ prgname @ '' [-vh] input.c'' @ [LF, LF] @ ''-v sets verbose mode'' @ [LF] @
     ''-I add include path'' @ [LF] @ ''-h prints this help'' @ [LF, LF]"

text \<open>The options in the order \<^verbatim>\<open>getopt()\<close> returns them: the include paths, or the exit code and the output.\<close>

fun parse_options :: "string \<Rightarrow> cli_opt list \<Rightarrow> string list \<Rightarrow> (int \<times> string) + string list" where
  "parse_options prg [] paths = Inr paths"
| "parse_options prg (Opt_h # os) paths = Inl (0, help_text prg)"
| "parse_options prg (Opt_I d # os) paths =
     (if length paths \<ge> INCLUDE_PATH_MAX then Inl (1, []) else parse_options prg os (paths @ [d]))"
| "parse_options prg (Opt_v # os) paths = parse_options prg os paths"
| "parse_options prg (Opt_other # os) paths = parse_options prg os paths"

text \<open>The exit code and the text on standard output.\<close>

definition metaparse_main :: "env \<Rightarrow> string \<Rightarrow> cli_opt list \<Rightarrow> string list \<Rightarrow> (int \<times> string) run" where
  "metaparse_main e prg opts operands =
     (case parse_options prg opts [] of
        Inl r \<Rightarrow> Some (Ok r)
      | Inr paths \<Rightarrow>
          (case operands of
             [] \<Rightarrow> Some (Ok (1, []))
           | fname # _ \<Rightarrow>
               rbind (parse_file (e\<lparr>cmdline_includepath := paths\<rparr>) fname) (\<lambda>res. case res of
                   None \<Rightarrow> Some (Ok (0, []))
                 | Some r \<Rightarrow>
                     rbind (Some (normalize r)) (\<lambda>r2.
                       let r3 = snd (data_node_hash_add r2 ''fname'' (data_node_string fname)) in
                       Some (Ok (0, ''  '' @ [DQUOTE] @ strip_name fname @ [DQUOTE] @ '': '' @ data_to_json r3 2))))))"

end
