(* ===== verification/Data_Storage_Props.thy ===== *)
theory Data_Storage_Props
  imports Data_Storage "HOL-Library.Multiset"
begin

text \<open>
  A hash of \<^verbatim>\<open>metadata/data_storage.h\<close> whose keys are distinct is a map with room for \<^verbatim>\<open>MAX_ELEMS\<close> keys. The
  contract is the locale \<open>bounded_map\<close>; its clients are the steps of the metadata extractor that
  replace an element or add one if its key is missing.
\<close>

section \<open>The contract\<close>

locale bounded_map =
  fixes inv :: "'s \<Rightarrow> bool"
    and lookup :: "'s \<Rightarrow> 'k \<Rightarrow> 'v option"
    and insert_elem :: "'s \<Rightarrow> 'k \<Rightarrow> 'v \<Rightarrow> 's"
    and remove_elem :: "'s \<Rightarrow> 'k \<Rightarrow> 's"
    and used :: "'s \<Rightarrow> nat"
    and room :: nat
  assumes lookup_insert: "inv s \<Longrightarrow> lookup s k = None \<Longrightarrow> used s < room \<Longrightarrow>
      lookup (insert_elem s k v) = (lookup s)(k \<mapsto> v)"
    and used_insert: "inv s \<Longrightarrow> used s < room \<Longrightarrow> used (insert_elem s k v) = used s + 1"
    and inv_insert: "inv s \<Longrightarrow> lookup s k = None \<Longrightarrow> inv (insert_elem s k v)"
    and lookup_remove: "inv s \<Longrightarrow> lookup (remove_elem s k) = (lookup s)(k := None)"
    and used_remove: "inv s \<Longrightarrow> used (remove_elem s k) = (if lookup s k = None then used s else used s - 1)"
    and inv_remove: "inv s \<Longrightarrow> inv (remove_elem s k)"
    and used_room: "inv s \<Longrightarrow> used s \<le> room"
    and used_pos: "inv s \<Longrightarrow> lookup s k \<noteq> None \<Longrightarrow> 0 < used s"
begin

text \<open>A key that is present can be given a new value, even if no room is left.\<close>

lemma replace:
  assumes "inv s" "lookup s k \<noteq> None"
  shows "lookup (insert_elem (remove_elem s k) k v) = (lookup s)(k \<mapsto> v)"
    "inv (insert_elem (remove_elem s k) k v)" "used (insert_elem (remove_elem s k) k v) = used s"
proof -
  have r: "inv (remove_elem s k)" "lookup (remove_elem s k) = (lookup s)(k := None)"
    "used (remove_elem s k) = used s - 1"
    using assms by (auto simp: inv_remove lookup_remove used_remove)
  then have u: "used (remove_elem s k) < room"
    using used_room [OF assms(1)] used_pos [OF assms] by simp
  show "lookup (insert_elem (remove_elem s k) k v) = (lookup s)(k \<mapsto> v)"
    "inv (insert_elem (remove_elem s k) k v)" "used (insert_elem (remove_elem s k) k v) = used s"
    using r u used_pos [OF assms] by (simp_all add: lookup_insert inv_insert used_insert)
qed

text \<open>Adding a list of keys that are missing.\<close>

definition ensure :: "'v \<Rightarrow> 's \<Rightarrow> 'k \<Rightarrow> 's" where
  "ensure v s k = (if lookup s k = None then insert_elem s k v else s)"

lemma ensure_step:
  assumes "inv s" "used s < room"
  shows "inv (ensure v s k)" "used (ensure v s k) \<le> used s + 1"
    "lookup (ensure v s k) = (\<lambda>x. if x = k \<and> lookup s k = None then Some v else lookup s x)"
  using assms by (auto simp: ensure_def inv_insert used_insert lookup_insert)

lemma ensure_all:
  assumes "inv s" "used s + length ks \<le> room"
  shows "inv (foldl (ensure v) s ks) \<and> used (foldl (ensure v) s ks) \<le> used s + length ks \<and>
    (\<forall>x. lookup (foldl (ensure v) s ks) x =
      (if x \<in> set ks \<and> lookup s x = None then Some v else lookup s x))"
  using assms
proof (induction ks arbitrary: s)
  case (Cons k ks)
  let ?t = "ensure v s k"
  have t: "inv ?t" "used ?t \<le> used s + 1"
    "lookup ?t = (\<lambda>x. if x = k \<and> lookup s k = None then Some v else lookup s x)"
    using Cons.prems ensure_step [of s v k] by simp_all
  show ?case using Cons.IH [OF t(1)] t(2) Cons.prems(2) by (auto simp: t(3))
qed simp

text \<open>Removing a list of keys.\<close>

lemma remove_all:
  assumes "inv s"
  shows "inv (foldl remove_elem s ks) \<and> used (foldl remove_elem s ks) \<le> used s \<and>
    (\<forall>x. lookup (foldl remove_elem s ks) x = (if x \<in> set ks then None else lookup s x))"
  using assms
proof (induction ks arbitrary: s)
  case (Cons k ks)
  have "used (remove_elem s k) \<le> used s" using Cons.prems by (simp add: used_remove)
  then show ?case using Cons.IH [OF inv_remove [OF Cons.prems, of k]] Cons.prems
    by (auto simp: lookup_remove)
qed simp

end

section \<open>The hash\<close>

fun hash_elems :: "data_node \<Rightarrow> (string \<times> data_node) list" where
  "hash_elems (Node_Hash es) = es"
| "hash_elems _ = []"

fun hash_inv :: "data_node \<Rightarrow> bool" where
  "hash_inv (Node_Hash es) = (distinct (map fst es) \<and> length es \<le> MAX_ELEMS)"
| "hash_inv _ = False"

definition hash_lookup :: "data_node \<Rightarrow> string \<Rightarrow> data_node option" where
  "hash_lookup h k = (case data_node_hash_get h k of Ok r \<Rightarrow> r | _ \<Rightarrow> None)"

definition hash_insert :: "data_node \<Rightarrow> string \<Rightarrow> data_node \<Rightarrow> data_node" where
  "hash_insert h k v = snd (data_node_hash_add h k v)"

definition hash_remove :: "data_node \<Rightarrow> string \<Rightarrow> data_node" where
  "hash_remove h k = (case data_node_hash_del h k of Ok (_, h') \<Rightarrow> h' | _ \<Rightarrow> h)"

definition hash_used :: "data_node \<Rightarrow> nat" where
  "hash_used h = length (hash_elems h)"

lemma find_elem_map_of:
  "(find_elem es k \<ge> length es \<longleftrightarrow> map_of es k = None) \<and>
   (find_elem es k < length es \<longrightarrow> map_of es k = Some (snd (es ! find_elem es k)) \<and> fst (es ! find_elem es k) = k)"
  by (induction es) auto

lemma hash_lookup_map_of [simp]: "hash_lookup (Node_Hash es) = map_of es"
proof
  fix k show "hash_lookup (Node_Hash es) k = map_of es k"
    using find_elem_map_of [of es k] by (cases "length es \<le> find_elem es k") (simp_all add: hash_lookup_def Let_def)
qed

lemma move_last:
  assumes "i < length es"
  obtains x ys zs where "es = ys @ x # zs" "i = length ys"
    "set (butlast (es[i := last es])) = set ys \<union> set zs"
    "length (butlast (es[i := last es])) = length es - 1"
    "mset (butlast (es[i := last es])) = mset ys + mset zs"
proof -
  define ys zs where "ys = take i es" and "zs = drop (Suc i) es"
  have es: "es = ys @ es ! i # zs" and i: "i = length ys"
    using assms by (simp_all add: ys_def zs_def id_take_nth_drop)
  have b: "butlast (es[i := last es]) = (if zs = [] then ys else ys @ last zs # butlast zs)"
    by (subst (1 2) es) (simp add: i butlast_append)
  have m: "mset (butlast (es[i := last es])) = mset ys + mset zs"
    unfolding b by (cases zs rule: rev_cases) simp_all
  show thesis
  proof (rule that [OF es i _ _ m])
    show "set (butlast (es[i := last es])) = set ys \<union> set zs"
      using arg_cong [OF m, of set_mset] by simp
  qed simp
qed

lemma hash_remove_elems:
  assumes "distinct (map fst es)"
  shows "\<exists>es'. hash_remove (Node_Hash es) k = Node_Hash es' \<and> distinct (map fst es') \<and>
    map_of es' = (map_of es)(k := None) \<and> length es' = (if map_of es k = None then length es else length es - 1)"
proof (cases "find_elem es k < length es")
  case False
  then show ?thesis using assms find_elem_map_of [of es k]
    by (auto simp: hash_remove_def Let_def not_less fun_upd_idem)
next
  case True
  let ?es' = "butlast (es[find_elem es k := last es])"
  obtain x ys zs where s: "es = ys @ x # zs" "find_elem es k = length ys"
    "set ?es' = set ys \<union> set zs" "length ?es' = length es - 1" "mset ?es' = mset ys + mset zs"
    using move_last [OF True] by metis
  have "es ! find_elem es k = x" unfolding s(2) by (subst s(1)) simp
  then have x: "fst x = k" "map_of es k = Some (snd x)" using find_elem_map_of [of es k] True by auto
  have d2: "distinct (map fst (ys @ zs))" "k \<notin> fst ` set (ys @ zs)"
    using assms x(1) unfolding s(1) by auto
  have "mset (map fst ?es') = mset (map fst (ys @ zs))" using s(5) by simp
  then have d: "distinct (map fst ?es')" using d2(1) mset_eq_imp_distinct_iff by blast
  have "map_of ?es' = map_of (ys @ zs)"
    using d d2 s(3) by (subst map_of_inject_set) auto
  also have "\<dots> = (map_of es)(k := None)"
  proof
    fix y
    have "x = (k, snd x)" using x(1) by (cases x) simp
    then have m: "map_of es = (map_of zs)(k \<mapsto> snd x) ++ map_of ys"
      unfolding s(1) map_of_append by (metis map_of.simps(2) prod.sel(1))
    have "map_of (ys @ zs) k = None" using d2(2) by (auto simp: map_of_eq_None_iff)
    then show "map_of (ys @ zs) y = ((map_of es)(k := None)) y"
      unfolding m by (cases "y = k") (simp_all add: map_add_def split: option.split)
  qed
  finally show ?thesis using True d s(4) x(2) by (auto simp: hash_remove_def Let_def)
qed

interpretation hm: bounded_map hash_inv hash_lookup hash_insert hash_remove hash_used MAX_ELEMS
proof
  fix s k and v :: data_node
  assume inv: "hash_inv s"
  then obtain es where s: "s = Node_Hash es" "distinct (map fst es)" "length es \<le> MAX_ELEMS"
    by (cases s) auto
  obtain es' where r: "hash_remove s k = Node_Hash es'" "distinct (map fst es')"
    "map_of es' = (map_of es)(k := None)" "length es' = (if map_of es k = None then length es else length es - 1)"
    using hash_remove_elems [OF s(2)] s(1) by blast
  show "hash_inv (hash_remove s k)" using r s by (auto split: if_splits)
  show "hash_lookup (hash_remove s k) = (hash_lookup s)(k := None)" using r s by simp
  show "hash_used (hash_remove s k) = (if hash_lookup s k = None then hash_used s else hash_used s - 1)"
    using r(1,4) s(1) by (auto simp: hash_used_def)
  show "hash_used s \<le> MAX_ELEMS" using s by (simp add: hash_used_def)
  show "0 < hash_used s" if "hash_lookup s k \<noteq> None" using that s by (cases es) (auto simp: hash_used_def)
  show "hash_used (hash_insert s k v) = hash_used s + 1" if "hash_used s < MAX_ELEMS"
    using that s by (simp add: hash_used_def hash_insert_def)
  show "hash_inv (hash_insert s k v)" if "hash_lookup s k = None"
    using that s by (auto simp: hash_insert_def map_of_eq_None_iff)
  show "hash_lookup (hash_insert s k v) = (hash_lookup s)(k \<mapsto> v)"
    if "hash_lookup s k = None" "hash_used s < MAX_ELEMS"
    using that s by (auto simp: hash_insert_def hash_used_def map_add_def fun_eq_iff split: option.splits)
qed

section \<open>Properties\<close>

text \<open>
  C13: a hash with distinct keys implements a map. \<^verbatim>\<open>data_node_hash_get()\<close> looks the key up,
  \<^verbatim>\<open>data_node_hash_del()\<close> removes it and says whether it was there, although it moves the last element into
  the free cell, and \<^verbatim>\<open>data_node_hash_add()\<close> of a new key adds it, or fails and changes nothing if all cells
  are in use. The keys stay distinct.
\<close>
theorem hash_refines_map:
  assumes "distinct (map fst es)" "length es \<le> MAX_ELEMS"
  shows "data_node_hash_get (Node_Hash es) k = Ok (map_of es k) \<and>
    (\<exists>es'. data_node_hash_del (Node_Hash es) k = Ok (if k \<in> fst ` set es then 1 else 0, Node_Hash es') \<and>
      distinct (map fst es') \<and> map_of es' = (map_of es)(k := None)) \<and>
    (k \<notin> fst ` set es \<longrightarrow>
      data_node_hash_add (Node_Hash es) k v =
        (if length es < MAX_ELEMS then (0, Node_Hash (es @ [(k, v)])) else (1, Node_Hash es)) \<and>
      distinct (map fst (es @ [(k, v)])) \<and> map_of (es @ [(k, v)]) = (map_of es)(k \<mapsto> v))"
proof (intro conjI impI)
  show "data_node_hash_get (Node_Hash es) k = Ok (map_of es k)"
    using find_elem_map_of [of es k] by (cases "length es \<le> find_elem es k") (simp_all add: Let_def)
  have c: "length es \<le> find_elem es k \<longleftrightarrow> k \<notin> fst ` set es"
    using find_elem_map_of [of es k] map_of_eq_None_iff [of es k] by argo
  obtain es' where r: "hash_remove (Node_Hash es) k = Node_Hash es'" "distinct (map fst es')"
    "map_of es' = (map_of es)(k := None)"
    using hash_remove_elems [OF assms(1)] by blast
  have "data_node_hash_del (Node_Hash es) k = Ok (if k \<in> fst ` set es then 1 else 0, Node_Hash es')"
    using r(1) c by (cases "k \<in> fst ` set es") (simp_all add: hash_remove_def Let_def)
  then show "\<exists>es'. data_node_hash_del (Node_Hash es) k = Ok (if k \<in> fst ` set es then 1 else 0, Node_Hash es') \<and>
      distinct (map fst es') \<and> map_of es' = (map_of es)(k := None)" using r by blast
next
  assume k: "k \<notin> fst ` set es"
  show "data_node_hash_add (Node_Hash es) k v =
        (if length es < MAX_ELEMS then (0, Node_Hash (es @ [(k, v)])) else (1, Node_Hash es))"
    using assms(2) by auto
  show "distinct (map fst (es @ [(k, v)]))" using k assms(1) by auto
  have "map_of es k = None" using k by (simp add: map_of_eq_None_iff)
  then show "map_of (es @ [(k, v)]) = (map_of es)(k \<mapsto> v)"
    by (auto simp: map_add_def fun_eq_iff split: option.splits)
qed

theorem hash_refines_map_witness:
  "data_node_hash_get (Node_Hash [(''a'', Node_Int 1), (''b'', Node_Int 2)]) ''a'' =
      Ok (map_of [(''a'', Node_Int 1), (''b'', Node_Int 2)] ''a'') \<and>
    (\<exists>es'. data_node_hash_del (Node_Hash [(''a'', Node_Int 1), (''b'', Node_Int 2)]) ''a'' = Ok (1, Node_Hash es') \<and>
      map_of es' = (map_of [(''a'', Node_Int 1), (''b'', Node_Int 2)])(''a'' := None))"
  using hash_refines_map [of "[(''a'', Node_Int 1), (''b'', Node_Int 2)]" "''a''"] by (auto simp: MAX_ELEMS_def)

end
