(* ===== verification/Metaparse_Norm.thy ===== *)
theory Metaparse_Norm
  imports Metaparse Data_Storage_Props
begin

text \<open>
  The steps of \<^verbatim>\<open>main()\<close> of \<^verbatim>\<open>metadata/metaparse.c\<close> on the hash, over the map contract of the hash: the
  useless members go, \<^verbatim>\<open>test_variants\<close> becomes a number, and the flags that other flags imply are added.
\<close>

section \<open>The operations of the hash as map operations\<close>

lemma hash_inv_ops:
  assumes "hash_inv h"
  shows "data_node_hash_get h k = Ok (hash_lookup h k)"
    "\<exists>c. data_node_hash_del h k = Ok (c, hash_remove h k)"
proof -
  obtain es where h: "h = Node_Hash es" using assms by (cases h) auto
  show "data_node_hash_get h k = Ok (hash_lookup h k)" by (auto simp: h hash_lookup_def Let_def simp del: hash_lookup_map_of)
  show "\<exists>c. data_node_hash_del h k = Ok (c, hash_remove h k)" by (auto simp: h hash_remove_def Let_def)
qed

lemma filter_elems_foldl: "hash_inv h \<Longrightarrow> filter_elems ks h = Ok (foldl hash_remove h ks)"
proof (induction ks arbitrary: h)
  case (Cons k ks)
  obtain c where c: "data_node_hash_del h k = Ok (c, hash_remove h k)"
    using hash_inv_ops(2) [OF Cons.prems] by blast
  show ?case using Cons.IH [OF hm.inv_remove [OF Cons.prems, of k]] by (simp add: c)
qed simp

lemma add_implied_foldl:
  "hash_inv h \<Longrightarrow> hash_used h + length ks \<le> MAX_ELEMS \<Longrightarrow>
    add_implied ks h = Ok (foldl (hm.ensure (data_node_string ''1'')) h ks)"
proof (induction ks arbitrary: h)
  case (Cons k ks)
  let ?v = "data_node_string ''1''"
  note e = hm.ensure_step [OF Cons.prems(1), of ?v k]
  have "add_implied ks (hm.ensure ?v h k) = Ok (foldl (hm.ensure ?v) (hm.ensure ?v h k) ks)"
    using Cons.prems e by (intro Cons.IH) auto
  moreover have "hm.ensure ?v h k = (if hash_lookup h k = None then snd (data_node_hash_add h k ?v) else h)"
    by (simp add: hm.ensure_def hash_insert_def)
  ultimately show ?case by (auto simp: hash_inv_ops(1) [OF Cons.prems(1)] split: option.splits)
qed simp

section \<open>Types\<close>

text \<open>What the value of \<^verbatim>\<open>test_variants\<close> becomes; \<open>None\<close> if it cannot be a number.\<close>

definition as_int :: "data_node \<Rightarrow> data_node option" where
  "as_int n = (case n of
     Node_Int i \<Rightarrow> Some n
   | Node_String s \<Rightarrow> (case strtol10 s of (v, rest, err) \<Rightarrow> if err \<or> rest \<noteq> [] then None else Some (Node_Int v))
   | _ \<Rightarrow> None)"

lemma check_types_eq:
  assumes "hash_inv h"
  shows "case hash_lookup h ''test_variants'' of
      None \<Rightarrow> check_normalize_types h = Ok h
    | Some n \<Rightarrow> (case as_int n of
        None \<Rightarrow> \<exists>msg. check_normalize_types h = Brk (1, msg)
      | Some m \<Rightarrow> \<exists>h'. check_normalize_types h = Ok h' \<and> hash_inv h' \<and> hash_used h' = hash_used h \<and>
          hash_lookup h' = (hash_lookup h)(''test_variants'' \<mapsto> m))"
proof -
  let ?k = "''test_variants''"
  obtain c where c: "data_node_hash_del h ?k = Ok (c, hash_remove h ?k)"
    using hash_inv_ops(2) [OF assms] by blast
  have r: "hash_lookup (hash_insert (hash_remove h ?k) ?k v) = (hash_lookup h)(?k \<mapsto> v)"
    "hash_inv (hash_insert (hash_remove h ?k) ?k v)"
    "hash_used (hash_insert (hash_remove h ?k) ?k v) = hash_used h" if "hash_lookup h ?k \<noteq> None" for v
    using hm.replace [OF assms that] by auto
  show ?thesis
  proof (cases "hash_lookup h ?k")
    case None
    then show ?thesis using hash_inv_ops(1) [OF assms] by (simp add: check_normalize_types_def tst_test_typemap_def)
  next
    case (Some n)
    note g = hash_inv_ops(1) [OF assms, of ?k, unfolded Some]
    note rs = r [unfolded Some, simplified]
    show ?thesis
    proof (cases n)
      case (Node_String s)
      then show ?thesis using Some g rs
        by (auto simp: check_normalize_types_def tst_test_typemap_def as_int_def convert_str2int_def c
            hash_insert_def [symmetric] data_node_int_def split: prod.splits)
    next
      case (Node_Int i)
      then show ?thesis using Some g assms
        by (auto simp: check_normalize_types_def tst_test_typemap_def as_int_def fun_upd_idem)
    qed (use Some g in \<open>auto simp: check_normalize_types_def tst_test_typemap_def as_int_def\<close>)
  qed
qed

section \<open>Implied flags\<close>

text \<open>A table whose rows add no flag of their own or an earlier row closes the hash in one pass.\<close>

fun rows_ordered :: "(string \<times> string list) list \<Rightarrow> bool" where
  "rows_ordered [] = True"
| "rows_ordered ((flag, ks) # is) = (flag \<notin> set ks \<and> (\<forall>(g, ls) \<in> set is. flag \<notin> set ls) \<and> rows_ordered is)"

definition closed_under :: "(string \<times> string list) list \<Rightarrow> data_node \<Rightarrow> bool" where
  "closed_under is h = (\<forall>(flag, ks) \<in> set is. hash_lookup h flag \<noteq> None \<longrightarrow> (\<forall>k \<in> set ks. hash_lookup h k \<noteq> None))"

text \<open>The flags that follow from the flags in \<open>S\<close>, in any number of steps.\<close>

inductive implied :: "(string \<times> string list) list \<Rightarrow> string set \<Rightarrow> string \<Rightarrow> bool" for tab S where
  Given: "k \<in> S \<Longrightarrow> implied tab S k"
| Row: "implied tab S flag \<Longrightarrow> (flag, ks) \<in> set tab \<Longrightarrow> k \<in> set ks \<Longrightarrow> implied tab S k"

lemma implied_trans:
  "implied tab S k \<Longrightarrow> set tab \<subseteq> set tab' \<Longrightarrow> (\<And>x. x \<in> S \<Longrightarrow> implied tab' T x) \<Longrightarrow> implied tab' T k"
  by (induction rule: implied.induct) (auto intro: implied.intros)

lemma implied_closed:
  "implied tab S k \<Longrightarrow> closed_under tab h \<Longrightarrow> (\<And>x. x \<in> S \<Longrightarrow> hash_lookup h x \<noteq> None) \<Longrightarrow> hash_lookup h k \<noteq> None"
  by (induction rule: implied.induct) (auto simp: closed_under_def)

definition row_room :: "(string \<times> string list) list \<Rightarrow> nat" where
  "row_room is = sum_list (map (\<lambda>(flag, ks). length ks) is)"

lemma apply_implies_closed:
  assumes "hash_inv h" "hash_used h + row_room is \<le> MAX_ELEMS" "rows_ordered is"
  shows "\<exists>h'. apply_implies is h = Ok h' \<and> hash_inv h' \<and> closed_under is h' \<and>
    (\<forall>x. hash_lookup h x \<noteq> None \<longrightarrow> hash_lookup h' x = hash_lookup h x) \<and>
    (\<forall>x. hash_lookup h x = None \<longrightarrow> hash_lookup h' x \<noteq> None \<longrightarrow>
      hash_lookup h' x = Some (Node_String ''1'') \<and> (\<exists>(g, ls) \<in> set is. x \<in> set ls) \<and>
      implied is (dom (hash_lookup h)) x)"
  using assms
proof (induction "is" arbitrary: h)
  case Nil
  then show ?case by (simp add: closed_under_def)
next
  case (Cons row rows)
  obtain flag ks where row: "row = (flag, ks)" by (cases row)
  have ord: "flag \<notin> set ks" "\<forall>(g, ls) \<in> set rows. flag \<notin> set ls" "rows_ordered rows"
    using Cons.prems(3) row by auto
  define v where "v = data_node_string ''1''"
  define h1 where "h1 = (if hash_lookup h flag = None then h else foldl (hm.ensure v) h ks)"
  have en: "hash_inv (foldl (hm.ensure v) h ks) \<and> hash_used (foldl (hm.ensure v) h ks) \<le> hash_used h + length ks \<and>
    (\<forall>x. hash_lookup (foldl (hm.ensure v) h ks) x = (if x \<in> set ks \<and> hash_lookup h x = None then Some v else hash_lookup h x))"
    using Cons.prems row by (intro hm.ensure_all) (auto simp: row_room_def)
  have h1: "hash_inv h1" "hash_used h1 + row_room rows \<le> MAX_ELEMS"
    "hash_lookup h1 x = (if hash_lookup h flag \<noteq> None \<and> x \<in> set ks \<and> hash_lookup h x = None then Some v else hash_lookup h x)" for x
    using en Cons.prems row by (auto simp: h1_def row_room_def)
  have step: "apply_implies (row # rows) h = apply_implies rows h1"
    using hash_inv_ops(1) [OF Cons.prems(1), of flag] add_implied_foldl [OF Cons.prems(1), of ks] Cons.prems(2) row
    by (auto simp: h1_def v_def row_room_def split: option.splits)
  from Cons.IH [OF h1(1,2) ord(3)] obtain h' where h': "apply_implies rows h1 = Ok h'" "hash_inv h'" "closed_under rows h'"
    "\<And>x. hash_lookup h1 x \<noteq> None \<Longrightarrow> hash_lookup h' x = hash_lookup h1 x"
    "\<And>x. hash_lookup h1 x = None \<Longrightarrow> hash_lookup h' x \<noteq> None \<Longrightarrow>
      hash_lookup h' x = Some (Node_String ''1'') \<and> (\<exists>(g, ls) \<in> set rows. x \<in> set ls) \<and>
      implied rows (dom (hash_lookup h1)) x"
    by blast
  have im1: "implied (row # rows) (dom (hash_lookup h)) x" if "x \<in> dom (hash_lookup h1)" for x
  proof (cases "hash_lookup h x = None")
    case True
    then have x: "flag \<in> dom (hash_lookup h)" "x \<in> set ks" using that h1(3) [of x] by (auto split: if_splits)
    show ?thesis by (rule Row [OF Given [OF x(1)] _ x(2)]) (simp add: row)
  qed (auto intro: Given)
  have im: "implied (row # rows) (dom (hash_lookup h)) x" if "implied rows (dom (hash_lookup h1)) x" for x
    by (rule implied_trans [OF that _ im1]) auto
  have new_flag: "hash_lookup h' flag \<noteq> None \<Longrightarrow> hash_lookup h flag \<noteq> None"
    using h'(5) [of flag] h1(3) [of flag] ord by (auto split: if_splits)
  have "hash_lookup h' k \<noteq> None" if "hash_lookup h' flag \<noteq> None" "k \<in> set ks" for k
    using new_flag [OF that(1)] that(2) h1(3) [of k] h'(4) [of k] by auto
  then have cl: "closed_under (row # rows) h'" using h'(3) row by (auto simp: closed_under_def)
  have keep: "hash_lookup h' x = hash_lookup h x" if "hash_lookup h x \<noteq> None" for x
    using that h1(3) [of x] h'(4) [of x] by auto
  have by_rows: "implied (row # rows) (dom (hash_lookup h)) x" if "hash_lookup h' x \<noteq> None" for x
    using im [of x] im1 [of x] h'(5) [OF _ that] by (cases "hash_lookup h1 x = None") (simp_all add: domIff)
  have one: "hash_lookup h' x = Some (Node_String ''1'') \<and> (\<exists>(g, ls) \<in> set (row # rows). x \<in> set ls)"
    if "hash_lookup h x = None" "hash_lookup h' x \<noteq> None" for x
    using that h1(3) [of x] h'(4) [of x] h'(5) [of x] row
    by (cases "hash_lookup h1 x = None") (auto simp: v_def data_node_string_def split: if_splits)
  have "apply_implies (row # rows) h = Ok h'" using step h'(1) by simp
  then show ?case using h'(2) cl keep one by_rows by (intro exI [of _ h'] conjI allI impI) simp_all
qed

section \<open>Properties\<close>

lemma implies_ordered: "rows_ordered implies" "row_room implies = 10"
  by (simp_all add: implies_def row_room_def)

lemma filtered:
  assumes "hash_inv h"
  obtains r where "filter_elems filter_out h = Ok r" "hash_inv r" "hash_used r \<le> hash_used h"
    "\<And>x. hash_lookup r x = (if x \<in> set filter_out then None else hash_lookup h x)"
  using filter_elems_foldl [OF assms] hm.remove_all [OF assms, of filter_out] by metis

lemma implies_props:
  assumes "hash_inv h" "hash_used h + 10 \<le> MAX_ELEMS"
  obtains r where "apply_implies implies h = Ok r" "hash_inv r"
    "\<And>x. hash_lookup h x \<noteq> None \<Longrightarrow> hash_lookup r x = hash_lookup h x"
    "\<And>x. hash_lookup h x = None \<Longrightarrow> hash_lookup r x \<noteq> None \<Longrightarrow>
      x \<in> {''format_device'', ''needs_device'', ''needs_tmpdir''}"
    "\<And>x. hash_lookup h x = None \<Longrightarrow>
      hash_lookup r x = (if implied implies (dom (hash_lookup h)) x then Some (Node_String ''1'') else None)"
proof -
  have t: "x \<in> {''format_device'', ''needs_device'', ''needs_tmpdir''}" if "\<exists>(g, ls) \<in> set implies. x \<in> set ls" for x
    using that by (auto simp: implies_def)
  have "hash_used h + row_room implies \<le> MAX_ELEMS" using assms(2) by (simp add: implies_ordered)
  from apply_implies_closed [OF assms(1) this implies_ordered(1)]
  obtain r where r: "apply_implies implies h = Ok r" "hash_inv r" "closed_under implies r"
    "\<And>x. hash_lookup h x \<noteq> None \<Longrightarrow> hash_lookup r x = hash_lookup h x"
    "\<And>x. hash_lookup h x = None \<Longrightarrow> hash_lookup r x \<noteq> None \<Longrightarrow> hash_lookup r x = Some (Node_String ''1'') \<and>
      (\<exists>(g, ls) \<in> set implies. x \<in> set ls) \<and> implied implies (dom (hash_lookup h)) x"
    by blast
  have all: "hash_lookup r x \<noteq> None" if "implied implies (dom (hash_lookup h)) x" for x
    using that r(3) by (rule implied_closed) (use r(4) in auto)
  have new: "hash_lookup r x = (if implied implies (dom (hash_lookup h)) x then Some (Node_String ''1'') else None)"
    if "hash_lookup h x = None" for x
    using r(5) [OF that] all [of x] by (cases "hash_lookup r x = None") auto
  show thesis by (rule that [OF r(1,2,4) _ new]) (use r(5) t in blast)+
qed

text \<open>
  C10: after the normalisation of a hash with distinct keys the member \<^verbatim>\<open>test_variants\<close> is missing or a
  number: a number stays, a string that \<^verbatim>\<open>strtol()\<close> reads to its end becomes its value, and everything else
  ends the program with exit code 1. Nothing else can end it.
\<close>
theorem normalize_types:
  assumes "hash_inv h" "hash_used h + 10 \<le> MAX_ELEMS"
  shows "case hash_lookup h ''test_variants'' of
      None \<Rightarrow> \<exists>r. normalize h = Ok r \<and> hash_lookup r ''test_variants'' = None
    | Some n \<Rightarrow> (case as_int n of
        None \<Rightarrow> \<exists>msg. normalize h = Brk (1, msg)
      | Some m \<Rightarrow> \<exists>r. normalize h = Ok r \<and> hash_lookup r ''test_variants'' = Some m)"
proof -
  obtain f where f: "filter_elems filter_out h = Ok f" "hash_inv f" "hash_used f \<le> hash_used h"
    "\<And>x. hash_lookup f x = (if x \<in> set filter_out then None else hash_lookup h x)"
    using filtered [OF assms(1)] by blast
  have tv: "hash_lookup f ''test_variants'' = hash_lookup h ''test_variants''" by (simp add: f(4) filter_out_def)
  note ct = check_types_eq [OF f(2), unfolded tv]
  have fin: "\<exists>r. apply_implies implies g = Ok r \<and> hash_lookup r ''test_variants'' = hash_lookup g ''test_variants''"
    if g: "hash_inv g" "hash_used g = hash_used f" for g
  proof -
    have "hash_used g + 10 \<le> MAX_ELEMS" using g(2) f(3) assms(2) by simp
    then obtain r where r: "apply_implies implies g = Ok r" "hash_inv r"
      "\<And>x. hash_lookup g x \<noteq> None \<Longrightarrow> hash_lookup r x = hash_lookup g x"
      "\<And>x. hash_lookup g x = None \<Longrightarrow> hash_lookup r x \<noteq> None \<Longrightarrow>
        x \<in> {''format_device'', ''needs_device'', ''needs_tmpdir''}"
      by (rule implies_props [OF g(1)]) blast
    have "hash_lookup r ''test_variants'' = hash_lookup g ''test_variants''"
      using r(3) [of "''test_variants''"] r(4) [of "''test_variants''"]
      by (cases "hash_lookup g ''test_variants''"; cases "hash_lookup r ''test_variants''") simp_all
    then show ?thesis using r(1) by blast
  qed
  show ?thesis
  proof (cases "hash_lookup h ''test_variants''")
    case None
    then have "normalize h = apply_implies implies f" using ct f(1) by (simp add: normalize_def)
    then show ?thesis using fin [OF f(2) refl] None tv by simp
  next
    case (Some n)
    show ?thesis
    proof (cases "as_int n")
      case None
      then obtain msg where "check_normalize_types f = Brk (1, msg)" using ct Some by auto
      then have "normalize h = Brk (1, msg)" using f(1) by (simp add: normalize_def)
      then show ?thesis using Some None by simp
    next
      case m: (Some m)
      then obtain g where g: "check_normalize_types f = Ok g" "hash_inv g" "hash_used g = hash_used f"
        "hash_lookup g ''test_variants'' = Some m"
        using ct Some by auto
      have "normalize h = apply_implies implies g" using g(1) f(1) by (simp add: normalize_def)
      then show ?thesis using fin [OF g(2,3)] g(4) Some m by simp
    qed
  qed
qed

definition sample_hash :: data_node where
  "sample_hash = Node_Hash [(''test_variants'', Node_String ''12''), (''setup'', Node_String ''setup''),
     (''mount_device'', Node_String ''1'')]"

theorem normalize_types_witness:
  "case hash_lookup sample_hash ''test_variants'' of
      None \<Rightarrow> \<exists>r. normalize sample_hash = Ok r \<and> hash_lookup r ''test_variants'' = None
    | Some n \<Rightarrow> (case as_int n of
        None \<Rightarrow> \<exists>msg. normalize sample_hash = Brk (1, msg)
      | Some m \<Rightarrow> \<exists>r. normalize sample_hash = Ok r \<and> hash_lookup r ''test_variants'' = Some m)"
  by (rule normalize_types) (simp_all add: sample_hash_def hash_used_def MAX_ELEMS_def)





end
