(* ===== verification/Metaparse_Print.thy ===== *)
theory Metaparse_Print
  imports Metaparse
begin

text \<open>
  The extractor reads back what a test writes. A test source is a list of macros and a test structure
  whose members are words, strings and nested arrays, with or without a cast in front; it is printed
  in C and \<^verbatim>\<open>parse_file()\<close> returns its members.
\<close>

section \<open>Reading tokens\<close>

definition word_ok :: "string \<Rightarrow> bool" where
  "word_ok w = (w \<noteq> [] \<and> list_all is_word w \<and> length w < ID_BUF)"

definition str_ok :: "string \<Rightarrow> bool" where
  "str_ok s = (list_all (\<lambda>c. c \<noteq> DQUOTE \<and> c \<noteq> BACKSLASH \<and> c \<noteq> NUL) s \<and> length s < ID_BUF)"

lemma is_word_facts:
  assumes "is_word c"
  shows "\<not> is_punct c" "c \<noteq> NUL" "\<not> isspace c" "c \<noteq> CHR '' ''" "c \<noteq> LF" "c \<noteq> CHR 0x09" "c \<noteq> BACKSLASH" "c \<noteq> DQUOTE"
  using assms
  by (auto simp: is_word_def is_punct_def isalnum_def isdigit_def isupper_def islower_def isspace_def)

lemma cstr_id: "list_all (\<lambda>c. c \<noteq> NUL) s \<Longrightarrow> cstr s = s"
  by (simp add: cstr_def list_all_iff)

lemma word_loop:
  "list_all is_word w \<Longrightarrow> length buf + length w \<le> n \<Longrightarrow>
    token_loop n (w @ f) doc buf False = token_loop n f doc (buf @ w) False"
  by (induction w arbitrary: buf) (auto simp: is_word_facts)

lemma string_loop:
  "list_all (\<lambda>c. c \<noteq> DQUOTE \<and> c \<noteq> BACKSLASH \<and> c \<noteq> NUL) s \<Longrightarrow> length buf + length s < n \<Longrightarrow>
    buf = [] \<or> last buf \<noteq> BACKSLASH \<Longrightarrow>
    token_loop n (s @ DQUOTE # f) doc buf True = token_exit n (buf @ s) True f doc"
  by (induction s arbitrary: buf) auto

lemma next_word_space:
  assumes "word_ok w" shows "next_token (w @ CHR '' '' # f) doc = Some (Ok (Some w, f, doc))"
proof -
  have w: "list_all is_word w" "w \<noteq> []" "length w < TOKEN_BUF"
    using assms by (auto simp: word_ok_def ID_BUF_def TOKEN_BUF_def)
  have c: "cstr w = w" using w(1) by (intro cstr_id) (auto simp: list_all_iff is_word_facts)
  have "\<not> is_punct (CHR '' '')" "\<not> is_word (CHR '' '')"
    by (simp_all add: is_punct_def is_word_def isalnum_def isdigit_def isupper_def islower_def)
  then show ?thesis using w c word_loop [OF w(1), of "[]" TOKEN_BUF "CHR '' '' # f" doc]
    by (simp add: next_token_def next_token2_def token_exit_def)
qed

lemma next_punct: "is_punct c \<Longrightarrow> next_token (c # f) doc = Some (Ok (Some [c], f, doc))"
  by (auto simp: next_token_def next_token2_def token_exit_def TOKEN_BUF_def cstr_def is_punct_def)

lemma next_string:
  assumes "str_ok s" shows "next_token (DQUOTE # s @ DQUOTE # f) doc = Some (Ok (Some s, f, doc))"
proof -
  have s: "list_all (\<lambda>c. c \<noteq> DQUOTE \<and> c \<noteq> BACKSLASH \<and> c \<noteq> NUL) s" "length s < TOKEN_BUF"
    using assms by (auto simp: str_ok_def ID_BUF_def TOKEN_BUF_def)
  have c: "cstr s = s" using s(1) by (intro cstr_id) (simp add: list_all_iff)
  have "\<not> is_punct DQUOTE" "\<not> is_word DQUOTE"
    by (simp_all add: is_punct_def is_word_def isalnum_def isdigit_def isupper_def islower_def)
  then show ?thesis using s c string_loop [OF s(1), of "[]" TOKEN_BUF f doc]
    by (simp add: next_token_def next_token2_def token_exit_def)
qed

lemma next_skip: "c = CHR '' '' \<or> c = LF \<Longrightarrow> next_token (c # f) doc = next_token f doc"
  by (auto simp: next_token_def next_token2_def is_punct_def is_word_def isalnum_def isdigit_def isupper_def islower_def)

lemma next_end: "next_token [] doc = Some (Ok (None, [], doc))"
  by (simp add: next_token_def next_token2_def token_exit_def)

section \<open>The fuel of parse-array is enough\<close>

lemma parse_array_fuel:
  "length f < m \<Longrightarrow> length f < n \<Longrightarrow> parse_array m f node = parse_array n f node"
proof (induction "length f" arbitrary: f m n node rule: less_induct)
  case less
  obtain m' n' where mn: "m = Suc m'" "n = Suc n'" using less.prems by (cases m; cases n) auto
  have IH: "parse_array m' g nd = parse_array n' g nd" if "length g < length f" for g nd
    using less.hyps [OF that, of m' n' nd] that less.prems mn by simp
  show ?case
    unfolding mn parse_array.simps
  proof (rule rbind_cong [OF refl], clarify)
    fix t g d assume t: "next_token f None = Some (Ok (t, g, d))"
    show "(case t of None \<Rightarrow> Some (Ok (1, g, node))
       | Some t \<Rightarrow> if t = ''{'' then
             rbind (parse_array m' g data_node_array) (\<lambda>(_, f'', ret).
               parse_array m' f'' (if data_node_array_len ret \<noteq> 0 then snd (data_node_array_add node ret) else node))
           else if t = ''}'' then Some (Ok (0, g, node))
           else if t = '','' then parse_array m' g node
           else if t = ''NULL'' then parse_array m' g node
           else parse_array m' g (snd (data_node_array_add node (data_node_string t)))) =
      (case t of None \<Rightarrow> Some (Ok (1, g, node))
       | Some t \<Rightarrow> if t = ''{'' then
             rbind (parse_array n' g data_node_array) (\<lambda>(_, f'', ret).
               parse_array n' f'' (if data_node_array_len ret \<noteq> 0 then snd (data_node_array_add node ret) else node))
           else if t = ''}'' then Some (Ok (0, g, node))
           else if t = '','' then parse_array n' g node
           else if t = ''NULL'' then parse_array n' g node
           else parse_array n' g (snd (data_node_array_add node (data_node_string t))))"
    proof (cases t)
      case (Some x)
      have g: "length g < length f" using next_token_shorter t Some by blast
      have nest: "rbind (parse_array m' g data_node_array) (\<lambda>(_, f'', ret).
            parse_array m' f'' (if data_node_array_len ret \<noteq> 0 then snd (data_node_array_add node ret) else node)) =
          rbind (parse_array n' g data_node_array) (\<lambda>(_, f'', ret).
            parse_array n' f'' (if data_node_array_len ret \<noteq> 0 then snd (data_node_array_add node ret) else node))"
        by (rule rbind_cong [OF IH [OF g]]) (use IH g in \<open>auto dest!: parse_array_length\<close>)
      show ?thesis using Some nest IH [OF g] by simp
    qed simp
  qed
qed

text \<open>The parser without fuel.\<close>

definition parse_arr :: "stream \<Rightarrow> data_node \<Rightarrow> (int \<times> stream \<times> data_node) run" where
  "parse_arr f node = parse_array (Suc (length f)) f node"

lemma parse_arr_length: "parse_arr f node = Some (Ok (r, f', n)) \<Longrightarrow> length f' \<le> length f"
  unfolding parse_arr_def by (rule parse_array_length)

lemma parse_arr_token:
  assumes "next_token f None = Some (Ok (Some t, g, d))"
  shows "parse_arr f node =
     (if t = ''{'' then
        rbind (parse_arr g data_node_array) (\<lambda>(_, f'', ret).
          parse_arr f'' (if data_node_array_len ret \<noteq> 0 then snd (data_node_array_add node ret) else node))
      else if t = ''}'' then Some (Ok (0, g, node))
      else if t = '','' then parse_arr g node
      else if t = ''NULL'' then parse_arr g node
      else parse_arr g (snd (data_node_array_add node (data_node_string t))))"
proof -
  have g: "length g < length f" using next_token_shorter [OF assms] .
  have eq: "parse_array (length f) h nd = parse_arr h nd" if "length h \<le> length g" for h nd
    unfolding parse_arr_def using that g by (intro parse_array_fuel) auto
  have nest: "rbind (parse_array (length f) g data_node_array) (\<lambda>(_, f'', ret).
          parse_array (length f) f'' (if data_node_array_len ret \<noteq> 0 then snd (data_node_array_add node ret) else node)) =
      rbind (parse_arr g data_node_array) (\<lambda>(_, f'', ret).
          parse_arr f'' (if data_node_array_len ret \<noteq> 0 then snd (data_node_array_add node ret) else node))"
    by (rule rbind_cong [OF eq]) (use eq in \<open>auto dest!: parse_arr_length\<close>)
  show ?thesis unfolding parse_arr_def [of f] parse_array.simps assms rbind.simps prod.case option.case
    using eq [of g] nest by simp
qed

section \<open>Values\<close>

datatype src_val = V_Word string | V_Str string | V_Arr "src_val list"

fun print_val :: "src_val \<Rightarrow> string"
  and print_vals :: "src_val list \<Rightarrow> string" where
  "print_val (V_Word w) = w @ '' ''"
| "print_val (V_Str s) = [DQUOTE] @ s @ [DQUOTE]"
| "print_val (V_Arr vs) = ''{'' @ print_vals vs @ ''}''"
| "print_vals [] = []"
| "print_vals (v # vs) = print_val v @ '','' @ print_vals vs"

text \<open>The text of a string is compared with the special tokens, so it must not be one of them.\<close>

fun val_ok :: "src_val \<Rightarrow> bool" where
  "val_ok (V_Word w) = word_ok w"
| "val_ok (V_Str s) = (str_ok s \<and> s \<notin> {''{'', ''}'', '',''})"
| "val_ok (V_Arr vs) = list_all val_ok vs"

text \<open>What an element of an array contributes: \<^verbatim>\<open>NULL\<close> and empty arrays nothing.\<close>

fun val_nodes :: "src_val \<Rightarrow> data_node list" where
  "val_nodes (V_Word w) = (if w = ''NULL'' then [] else [Node_String w])"
| "val_nodes (V_Str s) = (if s = ''NULL'' then [] else [Node_String s])"
| "val_nodes (V_Arr vs) =
     (let ns = take MAX_ELEMS (concat (map val_nodes vs)) in if ns = [] then [] else [Node_Array ns])"

lemma word_not_punct: "word_ok w \<Longrightarrow> is_punct c \<Longrightarrow> w \<noteq> [c]"
  by (auto simp: word_ok_def is_word_facts)

lemma add_take:
  assumes "length xs \<le> MAX_ELEMS"
  shows "snd (data_node_array_add (Node_Array xs) n) = Node_Array (take MAX_ELEMS (xs @ [n]))"
  using assms by auto

lemma take_take_append: "take n (take n (xs @ ys) @ zs) = take n (xs @ ys @ zs)"
  by (cases "length xs + length ys \<le> n") (simp_all add: min_def)

lemma print_parse:
  "val_ok v \<Longrightarrow> length xs \<le> MAX_ELEMS \<Longrightarrow>
    parse_arr (print_val v @ f) (Node_Array xs) = parse_arr f (Node_Array (take MAX_ELEMS (xs @ val_nodes v)))"
  "list_all val_ok vs \<Longrightarrow> length xs \<le> MAX_ELEMS \<Longrightarrow>
    parse_arr (print_vals vs @ CHR ''}'' # f) (Node_Array xs) =
      Some (Ok (0, f, Node_Array (take MAX_ELEMS (xs @ concat (map val_nodes vs)))))"
proof (induction v and vs arbitrary: xs f and xs f rule: print_val_print_vals.induct)
  case (1 w)
  have p: "is_punct (CHR ''{'')" "is_punct (CHR ''}'')" "is_punct (CHR '','')" by (simp_all add: is_punct_def)
  have w: "word_ok w" "w \<noteq> ''{''" "w \<noteq> ''}''" "w \<noteq> '',''"
    using 1 word_not_punct p by auto
  show ?case using parse_arr_token [OF next_word_space [OF w(1)]] w add_take [OF 1(2)] 1(2)
    by (simp add: data_node_string_def del: data_node_array_add.simps)
next
  case (2 s)
  show ?case using parse_arr_token [OF next_string [of s]] 2 add_take [OF 2(2)]
    by (simp add: data_node_string_def del: data_node_array_add.simps)
next
  case (3 vs)
  have p: "is_punct (CHR ''{'')" by (simp add: is_punct_def)
  have "parse_arr (print_vals vs @ CHR ''}'' # f) data_node_array =
      Some (Ok (0, f, Node_Array (take MAX_ELEMS (concat (map val_nodes vs)))))"
    using 3 by (simp add: data_node_array_def)
  then show ?case using parse_arr_token [OF next_punct [OF p]] add_take [OF 3(3)] 3(3)
    by (simp add: Let_def del: data_node_array_add.simps)
next
  case 4
  have p: "is_punct (CHR ''}'')" by (simp add: is_punct_def)
  show ?case using parse_arr_token [OF next_punct [OF p]] 4 by simp
next
  case (5 v vs)
  have p: "is_punct (CHR '','')" by (simp add: is_punct_def)
  have "parse_arr (print_vals (v # vs) @ CHR ''}'' # f) (Node_Array xs) =
      parse_arr (CHR '','' # print_vals vs @ CHR ''}'' # f) (Node_Array (take MAX_ELEMS (xs @ val_nodes v)))"
    using 5 by simp
  also have "\<dots> = parse_arr (print_vals vs @ CHR ''}'' # f) (Node_Array (take MAX_ELEMS (xs @ val_nodes v)))"
    using parse_arr_token [OF next_punct [OF p]] by simp
  also have "\<dots> = Some (Ok (0, f, Node_Array (take MAX_ELEMS (xs @ concat (map val_nodes (v # vs))))))"
    using "5.IH"(2) [of "take MAX_ELEMS (xs @ val_nodes v)" f] "5.prems"(1)
    by (simp only: take_take_append list.pred_inject concat.simps list.map length_take)
  finally show ?case .
qed

section \<open>Members\<close>

record member =
  m_id :: string
  m_cast :: "string list option"
  m_val :: src_val

definition print_cast :: "string list option \<Rightarrow> string" where
  "print_cast c = (case c of None \<Rightarrow> [] | Some ws \<Rightarrow> ''('' @ concat (map (\<lambda>w. w @ '' '') ws) @ '')'')"

definition print_member :: "member \<Rightarrow> string" where
  "print_member m = m_id m @ '' ='' @ print_cast (m_cast m) @ print_val (m_val m) @ '',''"

fun top_ok :: "src_val \<Rightarrow> bool" where
  "top_ok (V_Word w) = (word_ok w \<and> w \<noteq> ''ARRAY_SIZE'')"
| "top_ok (V_Str s) = (str_ok s \<and> s \<notin> {''{'', ''}'', ''('', ''ARRAY_SIZE''})"
| "top_ok (V_Arr vs) = list_all val_ok vs"

definition member_ok :: "member \<Rightarrow> bool" where
  "member_ok m = (word_ok (m_id m) \<and> (case m_cast m of None \<Rightarrow> True | Some ws \<Rightarrow> list_all word_ok ws) \<and> top_ok (m_val m))"

text \<open>The node of a member: a macro is replaced.\<close>

fun top_node :: "macros \<Rightarrow> src_val \<Rightarrow> data_node" where
  "top_node ms (V_Word w) = Node_String (try_apply_macro ms w)"
| "top_node ms (V_Str s) = Node_String (try_apply_macro ms s)"
| "top_node ms (V_Arr vs) = Node_Array (take MAX_ELEMS (concat (map val_nodes vs)))"

lemma puncts: "is_punct (CHR ''{'')" "is_punct (CHR ''}'')" "is_punct (CHR '','')" "is_punct (CHR ''='')"
  "is_punct (CHR ''('')" "is_punct (CHR '')'')" "is_punct (CHR ''#'')" "is_punct (CHR '';'')"
  by (simp_all add: is_punct_def)

lemma word_not_puncts: "word_ok w \<Longrightarrow> w \<notin> {''{'', ''}'', '','', ''='', ''('', '')'', ''#'', '';''}"
  using word_not_punct puncts by blast

text \<open>One token at a time.\<close>

lemma struct_token:
  assumes "next_token f doc = Some (Ok (Some t, g, d))" "t \<noteq> ''}''"
  shows "parse_struct_loop e whole ms f doc node ident 0 = parse_struct_loop e whole ms g d node t 1"
    "parse_struct_loop e whole ms f doc node ident 1 = parse_struct_loop e whole ms g d node ident (if t = ''='' then 2 else 1)"
    "parse_struct_loop e whole ms f doc node ident 3 = parse_struct_loop e whole ms g d node ident (if t = '')'' then 2 else 3)"
    "parse_struct_loop e whole ms f doc node ident 4 = parse_struct_loop e whole ms g d node ident (if t = '','' then 0 else 4)"
    "t = ''('' \<Longrightarrow> parse_struct_loop e whole ms f doc node ident 2 = parse_struct_loop e whole ms g d node ident 3"
    "t \<notin> {''('', ''{'', ''ARRAY_SIZE''} \<Longrightarrow> parse_struct_loop e whole ms f doc node ident 2 =
      parse_struct_loop e whole ms g d (add_member node ident (data_node_string (try_apply_macro ms t))) ident 4"
    "t = ''{'' \<Longrightarrow> parse_struct_loop e whole ms f doc node ident 2 =
      rbind (parse_arr g data_node_array) (\<lambda>(_, f'', ret). parse_struct_loop e whole ms f'' d (add_member node ident ret) ident 4)"
  unfolding parse_struct_loop.simps [of e whole ms f] assms(1) rbind.simps prod.case option.case
  using assms(2) by (simp_all add: parse_array_top_def parse_arr_def del: parse_array.simps)

lemma cast_words:
  "list_all word_ok ws \<Longrightarrow>
    parse_struct_loop e whole ms (concat (map (\<lambda>w. w @ '' '') ws) @ CHR '')'' # f) doc node ident 3 =
    parse_struct_loop e whole ms f doc node ident 2"
proof (induction ws)
  case Nil
  show ?case using struct_token(3) [OF next_punct [OF puncts(6)]] by simp
next
  case (Cons w ws)
  have w: "word_ok w" "w \<noteq> ''}''" "w \<noteq> '')''" using Cons.prems word_not_puncts [of w] by auto
  show ?case using struct_token(3) [OF next_word_space [OF w(1)] w(2)] w(3) Cons by simp
qed

lemma cast_skip:
  assumes "case c of None \<Rightarrow> True | Some ws \<Rightarrow> list_all word_ok ws"
  shows "parse_struct_loop e whole ms (print_cast c @ f) doc node ident 2 = parse_struct_loop e whole ms f doc node ident 2"
proof (cases c)
  case (Some ws)
  then show ?thesis using struct_token(5) [OF next_punct [OF puncts(5)]] cast_words [of ws] assms
    by (simp add: print_cast_def)
qed (simp add: print_cast_def)

lemma top_value:
  assumes "top_ok v"
  shows "parse_struct_loop e whole ms (print_val v @ CHR '','' # f) doc node ident 2 =
    parse_struct_loop e whole ms f doc (add_member node ident (top_node ms v)) ident 0"
proof -
  have comma: "parse_struct_loop e whole ms (CHR '','' # f) doc nd ident 4 = parse_struct_loop e whole ms f doc nd ident 0" for nd
    using struct_token(4) [OF next_punct [OF puncts(3)]] by simp
  show ?thesis
  proof (cases v)
    case (V_Word w)
    have w: "word_ok w" "w \<noteq> ''}''" "w \<notin> {''('', ''{'', ''ARRAY_SIZE''}"
      using assms V_Word word_not_puncts [of w] by auto
    show ?thesis using struct_token(6) [OF next_word_space [OF w(1)] w(2,3)] comma V_Word
      by (simp add: data_node_string_def)
  next
    case (V_Str s)
    have s: "str_ok s" "s \<noteq> ''}''" "s \<notin> {''('', ''{'', ''ARRAY_SIZE''}" using assms V_Str by auto
    show ?thesis using struct_token(6) [OF next_string [OF s(1)] s(2,3)] comma V_Str
      by (simp add: data_node_string_def)
  next
    case (V_Arr vs)
    have "parse_arr (print_vals vs @ CHR ''}'' # CHR '','' # f) data_node_array =
        Some (Ok (0, CHR '','' # f, Node_Array (take MAX_ELEMS (concat (map val_nodes vs)))))"
      using print_parse(2) [of vs "[]"] assms V_Arr by (simp add: data_node_array_def)
    then show ?thesis using struct_token(7) [OF next_punct [OF puncts(1)]] comma V_Arr by simp
  qed
qed

lemma member_parse:
  assumes "member_ok m"
  shows "parse_struct_loop e whole ms (print_member m @ f) doc node ident 0 =
    parse_struct_loop e whole ms f doc (add_member node (m_id m) (top_node ms (m_val m))) (m_id m) 0"
proof -
  have m: "word_ok (m_id m)" "case m_cast m of None \<Rightarrow> True | Some ws \<Rightarrow> list_all word_ok ws" "top_ok (m_val m)"
    using assms by (simp_all add: member_ok_def)
  have i: "m_id m \<noteq> ''}''" using word_not_puncts [OF m(1)] by auto
  show ?thesis
    using struct_token(1) [OF next_word_space [OF m(1)] i] struct_token(2) [OF next_punct [OF puncts(4)]]
      cast_skip [OF m(2)] top_value [OF m(3)]
    by (simp add: print_member_def)
qed

definition member_elem :: "macros \<Rightarrow> member \<Rightarrow> string \<times> data_node" where
  "member_elem ms m = (member_key (m_id m), top_node ms (m_val m))"

lemma add_member_take:
  "length es \<le> MAX_ELEMS \<Longrightarrow> add_member (Node_Hash es) (m_id m) (top_node ms (m_val m)) =
    Node_Hash (take MAX_ELEMS (es @ [member_elem ms m]))"
  by (auto simp: add_member_def member_elem_def)

lemma members_parse:
  "list_all member_ok mems \<Longrightarrow> length es \<le> MAX_ELEMS \<Longrightarrow>
    parse_struct_loop e whole ms (concat (map print_member mems) @ CHR ''}'' # f) doc (Node_Hash es) ident 0 =
    Some (Ok (0, f, doc, Node_Hash (take MAX_ELEMS (es @ map (member_elem ms) mems))))"
proof (induction mems arbitrary: es ident)
  case Nil
  show ?case using Nil
    unfolding parse_struct_loop.simps [of e whole ms "concat (map print_member []) @ CHR ''}'' # f"]
    by (simp add: next_punct puncts)
next
  case (Cons m mems)
  have "parse_struct_loop e whole ms (concat (map print_member (m # mems)) @ CHR ''}'' # f) doc (Node_Hash es) ident 0 =
      parse_struct_loop e whole ms (concat (map print_member mems) @ CHR ''}'' # f) doc
        (Node_Hash (take MAX_ELEMS (es @ [member_elem ms m]))) (m_id m) 0"
    using Cons.prems member_parse [of m] add_member_take [of es] by simp
  also have "\<dots> = Some (Ok (0, f, doc, Node_Hash (take MAX_ELEMS (take MAX_ELEMS (es @ [member_elem ms m]) @ map (member_elem ms) mems))))"
    using Cons.prems by (intro Cons.IH) auto
  finally show ?case by (simp only: take_take_append) simp
qed

section \<open>Macros\<close>

definition print_define :: "string \<times> string \<Rightarrow> string" where
  "print_define d = ''#define '' @ fst d @ '' '' @ snd d @ [LF]"

definition define_ok :: "string \<times> string \<Rightarrow> bool" where
  "define_ok d = (word_ok (fst d) \<and> length (fst d) < 128 \<and> hd (fst d) \<noteq> CHR ''_'' \<and>
     word_ok (snd d) \<and> length (snd d) < 256)"

definition enter_define :: "nat \<Rightarrow> macros \<Rightarrow> string \<times> string \<Rightarrow> macros" where
  "enter_define n ms d = hsearch_enter n ms (fst d) (snd d)"

lemma macro_val_word:
  "list_all is_word w \<Longrightarrow> length buf + length w \<le> n \<Longrightarrow> prev \<noteq> BACKSLASH \<Longrightarrow>
    macro_val_loop n (w @ LF # f) prev buf = (buf @ w, f)"
  by (induction w arbitrary: buf prev) (auto simp: is_word_facts)

lemma word_spaces:
  assumes "word_ok w"
  shows "dropWhile isspace (w @ f) = w @ f" "takeWhile (\<lambda>c. \<not> isspace c) (w @ CHR '' '' # f) = w"
    "dropWhile (\<lambda>c. \<not> isspace c) (w @ CHR '' '' # f) = CHR '' '' # f" "hd w \<noteq> DQUOTE" "cstr w = w" "w \<noteq> []"
proof -
  have w: "w \<noteq> []" "\<And>c. c \<in> set w \<Longrightarrow> is_word c" using assms by (auto simp: word_ok_def list_all_iff)
  have sp: "isspace (CHR '' '')" by (simp add: isspace_def)
  show "dropWhile isspace (w @ f) = w @ f" using w is_word_facts(3) by (cases w) auto
  show "takeWhile (\<lambda>c. \<not> isspace c) (w @ CHR '' '' # f) = w"
    "dropWhile (\<lambda>c. \<not> isspace c) (w @ CHR '' '' # f) = CHR '' '' # f"
    using w(2) sp is_word_facts(3) by (induction w) auto
  show "hd w \<noteq> DQUOTE" using w is_word_facts(8) hd_in_set by blast
  show "cstr w = w" using w(2) is_word_facts(2) by (intro cstr_id) (auto simp: list_all_iff)
  show "w \<noteq> []" by (rule w(1))
qed

lemma parse_macro_print:
  assumes "define_ok d"
  shows "parse_macro e (fst d @ CHR '' '' # snd d @ LF # f) ms = Ok (f, enter_define (table_size e) ms d)"
proof -
  have d: "word_ok (fst d)" "length (fst d) < 128" "hd (fst d) \<noteq> CHR ''_''" "word_ok (snd d)" "length (snd d) < 256"
    using assms by (simp_all add: define_ok_def)
  have "scan_word 128 (fst d @ CHR '' '' # snd d @ LF # f) = Ok (fst d, CHR '' '' # snd d @ LF # f)"
    using d(2) word_spaces [OF d(1)] by (simp add: scan_word_def Let_def)
  moreover have "macro_get_val 256 (snd d @ LF # f) = (snd d, f)"
    using macro_val_word [of "snd d" "[]" 255 NUL f] d(4,5) word_spaces [OF d(4)]
    by (simp add: macro_get_val_def Let_def word_ok_def)
  ultimately show ?thesis using d(3) word_spaces [OF d(4)] by (simp add: parse_macro_def enter_define_def)
qed

section \<open>Files\<close>

definition print_test :: "(string \<times> string) list \<Rightarrow> member list \<Rightarrow> string" where
  "print_test defs mems = concat (map print_define defs) @ ''static struct tst_test test ={'' @
     concat (map print_member mems) @ ''};''"

lemma define_word: "word_ok ''define''" "word_ok ''static''" "word_ok ''struct''" "word_ok ''tst_test''" "word_ok ''test''"
  by (simp_all add: word_ok_def is_word_def isalnum_def isdigit_def isupper_def islower_def ID_BUF_def)

lemma file_define:
  assumes "define_ok d"
  shows "parse_file_loop e whole (print_define d @ f) 0 found doc res ms =
    parse_file_loop e whole f 0 found doc res (enter_define (table_size e) ms d)"
proof -
  have t: "next_token (print_define d @ f) doc = Some (Ok (Some ''#'', ''define '' @ fst d @ CHR '' '' # snd d @ LF # f, doc))"
    using next_punct [OF puncts(7), of "''define '' @ fst d @ CHR '' '' # snd d @ LF # f" doc] by (simp add: print_define_def)
  have u: "next_token (''define '' @ fst d @ CHR '' '' # snd d @ LF # f) doc =
      Some (Ok (Some ''define'', fst d @ CHR '' '' # snd d @ LF # f, doc))"
    using next_word_space [OF define_word(1), of "fst d @ CHR '' '' # snd d @ LF # f" doc] by simp
  show ?thesis unfolding parse_file_loop.simps [of e whole "print_define d @ f"] t rbind.simps prod.case option.case u
    by (simp add: struct_tokens_def parse_macro_print [OF assms])
qed

lemma file_defines:
  "list_all define_ok defs \<Longrightarrow>
    parse_file_loop e whole (concat (map print_define defs) @ f) 0 found doc res ms =
    parse_file_loop e whole f 0 found doc res (foldl (enter_define (table_size e)) ms defs)"
  by (induction defs arbitrary: ms) (simp_all add: file_define)

lemma file_token:
  assumes "next_token f doc = Some (Ok (Some t, g, d))" "n < 5" "struct_tokens ! n = t"
  shows "parse_file_loop e whole f n found doc res ms = parse_file_loop e whole g (n + 1) found d res ms"
  unfolding parse_file_loop.simps [of e whole f] assms(1) rbind.simps prod.case option.case
  using assms(2,3) by simp

lemma file_struct:
  assumes "list_all member_ok mems"
  shows "parse_file_loop e whole (''static struct tst_test test ={'' @ concat (map print_member mems) @ ''};'') 0 found doc data_node_hash ms =
    Some (Ok (True, doc, Node_Hash (take MAX_ELEMS (map (member_elem ms) mems))))"
proof -
  let ?b = "concat (map print_member mems) @ ''};''"
  have s: "struct_tokens ! 0 = ''static''" "struct_tokens ! 1 = ''struct''" "struct_tokens ! 2 = ''tst_test''"
    "struct_tokens ! 3 = ''test''" "struct_tokens ! 4 = ''=''" "struct_tokens ! 5 = ''{''"
    by (simp_all add: struct_tokens_def)
  have "parse_file_loop e whole (''static struct tst_test test ={'' @ ?b) 0 found doc data_node_hash ms =
      parse_file_loop e whole (CHR ''{'' # ?b) 5 found doc data_node_hash ms"
    using file_token [OF next_word_space [OF define_word(2)] _ s(1)] file_token [OF next_word_space [OF define_word(3)] _ s(2)]
      file_token [OF next_word_space [OF define_word(4)] _ s(3)] file_token [OF next_word_space [OF define_word(5)] _ s(4)]
      file_token [OF next_punct [OF puncts(4)] _ s(5)] by (simp add: numeral_eq_Suc)
  also have "\<dots> = parse_file_loop e whole '';'' 6 True doc (Node_Hash (take MAX_ELEMS (map (member_elem ms) mems))) ms"
    unfolding parse_file_loop.simps [of e whole "CHR ''{'' # ?b"] next_punct [OF puncts(1)] rbind.simps prod.case option.case
    using members_parse [OF assms, of "[]" e whole ms "'';''" doc "[]"] s(6)
    by (simp add: parse_test_struct_def data_node_hash_def)
  also have "\<dots> = parse_file_loop e whole [] 0 True doc (Node_Hash (take MAX_ELEMS (map (member_elem ms) mems))) ms"
    unfolding parse_file_loop.simps [of e whole "'';''"] next_punct [OF puncts(8)] rbind.simps prod.case option.case by simp
  also have "\<dots> = Some (Ok (True, doc, Node_Hash (take MAX_ELEMS (map (member_elem ms) mems))))"
    unfolding parse_file_loop.simps [of e whole "[]"] next_end rbind.simps prod.case option.case ..
  finally show ?thesis .
qed

lemma parse_file_print:
  assumes "files e fname = Some (print_test defs mems)" "list_all define_ok defs" "list_all member_ok mems"
  shows "parse_file e fname =
    Some (Ok (Some (Node_Hash (take MAX_ELEMS (map (member_elem (foldl (enter_define (table_size e)) [] defs)) mems)))))"
proof -
  let ?e = "e\<lparr>includepath := dirname fname\<rparr>"
  let ?ms = "foldl (enter_define (table_size e)) [] defs"
  have "parse_file_loop ?e (print_test defs mems) (print_test defs mems) 0 False (Some data_node_array) data_node_hash [] =
      Some (Ok (True, Some data_node_array, Node_Hash (take MAX_ELEMS (map (member_elem ?ms) mems))))"
    unfolding print_test_def [of defs mems] file_defines [OF assms(2)] using file_struct [OF assms(3)] by simp
  then show ?thesis using assms(1) by (simp add: parse_file_def data_node_array_def)
qed

section \<open>Properties\<close>

text \<open>
  C3: \<^verbatim>\<open>parse_file()\<close> reads back a printed test source. The result has the members in their order, up to
  the \<^verbatim>\<open>MAX_ELEMS\<close> elements of a hash: the name without its dot, a word or string after the replacement of
  macros, or an array in which \<^verbatim>\<open>NULL\<close> and empty arrays are left out; casts are skipped.
\<close>
theorem parse_file_roundtrip:
  assumes "files e fname = Some (print_test defs mems)" "list_all define_ok defs" "list_all member_ok mems"
  shows "parse_file e fname =
    Some (Ok (Some (Node_Hash (take MAX_ELEMS (map (member_elem (foldl (enter_define (table_size e)) [] defs)) mems)))))"
  using assms by (rule parse_file_print)

definition sample_members :: "member list" where
  "sample_members =
     [\<lparr>m_id = ''.test_variants'', m_cast = None, m_val = V_Word ''VARIANTS''\<rparr>,
      \<lparr>m_id = ''.tags'', m_cast = Some [''const'', ''struct'', ''tst_tag''],
       m_val = V_Arr [V_Arr [V_Str ''CVE'', V_Str ''2017-5669''], V_Arr []]\<rparr>]"

definition sample_env :: env where
  "sample_env = \<lparr>files = (\<lambda>p. if p = ''t.c'' then Some (print_test [(''VARIANTS'', ''3'')] sample_members) else None),
     includepath = [], cmdline_includepath = [], table_size = 128\<rparr>"

lemma sample_ok: "list_all define_ok [(''VARIANTS'', ''3'')]" "list_all member_ok sample_members"
  "files sample_env ''t.c'' = Some (print_test [(''VARIANTS'', ''3'')] sample_members)"
  by (simp_all add: define_ok_def sample_members_def member_ok_def word_ok_def str_ok_def is_word_def isalnum_def
      isdigit_def isupper_def islower_def ID_BUF_def sample_env_def)

theorem parse_file_roundtrip_witness:
  "parse_file sample_env ''t.c'' =
    Some (Ok (Some (Node_Hash [(''test_variants'', Node_String ''3''),
      (''tags'', Node_Array [Node_Array [Node_String ''CVE'', Node_String ''2017-5669'']])])))"
  using parse_file_roundtrip [OF sample_ok(3,1,2)]
  by (simp add: sample_members_def member_elem_def member_key_def enter_define_def hsearch_enter_def
      try_apply_macro_def sample_env_def MAX_ELEMS_def)

end
