(* ===== verification/Metaparse_Inv.thy ===== *)
theory Metaparse_Inv
  imports Metaparse
begin

text \<open>
  The trees that \<^verbatim>\<open>metadata/metaparse.c\<close> builds, whatever it reads: the hash holds strings, numbers and
  nested arrays, never another hash, and no array or hash has more than \<^verbatim>\<open>MAX_ELEMS\<close> elements.
\<close>

section \<open>The invariant\<close>

fun node_ok :: "data_node \<Rightarrow> bool" where
  "node_ok (Node_Hash es) = False"
| "node_ok (Node_Array ns) = (length ns \<le> MAX_ELEMS \<and> list_all node_ok ns)"
| "node_ok n = True"

fun tree_ok :: "data_node \<Rightarrow> bool" where
  "tree_ok (Node_Hash es) = (length es \<le> MAX_ELEMS \<and> list_all (\<lambda>(k, n). node_ok n) es)"
| "tree_ok n = False"

definition doc_ok :: "data_node option \<Rightarrow> bool" where
  "doc_ok doc = (case doc of None \<Rightarrow> True | Some d \<Rightarrow> node_ok d)"

named_theorems tree_inv \<open>preservation of the invariant\<close>

lemma doc_ok_simps [simp]: "doc_ok None" "doc_ok (Some d) \<longleftrightarrow> node_ok d"
  by (simp_all add: doc_ok_def)

lemma new_ok [simp]: "node_ok data_node_array" "node_ok (data_node_string s)" "node_ok (data_node_int i)" "tree_ok data_node_hash"
  by (simp_all add: data_node_array_def data_node_string_def data_node_int_def data_node_hash_def)

lemma array_add_ok [tree_inv]: "node_ok self \<Longrightarrow> node_ok n \<Longrightarrow> node_ok (snd (data_node_array_add self n))"
  by (cases self) auto

lemma hash_add_ok [tree_inv]: "tree_ok self \<Longrightarrow> node_ok n \<Longrightarrow> tree_ok (snd (data_node_hash_add self k n))"
  by (cases self) auto

section \<open>Documentation\<close>

lemma multiline_ok: "multiline_loop f doc state buf = Some x \<Longrightarrow> doc_ok doc \<longrightarrow> doc_ok (snd x)"
proof (erule multiline_loop.raw_induct [where P = "\<lambda>f doc state buf x. doc_ok doc \<longrightarrow> doc_ok (snd x)", rotated], goal_cases)
  case (1 g f doc state buf x)
  obtain c r where r: "getc f = (c, r)" by (cases "getc f")
  have IH: "g r d s b = Some x \<Longrightarrow> doc_ok d \<Longrightarrow> doc_ok (snd x)" for d s b using 1(1) [of r d s b x] by blast
  have add: "doc_ok (Some (add_doc_line (the doc) buf))" if "doc_ok doc" "doc \<noteq> None"
    using that by (auto simp: add_doc_line_def array_add_ok)
  show ?case using 1(2) IH add by (auto simp: r Let_def split: if_splits)
qed

lemma maybe_doc_loop_ok: "maybe_doc_loop ps f doc = Some x \<Longrightarrow> doc_ok doc \<Longrightarrow> doc_ok (snd x)"
proof (induction ps arbitrary: f)
  case (Cons p ps)
  obtain c r where r: "getc f = (c, r)" by (cases "getc f")
  show ?case using Cons by (auto simp: r skip_comment_def Option.bind_eq_Some_conv split: if_splits)
qed (auto simp: multiline_comment_def dest!: multiline_ok)

lemma maybe_comment_ok [tree_inv]: "maybe_comment f doc = Some (f', doc') \<Longrightarrow> doc_ok doc \<Longrightarrow> doc_ok doc'"
  by (auto simp: maybe_comment_def maybe_doc_comment_def Option.bind_eq_Some_conv
      dest: maybe_doc_loop_ok split: prod.splits if_splits)

lemma token_loop_ok:
  "token_loop n f doc buf in_str = Some (Ok (t, f', doc')) \<Longrightarrow> doc_ok doc \<Longrightarrow> doc_ok doc'"
proof (induction n f doc buf in_str rule: token_loop.induct)
  case (2 n c f doc buf in_str)
  have comment: "doc_ok doc'"
    if "maybe_comment f doc = Some (g, d)" "token_loop n g d buf False = Some (Ok (t, f', doc'))"
      "\<not> in_str" "\<not> is_punct c" "\<not> is_word c" "c = CHR ''/''" for g d
    using "2.IH"(3) [OF that(3-6,1) refl] that maybe_comment_ok [OF that(1) "2.prems"(2)] by auto
  show ?case using 2 comment
    by (auto dest!: token_exit_length split: if_splits option.splits prod.splits)
qed (auto dest!: token_exit_length)

lemma next_token_ok [tree_inv]: "next_token f doc = Some (Ok (t, f', doc')) \<Longrightarrow> doc_ok doc \<Longrightarrow> doc_ok doc'"
  by (auto simp: next_token_def next_token2_def dest: token_loop_ok)

section \<open>Arrays\<close>

lemma parse_array_ok:
  "parse_array fuel f node = Some (Ok (r, f', n)) \<Longrightarrow> node_ok node \<Longrightarrow> node_ok n"
proof (induction fuel f node arbitrary: r f' n rule: parse_array.induct)
  case (2 fuel f node)
  obtain token g d where t: "next_token f None = Some (Ok (token, g, d))"
    using "2.prems" by (auto simp: rbind_Ok_iff)
  show ?case
  proof (cases token)
    case None
    then show ?thesis using "2.prems" t by simp
  next
    case (Some tk)
    note IH = "2.IH" [OF t refl refl Some]
    show ?thesis
    proof (cases "tk = ''{''")
      case True
      then obtain r1 g1 n1 where a: "parse_array fuel g data_node_array = Some (Ok (r1, g1, n1))"
        and b: "parse_array fuel g1 (if data_node_array_len n1 \<noteq> 0 then snd (data_node_array_add node n1) else node)
          = Some (Ok (r, f', n))"
        using "2.prems" t Some by (auto simp: rbind_Ok_iff)
      have "node_ok n1" using IH(1) [OF True a] by simp
      then show ?thesis using IH(2) [OF True a refl refl b] "2.prems"(2) by (simp add: array_add_ok)
    next
      case False
      then show ?thesis using "2.prems" t Some IH(3-) by (auto simp: array_add_ok split: if_splits)
    qed
  qed
qed simp

lemma parse_array_top_ok [tree_inv]: "parse_array_top f = Some (Ok (r, f', n)) \<Longrightarrow> node_ok n"
  unfolding parse_array_top_def by (erule parse_array_ok) (rule new_ok)

lemma look_for_ok: "look_for_array_size f arr_id prev = Some (Ok (Some n)) \<Longrightarrow> node_ok n"
proof (induction "length f" arbitrary: f prev rule: less_induct)
  case less
  obtain token g d where t: "next_token2 f ID_BUF None = Some (Ok (token, g, d))"
    using less.prems by (auto simp: look_for_array_size.simps [of f] rbind_Ok_iff)
  have IH: "token \<noteq> None \<Longrightarrow> look_for_array_size g arr_id p = Some (Ok (Some n)) \<Longrightarrow> node_ok n" for p
    using less.hyps [of g p] t next_token2_shorter by auto
  show ?case using less.prems IH t
    by (auto simp: look_for_array_size.simps [of f] rbind_Ok_iff split: option.splits if_splits)
qed

lemma search_includes_ok: "search_includes e f arr_id hash = Some (Ok (Some n)) \<Longrightarrow> node_ok n"
proof (induction "length f" arbitrary: f hash rule: less_induct)
  case less
  obtain token g d where t: "next_token f None = Some (Ok (token, g, d))"
    using less.prems by (auto simp: search_includes.simps [of e f] rbind_Ok_iff)
  have IH: "token \<noteq> None \<Longrightarrow> length h \<le> length g \<Longrightarrow> search_includes e h arr_id b = Some (Ok (Some n)) \<Longrightarrow> node_ok n" for h b
    using less.hyps [of h b] t next_token_shorter by fastforce
  show ?case using less.prems IH t
    by (auto simp: search_includes.simps [of e f] rbind_Ok_iff split: option.splits if_splits
        dest!: open_include_length dest: look_for_ok)
qed

lemma parse_array_size_ok [tree_inv]: "parse_array_size e whole f = Some (Ok (Inr (Some n, f'))) \<Longrightarrow> node_ok n"
  by (auto simp: parse_array_size_def rbind_Ok_iff dest: look_for_ok search_includes_ok split: if_splits option.splits)

section \<open>The structure and the file\<close>

lemma add_member_ok [tree_inv]: "tree_ok node \<Longrightarrow> node_ok n \<Longrightarrow> tree_ok (add_member node ident n)"
  by (simp add: add_member_def hash_add_ok)

lemma parse_struct_loop_ok:
  "parse_struct_loop e whole ms f doc node ident state = Some (Ok (r, f', doc', node')) \<Longrightarrow>
    tree_ok node \<Longrightarrow> doc_ok doc \<Longrightarrow> tree_ok node' \<and> doc_ok doc'"
proof (induction "length f" arbitrary: f doc node ident state rule: less_induct)
  case less
  obtain token g d where t: "next_token f doc = Some (Ok (token, g, d))"
    using less.prems by (auto simp: parse_struct_loop.simps [of e whole ms f] rbind_Ok_iff)
  note unf = less.prems(1) [unfolded parse_struct_loop.simps [of e whole ms f] t rbind.simps prod.case]
  have d: "doc_ok d" using next_token_ok [OF t less.prems(3)] .
  show ?case
  proof (cases token)
    case None
    then show ?thesis using unf d less.prems(2) by simp
  next
    case (Some tk)
    have g: "length g < length f" using t Some by (auto dest: next_token_shorter)
    have IH: "tree_ok node' \<and> doc_ok doc'" if "parse_struct_loop e whole ms h d n2 i2 s2 = Some (Ok (r, f', doc', node'))"
      "length h \<le> length g" "tree_ok n2" for h n2 i2 s2
      using less.hyps [of h d n2 i2 s2] that g d by simp
    have arr: "tree_ok node' \<and> doc_ok doc'" if a: "rbind (parse_array_top g) (\<lambda>(_, f'', ret).
        parse_struct_loop e whole ms f'' d (add_member node ident ret) ident 4) = Some (Ok (r, f', doc', node'))"
    proof -
      obtain q h n where q: "parse_array_top g = Some (Ok (q, h, n))" using a by (auto simp: rbind_Ok_iff)
      show ?thesis using IH [of h "add_member node ident n" ident 4] a q
          parse_array_top_length [OF q] add_member_ok [OF less.prems(2) parse_array_top_ok [OF q]] by simp
    qed
    have sz: "tree_ok node' \<and> doc_ok doc'" if a: "rbind (parse_array_size e whole g) (\<lambda>r. case r of
          Inl f'' \<Rightarrow> Some (Ok (1, f'', d, node))
        | Inr (res, f'') \<Rightarrow> (case res of
            None \<Rightarrow> parse_struct_loop e whole ms f'' d node ident state
          | Some ret \<Rightarrow> parse_struct_loop e whole ms f'' d (add_member node ident ret) ident 4))
        = Some (Ok (r, f', doc', node'))"
    proof -
      obtain q where q: "parse_array_size e whole g = Some (Ok q)" using a by (auto simp: rbind_Ok_iff)
      show ?thesis
      proof (cases q)
        case (Inl h)
        then show ?thesis using a q d less.prems(2) by simp
      next
        case (Inr p)
        obtain res h where p: "p = (res, h)" by (cases p)
        have "length h \<le> length g" using q Inr p parse_array_size_length [of e whole g res h] by simp
        then show ?thesis using a q Inr p IH [of h] less.prems(2) add_member_ok parse_array_size_ok
          by (cases res) auto
      qed
    qed
    show ?thesis using unf less.prems(2) d arr sz IH [of g] unfolding Some option.case
      by (auto simp: add_member_ok split: if_splits)
  qed
qed

lemma parse_file_loop_ok:
  "parse_file_loop e whole f state found doc res ms = Some (Ok (found', doc', res')) \<Longrightarrow>
    tree_ok res \<Longrightarrow> doc_ok doc \<Longrightarrow> tree_ok res' \<and> doc_ok doc'"
proof (induction "length f" arbitrary: f state found doc res ms rule: less_induct)
  case less
  obtain token g d where t: "next_token f doc = Some (Ok (token, g, d))"
    using less.prems by (auto simp: parse_file_loop.simps [of e whole f] rbind_Ok_iff)
  note unf = less.prems(1) [unfolded parse_file_loop.simps [of e whole f] t rbind.simps prod.case]
  have d: "doc_ok d" using next_token_ok [OF t less.prems(3)] .
  show ?case
  proof (cases token)
    case None
    then show ?thesis using unf d less.prems(2) by simp
  next
    case (Some tk)
    have g: "length g < length f" using t Some by (auto dest: next_token_shorter)
    have IH: "tree_ok res' \<and> doc_ok doc'" if "parse_file_loop e whole h s2 b2 d2 r2 m2 = Some (Ok (found', doc', res'))"
      "length h \<le> length g" "tree_ok r2" "doc_ok d2" for h s2 b2 d2 r2 m2
      using less.hyps [of h s2 b2 d2 r2 m2] that g by simp
    have str: "tree_ok res' \<and> doc_ok doc'" if a: "rbind (parse_test_struct e whole ms g d res) (\<lambda>(_, f'', doc'', res').
        parse_file_loop e whole f'' (state + 1) True doc'' res' ms) = Some (Ok (found', doc', res'))"
    proof -
      obtain q h d3 n where q: "parse_struct_loop e whole ms g d res [] 0 = Some (Ok (q, h, d3, n))"
        using a by (auto simp: rbind_Ok_iff parse_test_struct_def)
      show ?thesis using IH [of h _ _ d3 n] a q parse_struct_loop_length [OF q]
          parse_struct_loop_ok [OF q less.prems(2) d] by (simp add: parse_test_struct_def)
    qed
    have pre: "tree_ok res' \<and> doc_ok doc'" if a: "rbind (next_token g d) (\<lambda>(token2, f2, doc2).
        if token2 = Some ''define'' then
          rbind (Some (parse_macro e f2 ms)) (\<lambda>(f3, ms'). parse_file_loop e whole f3 0 found doc2 res ms')
        else if token2 = Some ''include'' then
          rbind (parse_include_macros e f2 ms) (\<lambda>(f3, ms'). parse_file_loop e whole f3 0 found doc2 res ms')
        else parse_file_loop e whole f2 0 found doc2 res ms) = Some (Ok (found', doc', res'))"
    proof -
      obtain t2 h d2 where q: "next_token g d = Some (Ok (t2, h, d2))" using a by (auto simp: rbind_Ok_iff)
      have h: "length h \<le> length g" "doc_ok d2" using next_token_length [OF q] next_token_ok [OF q d] by auto
      have "\<exists>h2 m2. length h2 \<le> length h \<and> parse_file_loop e whole h2 0 found d2 res m2 = Some (Ok (found', doc', res'))"
        using a q by (auto simp: rbind_Ok_iff split: if_splits dest!: parse_macro_length parse_include_macros_length)
      then show ?thesis using IH h less.prems(2) by (meson order_trans)
    qed
    show ?thesis using unf less.prems(2) d str pre IH [of g] unfolding Some option.case
      by (auto split: if_splits)
  qed
qed

lemma parse_file_tree:
  assumes "parse_file e fname = Some (Ok (Some n))"
  shows "tree_ok n"
proof -
  obtain src where src: "files e fname = Some src"
    using assms by (auto simp: parse_file_def split: option.splits)
  let ?e = "e\<lparr>includepath := dirname fname\<rparr>"
  obtain found doc res where l: "parse_file_loop ?e src src 0 False (Some data_node_array) data_node_hash [] =
      Some (Ok (found, doc, res))"
    using assms src by (auto simp: parse_file_def rbind_Ok_iff)
  define d where "d = (case doc of None \<Rightarrow> data_node_array | Some d \<Rightarrow> d)"
  have n: "n = snd (data_node_hash_add res ''doc'' d) \<or> n = res"
    using assms src l by (auto simp: parse_file_def d_def Let_def split: if_splits)
  have ok: "tree_ok res" "doc_ok doc" using parse_file_loop_ok [OF l] by simp_all
  then have "node_ok d" by (auto simp: d_def split: option.splits)
  then show ?thesis using n ok(1) by (auto simp: hash_add_ok)
qed

section \<open>Properties\<close>

text \<open>
  C11: whatever the files contain, the tree that \<^verbatim>\<open>parse_file()\<close> returns is a hash of strings, numbers and
  nested arrays, and neither it nor an array in it has more than \<^verbatim>\<open>MAX_ELEMS\<close> elements.
\<close>
theorem parse_file_tree_ok:
  assumes "parse_file e fname = Some (Ok (Some n))"
  shows "tree_ok n"
  using assms by (rule parse_file_tree)

definition one_file :: "string \<Rightarrow> string \<Rightarrow> env" where
  "one_file name src = \<lparr>files = (\<lambda>p. if p = name then Some src else None), includepath = [],
     cmdline_includepath = [], table_size = 128\<rparr>"

definition sample_source :: string where
  "sample_source = ''static struct tst_test test = {.a = {b, c}, };''"

theorem parse_file_tree_ok_witness:
  "parse_file (one_file ''x.c'' sample_source) ''x.c'' =
     Some (Ok (Some (Node_Hash [(''a'', Node_Array [Node_String ''b'', Node_String ''c''])]))) \<and>
   tree_ok (Node_Hash [(''a'', Node_Array [Node_String ''b'', Node_String ''c''])])"
proof -
  have p: "parse_file (one_file ''x.c'' sample_source) ''x.c'' =
     Some (Ok (Some (Node_Hash [(''a'', Node_Array [Node_String ''b'', Node_String ''c''])])))"
    by code_simp
  show ?thesis by (rule conjI [OF p parse_file_tree_ok [OF p]])
qed

end
