(* ===== verification/Json_Output.thy ===== *)
theory Json_Output
  imports Data_Storage
begin

text \<open>
  The output of \<^verbatim>\<open>data_to_json()\<close> is JSON. The grammar of RFC 8259 for the values that occur, strings,
  integers, arrays and objects, relates a value to its texts; white space may stand where the RFC
  allows it.
\<close>

section \<open>The grammar\<close>

datatype json = J_Str string | J_Num int | J_Arr "json list" | J_Obj "(string \<times> json) list"

definition ws :: "string \<Rightarrow> bool" where
  "ws s = list_all (\<lambda>c. c = CHR '' '' \<or> c = CHR 0x09 \<or> c = LF \<or> c = CHR 0x0D) s"

text \<open>The characters between the quotes of a string: from 0x20 on without escape, except for the quote
  and the backslash. Only the two escapes that occur are needed. Bytes from 128 on are left out, since
  they would have to form UTF-8.\<close>

definition unescaped :: "char \<Rightarrow> bool" where
  "unescaped c = (0x20 \<le> chr_code c \<and> chr_code c < 0x80 \<and> c \<noteq> DQUOTE \<and> c \<noteq> BACKSLASH)"

inductive j_chars :: "string \<Rightarrow> string \<Rightarrow> bool" where
  J_end: "j_chars [] []"
| J_char: "unescaped c \<Longrightarrow> j_chars s t \<Longrightarrow> j_chars (c # s) (c # t)"
| J_quote: "j_chars s t \<Longrightarrow> j_chars (DQUOTE # s) (BACKSLASH # DQUOTE # t)"
| J_backslash: "j_chars s t \<Longrightarrow> j_chars (BACKSLASH # s) (BACKSLASH # BACKSLASH # t)"

text \<open>An integer: an optional minus and digits without a leading zero.\<close>

definition j_nat :: "nat \<Rightarrow> string \<Rightarrow> bool" where
  "j_nat n t = (t \<noteq> [] \<and> list_all isdigit t \<and> (hd t = CHR ''0'' \<longrightarrow> length t = 1) \<and> digits_val t = n)"

definition j_int :: "int \<Rightarrow> string \<Rightarrow> bool" where
  "j_int i t = ((0 \<le> i \<and> j_nat (nat i) t) \<or> (i \<le> 0 \<and> t \<noteq> [] \<and> hd t = CHR ''-'' \<and> j_nat (nat (- i)) (tl t)))"

inductive j_value :: "json \<Rightarrow> string \<Rightarrow> bool"
  and j_elems :: "json list \<Rightarrow> string \<Rightarrow> bool"
  and j_members :: "(string \<times> json) list \<Rightarrow> string \<Rightarrow> bool" where
  J_str: "j_chars s t \<Longrightarrow> j_value (J_Str s) ([DQUOTE] @ t @ [DQUOTE])"
| J_num: "j_int i t \<Longrightarrow> j_value (J_Num i) t"
| J_arr0: "ws w \<Longrightarrow> j_value (J_Arr []) (''['' @ w @ '']'')"
| J_arr: "j_elems vs t \<Longrightarrow> j_value (J_Arr vs) (''['' @ t @ '']'')"
| J_obj0: "ws w \<Longrightarrow> j_value (J_Obj []) (''{'' @ w @ ''}'')"
| J_obj: "j_members ms t \<Longrightarrow> j_value (J_Obj ms) (''{'' @ t @ ''}'')"
| J_elem: "ws w \<Longrightarrow> j_value v t \<Longrightarrow> ws w' \<Longrightarrow> j_elems [v] (w @ t @ w')"
| J_elems: "ws w \<Longrightarrow> j_value v t \<Longrightarrow> ws w' \<Longrightarrow> j_elems vs u \<Longrightarrow> j_elems (v # vs) (w @ t @ w' @ '','' @ u)"
| J_member: "ws w \<Longrightarrow> j_chars k kt \<Longrightarrow> ws w1 \<Longrightarrow> ws w2 \<Longrightarrow> j_value v t \<Longrightarrow> ws w' \<Longrightarrow>
    j_members [(k, v)] (w @ [DQUOTE] @ kt @ [DQUOTE] @ w1 @ '':'' @ w2 @ t @ w')"
| J_members: "ws w \<Longrightarrow> j_chars k kt \<Longrightarrow> ws w1 \<Longrightarrow> ws w2 \<Longrightarrow> j_value v t \<Longrightarrow> ws w' \<Longrightarrow> j_members ms u \<Longrightarrow>
    j_members ((k, v) # ms) (w @ [DQUOTE] @ kt @ [DQUOTE] @ w1 @ '':'' @ w2 @ t @ w' @ '','' @ u)"

section \<open>What a tree stands for\<close>

text \<open>Tabs become eight spaces, and the other characters below 0x20, which JSON forbids, are dropped.\<close>

definition clean_char :: "char \<Rightarrow> string" where
  "clean_char c =
     (if c = CHR 0x09 then replicate 8 (CHR '' '') else if chr_code c < 0x20 then [] else [c])"

definition clean :: "string \<Rightarrow> string" where
  "clean s = concat (map clean_char s)"

fun to_json :: "data_node \<Rightarrow> json" where
  "to_json (Node_String s) = J_Str (clean s)"
| "to_json (Node_Int i) = J_Num i"
| "to_json (Node_Hash es) = J_Obj (map (\<lambda>(k, n). (k, to_json n)) es)"
| "to_json (Node_Array ns) = J_Arr (map to_json ns)"

text \<open>Trees without a hash below an array or a hash, as the extractor builds them, and with ASCII text.\<close>

fun flat :: "data_node \<Rightarrow> bool" where
  "flat (Node_Hash es) = False"
| "flat (Node_Array ns) = list_all flat ns"
| "flat n = True"

definition ascii :: "string \<Rightarrow> bool" where
  "ascii s = list_all (\<lambda>c. chr_code c < 0x80) s"

fun ascii_node :: "data_node \<Rightarrow> bool" where
  "ascii_node (Node_String s) = ascii s"
| "ascii_node (Node_Array ns) = list_all ascii_node ns"
| "ascii_node n = True"

definition printable_tree :: "data_node \<Rightarrow> bool" where
  "printable_tree n = (case n of
     Node_Hash es \<Rightarrow> list_all (\<lambda>(k, m). list_all unescaped k \<and> flat m \<and> ascii_node m) es | _ \<Rightarrow> False)"

section \<open>Strings and numbers\<close>

lemma printable_iff: "printable c \<longleftrightarrow> 0x20 \<le> chr_code c \<and> chr_code c < 0x80"
proof -
  define x where "x = chr_code c"
  have b: "x < 256" unfolding x_def by (metis mod_less_divisor of_char_mod_256 zero_less_numeral)
  have "to_signed 8 (int x) = (if x < 128 then int x else int x - 256)"
  proof (cases "x < 128")
    case False
    have "(int x - 128 + 256) mod 256 = int x - 128"
      using b False unfolding mod_add_self2 by (intro mod_pos_pos_trivial) auto
    then show ?thesis using False by (simp add: to_signed_def add.commute)
  qed (simp add: to_signed_def)
  then show ?thesis using b unfolding printable_def x_def [symmetric] by auto
qed

lemma j_chars_append: "j_chars s t \<Longrightarrow> j_chars s' t' \<Longrightarrow> j_chars (s @ s') (t @ t')"
  by (induction s t rule: j_chars.induct) (auto intro: j_chars.intros)

lemma j_chars_unescaped: "list_all unescaped s \<Longrightarrow> j_chars s s"
  by (induction s) (auto intro: j_chars.intros)

lemma j_chars_esc: "chr_code c < 0x80 \<Longrightarrow> j_chars (clean_char c) (esc_char c)"
proof -
  assume a: "chr_code c < 0x80"
  have "unescaped (CHR '' '')" by (simp add: unescaped_def)
  then have sp: "j_chars (replicate 8 (CHR '' '')) (replicate 8 (CHR '' ''))" by (intro j_chars_unescaped) (simp add: list_all_iff)
  have q: "printable DQUOTE" "printable BACKSLASH" by (simp_all add: printable_iff)
  show "j_chars (clean_char c) (esc_char c)" using sp q a
    by (auto simp: clean_char_def esc_char_def unescaped_def printable_iff intro: j_chars.intros)
qed

lemma j_chars_clean: "ascii s \<Longrightarrow> j_chars (clean s) (concat (map esc_char s))"
  by (induction s) (auto simp: clean_def ascii_def intro: j_chars.intros j_chars_append j_chars_esc)

lemma j_value_string: "ascii s \<Longrightarrow> j_value (J_Str (clean s)) (data_fprintf_esc 0 s)"
  using J_str [OF j_chars_clean] by (simp add: data_fprintf_esc_def)

lemma j_nat_show: "j_nat n (show_nat n)"
  using show_nat_digits [of _ n] show_nat_hd [of n]
  by (auto simp: j_nat_def list_all_iff digits_val_show show_nat_zero)

lemma j_value_int: "j_value (J_Num i) (show_int i)"
  by (rule J_num) (auto simp: j_int_def show_int_def j_nat_show)

section \<open>Trees\<close>

lemma ws_simps [simp]: "ws []" "ws (a @ b) \<longleftrightarrow> ws a \<and> ws b" "ws (replicate n (CHR '' ''))"
  "ws (LF # s) \<longleftrightarrow> ws s" "ws (CHR '' '' # s) \<longleftrightarrow> ws s"
  by (auto simp: ws_def list_all_iff)

text \<open>A node below the top is white space and a value; a list of nodes is a list of elements.\<close>

definition is_value :: "data_node \<Rightarrow> string \<Rightarrow> bool" where
  "is_value n s = (\<exists>w t. s = w @ t \<and> ws w \<and> j_value (to_json n) t)"

lemma is_valueI: "ws w \<Longrightarrow> j_value (to_json n) t \<Longrightarrow> is_value n (w @ t)"
  by (auto simp: is_value_def)

lemma j_elems_nodes:
  assumes "\<And>n. n \<in> set ns \<Longrightarrow> is_value n (data_to_json' n padd True)" "ns \<noteq> []" "ws w"
  shows "j_elems (map to_json ns) (w @ json_nodes ns padd)"
  using assms
proof (induction ns arbitrary: w)
  case (Cons n ns)
  obtain v t where v: "data_to_json' n padd True = v @ t" "ws v" "j_value (to_json n) t"
    using Cons.prems(1) [of n] by (auto simp: is_value_def)
  have w: "ws (w @ v)" using Cons.prems(3) v(2) by simp
  show ?case
  proof (cases "ns = []")
    case True
    then show ?thesis using J_elem [OF w v(3), of "[LF]"] v(1) by simp
  next
    case False
    have "j_elems (map to_json ns) ([LF] @ json_nodes ns padd)"
      using Cons.prems(1) False by (intro Cons.IH) auto
    from J_elems [OF w v(3) _ this, of "[]"] show ?thesis using False v(1) by simp
  qed
qed simp

lemma j_elems_trail: "j_elems vs t \<Longrightarrow> ws w \<Longrightarrow> j_elems vs (t @ w)"
proof (induction vs arbitrary: t)
  case (Cons v vs)
  from Cons.prems(1) show ?case
  proof (cases rule: j_elems.cases)
    case (J_elem a u b)
    then show ?thesis using j_value_j_elems_j_members.J_elem [of a v u "b @ w"] Cons.prems(2) by simp
  next
    case (J_elems a u b r)
    then show ?thesis using j_value_j_elems_j_members.J_elems [of a v u b vs "r @ w"] Cons by simp
  qed
qed (auto elim: j_elems.cases)

lemma j_members_trail: "j_members ms t \<Longrightarrow> ws w \<Longrightarrow> j_members ms (t @ w)"
proof (induction ms arbitrary: t)
  case (Cons m ms)
  from Cons.prems(1) show ?case
  proof (cases rule: j_members.cases)
    case (J_member a k kt b c v u d)
    then show ?thesis using j_value_j_elems_j_members.J_member [of a k kt b c v u "d @ w"] Cons.prems(2) by simp
  next
    case (J_members a k kt b c v u d r)
    then show ?thesis using j_value_j_elems_j_members.J_members [of a k kt b c v u d ms "r @ w"] Cons by simp
  qed
qed (auto elim: j_members.cases)

lemma flat_is_value: "flat n \<Longrightarrow> ascii_node n \<Longrightarrow> is_value n (data_to_json' n padd b)"
proof (induction n arbitrary: padd b)
  case (Node_String s)
  then show ?case using is_valueI [of _ "Node_String s"] j_value_string [of s] by (simp add: data_fprintf_esc_def)
next
  case (Node_Int i)
  show ?case using is_valueI [of _ "Node_Int i"] j_value_int [of i] by (simp add: data_fprintf_def)
next
  case (Node_Array ns)
  let ?p = "replicate padd (CHR '' '')"
  have "j_value (to_json (Node_Array ns)) (''['' @ ([LF] @ json_nodes ns (padd + 1) @ ?p) @ '']'')"
  proof (cases "ns = []")
    case True
    then show ?thesis using J_arr0 [of "[LF] @ ?p"] by simp
  next
    case False
    have e: "j_elems (map to_json ns) ([LF] @ json_nodes ns (padd + 1))"
      using Node_Array False by (intro j_elems_nodes) (auto simp: list_all_iff)
    show ?thesis using J_arr [OF j_elems_trail [OF e, of ?p]] by simp
  qed
  then show ?case using is_valueI [of "replicate (if b then padd else 0) (CHR '' '')" "Node_Array ns"]
    by (simp add: data_fprintf_def)
qed simp

lemma j_members_elems:
  assumes "list_all (\<lambda>(k, m). list_all unescaped k \<and> flat m \<and> ascii_node m) es" "es \<noteq> []" "ws w"
  shows "j_members (map (\<lambda>(k, n). (k, to_json n)) es) (w @ json_elems es padd)"
  using assms
proof (induction es arbitrary: w)
  case (Cons e es)
  obtain k n where e: "e = (k, n)" by (cases e)
  then have k: "j_chars k k" and n: "flat n" "ascii_node n" using Cons.prems(1) by (auto intro: j_chars_unescaped)
  obtain v t where v: "data_to_json' n (padd + 1) False = v @ t" "ws v" "j_value (to_json n) t"
    using flat_is_value [OF n, of "padd + 1" False] by (auto simp: is_value_def)
  have w: "ws (w @ replicate padd (CHR '' ''))" "ws ('' '' @ v)" using Cons.prems(3) v(2) by simp_all
  show ?case
  proof (cases "es = []")
    case True
    then show ?thesis using J_member [OF w(1) k _ w(2) v(3), of "[]" "[LF]"] v(1) e
      by (simp add: data_fprintf_def)
  next
    case False
    have "j_members (map (\<lambda>(k, n). (k, to_json n)) es) ([LF] @ json_elems es padd)"
      using Cons.prems(1) False by (intro Cons.IH) auto
    from J_members [OF w(1) k _ w(2) v(3) _ this, of "[]" "[]"] show ?thesis using False v(1) e
      by (simp add: data_fprintf_def)
  qed
qed simp

lemma json_text:
  assumes "printable_tree n"
  shows "j_value (to_json n) (data_to_json n padd)"
proof -
  obtain es where n: "n = Node_Hash es" and es: "list_all (\<lambda>(k, m). list_all unescaped k \<and> flat m \<and> ascii_node m) es"
    using assms by (auto simp: printable_tree_def split: data_node.splits)
  let ?w = "replicate padd (CHR '' '')"
  have "j_value (to_json n) (''{'' @ ([LF] @ json_elems es (padd + 1) @ ?w) @ ''}'')"
  proof (cases "es = []")
    case True
    then show ?thesis using J_obj0 [of "[LF] @ ?w"] n by simp
  next
    case False
    have "j_members (map (\<lambda>(k, n). (k, to_json n)) es) ([LF] @ json_elems es (padd + 1))"
      using es False by (intro j_members_elems) simp_all
    from J_obj [OF j_members_trail [OF this, of ?w]] show ?thesis by (simp add: n)
  qed
  then show ?thesis by (simp add: data_to_json_def n data_fprintf_def)
qed

section \<open>Properties\<close>

text \<open>
  C12: for a tree as the extractor builds it, a hash of ASCII strings, numbers and nested arrays, without a
  hash inside, whose keys need no escape, the output of \<^verbatim>\<open>data_to_json()\<close> is a JSON text that denotes the tree: every
  key in order, every number, and every string with tabs expanded to eight spaces and the other characters
  below 0x20 dropped.
\<close>
theorem data_to_json_valid:
  assumes "printable_tree n"
  shows "j_value (to_json n) (data_to_json n padd)"
  using assms by (rule json_text)

theorem data_to_json_valid_witness:
  "j_value (to_json (Node_Hash [(''doc'', Node_Array [Node_String [DQUOTE, BACKSLASH]]), (''test_variants'', Node_Int 3)]))
    (data_to_json (Node_Hash [(''doc'', Node_Array [Node_String [DQUOTE, BACKSLASH]]), (''test_variants'', Node_Int 3)]) 2)"
  by (rule data_to_json_valid) (simp add: printable_tree_def unescaped_def ascii_def)

end
