(* ===== verification/Metaparse_Json.thy ===== *)
theory Metaparse_Json
  imports Metaparse_Inv Metaparse_Norm Json_Output
begin

text \<open>
  The normalisation of \<^verbatim>\<open>metadata/metaparse.c\<close> keeps trees printable as JSON and cannot leave the hash: it
  returns a hash, or ends the program if a member \<^verbatim>\<open>test_variants\<close> is not a number.
\<close>

lemma node_ok_flat: "node_ok n \<Longrightarrow> flat n"
  by (induction n) (auto simp: list_all_iff)

definition clean_key :: "string \<Rightarrow> bool" where
  "clean_key k = list_all unescaped k"

definition members :: "data_node \<Rightarrow> (string \<times> data_node) list" where
  "members n = (case n of Node_Hash es \<Rightarrow> es | _ \<Rightarrow> [])"

text \<open>Member names that need no escape, and ASCII text.\<close>

definition clean_tree :: "data_node \<Rightarrow> bool" where
  "clean_tree n = list_all (\<lambda>(k, m). clean_key k \<and> ascii_node m) (members n)"

lemma tree_printable: "tree_ok n \<Longrightarrow> clean_tree n \<Longrightarrow> printable_tree n"
  by (cases n) (auto simp: printable_tree_def clean_tree_def members_def clean_key_def list_all_iff node_ok_flat)

text \<open>A member \<^verbatim>\<open>test_variants\<close> that is not a number.\<close>

definition bad_variants :: "data_node \<Rightarrow> bool" where
  "bad_variants n = (\<exists>m. (''test_variants'', m) \<in> set (members n) \<and> as_int m = None)"

lemma printable_hash: "printable_tree n \<Longrightarrow> \<exists>es. n = Node_Hash es"
  by (cases n) (auto simp: printable_tree_def)

lemma printable_add:
  "printable_tree n \<Longrightarrow> clean_key k \<Longrightarrow> flat m \<Longrightarrow> ascii_node m \<Longrightarrow> printable_tree (snd (data_node_hash_add n k m))"
  by (cases n) (auto simp: printable_tree_def clean_key_def)

lemma printable_del:
  assumes "printable_tree n"
  obtains c n' where "data_node_hash_del n k = Ok (c, n')" "printable_tree n'" "set (members n') \<subseteq> set (members n)"
proof -
  obtain es where n: "n = Node_Hash es" using printable_hash [OF assms] by blast
  have sub: "set (butlast (es[i := last es])) \<subseteq> set es" if "i < length es" for i
    using that set_update_subset_insert [of es i "last es"] last_in_set [of es] by (fastforce dest: in_set_butlastD)
  then have p: "printable_tree (Node_Hash (butlast (es[i := last es])))" if "i < length es" for i
    using assms that unfolding n printable_tree_def data_node.case list_all_iff by (meson subsetD)
  show thesis
  proof (cases "length es \<le> find_elem es k")
    case True
    then show ?thesis using that [of 0 n] assms n by (simp add: Let_def)
  next
    case False
    then show ?thesis
      using that [of 1 "Node_Hash (butlast (es[find_elem es k := last es]))"] p sub n by (simp add: Let_def members_def)
  qed
qed

lemma printable_get:
  assumes "printable_tree n"
  obtains r where "data_node_hash_get n k = Ok r" "\<And>m. r = Some m \<Longrightarrow> (k, m) \<in> set (members n)"
proof -
  obtain es where n: "n = Node_Hash es" using printable_hash [OF assms] by blast
  have "data_node_hash_get n k = Ok (hash_lookup n k)"
    by (auto simp: n hash_lookup_def Let_def simp del: hash_lookup_map_of)
  moreover have "(k, m) \<in> set (members n)" if "hash_lookup n k = Some m" for m
    using that map_of_SomeD by (fastforce simp: n members_def)
  ultimately show thesis using that by blast
qed

lemma filter_printable:
  "printable_tree n \<Longrightarrow>
    \<exists>f. filter_elems ks n = Ok f \<and> printable_tree f \<and> set (members f) \<subseteq> set (members n)"
proof (induction ks arbitrary: n)
  case (Cons k ks)
  obtain c n' where n': "data_node_hash_del n k = Ok (c, n')" "printable_tree n'" "set (members n') \<subseteq> set (members n)"
    using printable_del [OF Cons.prems] .
  from Cons.IH [OF n'(2)] show ?case using n'(1,3) by auto
qed simp

lemma check_types_printable:
  assumes "printable_tree n"
  shows "(\<exists>r. check_normalize_types n = Ok r \<and> printable_tree r) \<or>
    (\<exists>msg. check_normalize_types n = Brk (1, msg) \<and> bad_variants n)"
proof -
  let ?k = "''test_variants''"
  have k: "clean_key ?k" by (simp add: clean_key_def unescaped_def)
  obtain r where r: "data_node_hash_get n ?k = Ok r" "\<And>m. r = Some m \<Longrightarrow> (?k, m) \<in> set (members n)"
    using printable_get [OF assms] by blast
  obtain c n' where n': "data_node_hash_del n ?k = Ok (c, n')" "printable_tree n'"
    using printable_del [OF assms] by blast
  have add: "printable_tree (snd (data_node_hash_add n' ?k (data_node_int v)))" for v
    using n'(2) k by (intro printable_add) (simp_all add: data_node_int_def)
  have bad: "bad_variants n" if "r = Some m" "as_int m = None" for m
    using r(2) that by (auto simp: bad_variants_def)
  show ?thesis
  proof (cases r)
    case None
    then show ?thesis using r(1) assms by (simp add: check_normalize_types_def tst_test_typemap_def)
  next
    case (Some m)
    show ?thesis
    proof (cases m)
      case (Node_String s)
      then show ?thesis using Some r(1) n'(1) add bad [OF Some]
        by (auto simp: check_normalize_types_def tst_test_typemap_def convert_str2int_def as_int_def split: prod.split)
    next
      case (Node_Int i)
      then show ?thesis using Some r(1) assms by (simp add: check_normalize_types_def tst_test_typemap_def)
    qed (use Some r(1) bad [OF Some] in \<open>simp_all add: check_normalize_types_def tst_test_typemap_def as_int_def\<close>)
  qed
qed

lemma add_implied_printable:
  "printable_tree n \<Longrightarrow> list_all clean_key ks \<Longrightarrow> \<exists>r. add_implied ks n = Ok r \<and> printable_tree r"
proof (induction ks arbitrary: n)
  case (Cons k ks)
  obtain r where r: "data_node_hash_get n k = Ok r" using printable_get [OF Cons.prems(1)] by blast
  have "printable_tree (snd (data_node_hash_add n k (data_node_string ''1'')))"
    using Cons.prems by (intro printable_add) (auto simp: data_node_string_def ascii_def)
  then show ?case using Cons r by (auto split: option.split)
qed simp

lemma apply_implies_printable:
  "printable_tree n \<Longrightarrow> list_all (\<lambda>(_, ks). list_all clean_key ks) is \<Longrightarrow>
    \<exists>r. apply_implies is n = Ok r \<and> printable_tree r"
proof (induction "is" arbitrary: n)
  case (Cons row rows)
  obtain flag ks where row: "row = (flag, ks)" by (cases row)
  obtain g where g: "data_node_hash_get n flag = Ok g" using printable_get [OF Cons.prems(1)] by blast
  obtain r where "add_implied ks n = Ok r" "printable_tree r"
    using add_implied_printable [OF Cons.prems(1), of ks] Cons.prems(2) row by auto
  then show ?case using Cons g row by (cases g) auto
qed simp

lemma normalize_printable:
  assumes "printable_tree n"
  shows "(\<exists>r. normalize n = Ok r \<and> printable_tree r) \<or> (\<exists>msg. normalize n = Brk (1, msg) \<and> bad_variants n)"
proof -
  obtain f where f: "filter_elems filter_out n = Ok f" "printable_tree f" "set (members f) \<subseteq> set (members n)"
    using filter_printable [OF assms] by blast
  have "bad_variants f \<Longrightarrow> bad_variants n" using f(3) by (auto simp: bad_variants_def)
  moreover have "\<exists>r. apply_implies implies g = Ok r \<and> printable_tree r" if "printable_tree g" for g
    using that by (rule apply_implies_printable) (simp add: implies_def clean_key_def unescaped_def)
  ultimately show ?thesis using check_types_printable [OF f(2)] f(1) by (auto simp: normalize_def)
qed

end
