(* ===== verification/Bitmask.thy ===== *)
theory Bitmask
  imports Res_Flags "HOL-Library.Word"
begin

text \<open>
  The bit masks of \<^verbatim>\<open>cpuset_lib/libbitmask.c\<close> of the cpuset tests: an array of 64-bit words with its size in
  bits. The operations take pointers, and the code allows that the result is one of the operands; so
  they work on a store, a function from addresses to masks, and every loop reads and writes it bit
  by bit. Indices are 32-bit unsigned numbers, which wrap where the code adds to them.
\<close>

section \<open>Masks\<close>

record bitmask =
  bsize :: nat
  maskp :: "64 word list"

definition bitsperlong :: nat where "bitsperlong = 64"

definition howmany :: "nat \<Rightarrow> nat \<Rightarrow> nat" where
  "howmany x y = (x + (y - 1)) div y"

definition longsperbits :: "nat \<Rightarrow> nat" where
  "longsperbits n = howmany n bitsperlong"

text \<open>The value of a bit, 0 or 1 in the code.\<close>

definition getbit :: "bitmask \<Rightarrow> nat \<Rightarrow> bool" where
  "getbit bmp n =
     (if n < bsize bmp then bit (drop_bit (n mod bitsperlong) (maskp bmp ! (n div bitsperlong))) 0 else False)"

definition setbit :: "bitmask \<Rightarrow> nat \<Rightarrow> bool \<Rightarrow> bitmask" where
  "setbit bmp n v =
     (if n < bsize bmp then
        let k = n div bitsperlong; w = maskp bmp ! k; b = push_bit (n mod bitsperlong) 1 in
        bmp\<lparr>maskp := (maskp bmp)[k := if v then w OR b else w AND NOT b]\<rparr>
      else bmp)"

text \<open>The arguments say whether \<^verbatim>\<open>malloc\<close> and \<^verbatim>\<open>calloc\<close> give memory.\<close>

definition bitmask_alloc :: "bool \<Rightarrow> bool \<Rightarrow> nat \<Rightarrow> bitmask option" where
  "bitmask_alloc malloc_ok calloc_ok n =
     (if \<not> malloc_ok then None
      else if \<not> calloc_ok then None
      else Some \<lparr>bsize = n, maskp = replicate (longsperbits n) 0\<rparr>)"

section \<open>The store\<close>

type_synonym bstore = "nat \<Rightarrow> bitmask"

definition store_bit :: "nat \<Rightarrow> nat \<Rightarrow> bool \<Rightarrow> bstore \<Rightarrow> bstore" where
  "store_bit p i v st = st(p := setbit (st p) i v)"

text \<open>A loop that sets bit \<open>i\<close> of \<open>p\<close> for the indices of a list, reading the store it has reached.\<close>

definition bit_loop :: "nat \<Rightarrow> (nat \<Rightarrow> bstore \<Rightarrow> bool) \<Rightarrow> nat list \<Rightarrow> bstore \<Rightarrow> bstore" where
  "bit_loop p v is st = fold (\<lambda>i s. store_bit p i (v i s) s) is st"

section \<open>Assignment\<close>

definition bitmask_copy :: "bstore \<Rightarrow> nat \<Rightarrow> nat \<Rightarrow> bstore" where
  "bitmask_copy st p1 p2 = bit_loop p1 (\<lambda>i s. getbit (s p2) i) [0..<bsize (st p1)] st"

definition bitmask_setall :: "bstore \<Rightarrow> nat \<Rightarrow> bstore" where
  "bitmask_setall st p = bit_loop p (\<lambda>i s. True) [0..<bsize (st p)] st"

definition bitmask_clearall :: "bstore \<Rightarrow> nat \<Rightarrow> bstore" where
  "bitmask_clearall st p = bit_loop p (\<lambda>i s. False) [0..<bsize (st p)] st"

section \<open>Queries\<close>

definition bitmask_nbytes :: "bitmask \<Rightarrow> nat" where
  "bitmask_nbytes bmp = longsperbits (bsize bmp) * 8"

definition bitmask_mask :: "bitmask \<Rightarrow> 64 word list" where
  "bitmask_mask bmp = maskp bmp"

definition bitmask_nbits :: "bitmask \<Rightarrow> nat" where
  "bitmask_nbits bmp = bsize bmp"

definition bitmask_weight :: "bitmask \<Rightarrow> nat" where
  "bitmask_weight bmp = fold (\<lambda>i w. if getbit bmp i then w + 1 else w) [0..<bsize bmp] 0"

definition bitmask_isbitset :: "bitmask \<Rightarrow> nat \<Rightarrow> bool" where
  "bitmask_isbitset bmp i = getbit bmp i"

definition bitmask_isbitclear :: "bitmask \<Rightarrow> nat \<Rightarrow> bool" where
  "bitmask_isbitclear bmp i = (\<not> getbit bmp i)"

text \<open>A loop that returns at the first index of the list for which the test fails.\<close>

fun check_loop :: "(nat \<Rightarrow> bool) \<Rightarrow> nat list \<Rightarrow> bool" where
  "check_loop ok [] = True"
| "check_loop ok (i # is) = (if \<not> ok i then False else check_loop ok is)"

definition bitmask_isallset :: "bitmask \<Rightarrow> bool" where
  "bitmask_isallset bmp = check_loop (\<lambda>i. getbit bmp i) [0..<bsize bmp]"

definition bitmask_isallclear :: "bitmask \<Rightarrow> bool" where
  "bitmask_isallclear bmp = check_loop (\<lambda>i. \<not> getbit bmp i) [0..<bsize bmp]"

definition bitmask_equal :: "bitmask \<Rightarrow> bitmask \<Rightarrow> bool" where
  "bitmask_equal bmp1 bmp2 = check_loop (\<lambda>i. getbit bmp1 i = getbit bmp2 i) [0..<max (bsize bmp1) (bsize bmp2)]"

definition bitmask_subset :: "bitmask \<Rightarrow> bitmask \<Rightarrow> bool" where
  "bitmask_subset bmp1 bmp2 = check_loop (\<lambda>i. \<not> (getbit bmp1 i > getbit bmp2 i)) [0..<bsize bmp1]"

definition bitmask_disjoint :: "bitmask \<Rightarrow> bitmask \<Rightarrow> bool" where
  "bitmask_disjoint bmp1 bmp2 = check_loop (\<lambda>i. \<not> (getbit bmp1 i \<and> getbit bmp2 i)) [0..<bsize bmp1]"

definition bitmask_intersects :: "bitmask \<Rightarrow> bitmask \<Rightarrow> bool" where
  "bitmask_intersects bmp1 bmp2 = (\<not> check_loop (\<lambda>i. \<not> (getbit bmp1 i \<and> getbit bmp2 i)) [0..<bsize bmp1])"

section \<open>Updates\<close>

definition bitmask_setbit :: "bstore \<Rightarrow> nat \<Rightarrow> nat \<Rightarrow> bstore" where
  "bitmask_setbit st p i = store_bit p i True st"

definition bitmask_clearbit :: "bstore \<Rightarrow> nat \<Rightarrow> nat \<Rightarrow> bstore" where
  "bitmask_clearbit st p i = store_bit p i False st"

definition bitmask_setrange :: "bstore \<Rightarrow> nat \<Rightarrow> nat \<Rightarrow> nat \<Rightarrow> bstore" where
  "bitmask_setrange st p i j = bit_loop p (\<lambda>n s. True) [i..<j] st"

definition bitmask_clearrange :: "bstore \<Rightarrow> nat \<Rightarrow> nat \<Rightarrow> nat \<Rightarrow> bstore" where
  "bitmask_clearrange st p i j = bit_loop p (\<lambda>n s. False) [i..<j] st"

definition bitmask_keeprange :: "bstore \<Rightarrow> nat \<Rightarrow> nat \<Rightarrow> nat \<Rightarrow> bstore" where
  "bitmask_keeprange st p i j =
     (let st1 = bitmask_clearrange st p 0 i in bitmask_clearrange st1 p j (bsize (st1 p)))"

definition bitmask_complement :: "bstore \<Rightarrow> nat \<Rightarrow> nat \<Rightarrow> bstore" where
  "bitmask_complement st p1 p2 = bit_loop p1 (\<lambda>i s. \<not> getbit (s p2) i) [0..<bsize (st p1)] st"

definition bitmask_shiftright :: "bstore \<Rightarrow> nat \<Rightarrow> nat \<Rightarrow> nat \<Rightarrow> bstore" where
  "bitmask_shiftright st p1 p2 n = bit_loop p1 (\<lambda>i s. getbit (s p2) (u32 (i + n))) [0..<bsize (st p1)] st"

text \<open>The loop runs downwards with an \<^verbatim>\<open>int\<close> counter; \<open>i - n\<close> is computed modulo $2^{32}$.\<close>

definition bitmask_shiftleft :: "bstore \<Rightarrow> nat \<Rightarrow> nat \<Rightarrow> nat \<Rightarrow> bstore" where
  "bitmask_shiftleft st p1 p2 n =
     bit_loop p1 (\<lambda>i s. getbit (s p2) (u32 (i + 2 ^ 32 - n)))
       (if bsize (st p1) \<le> 2 ^ 31 then rev [0..<bsize (st p1)] else []) st"

definition bitmask_and :: "bstore \<Rightarrow> nat \<Rightarrow> nat \<Rightarrow> nat \<Rightarrow> bstore" where
  "bitmask_and st p1 p2 p3 = bit_loop p1 (\<lambda>i s. getbit (s p2) i \<and> getbit (s p3) i) [0..<bsize (st p1)] st"

definition bitmask_andnot :: "bstore \<Rightarrow> nat \<Rightarrow> nat \<Rightarrow> nat \<Rightarrow> bstore" where
  "bitmask_andnot st p1 p2 p3 = bit_loop p1 (\<lambda>i s. getbit (s p2) i \<and> \<not> getbit (s p3) i) [0..<bsize (st p1)] st"

definition bitmask_or :: "bstore \<Rightarrow> nat \<Rightarrow> nat \<Rightarrow> nat \<Rightarrow> bstore" where
  "bitmask_or st p1 p2 p3 = bit_loop p1 (\<lambda>i s. getbit (s p2) i \<or> getbit (s p3) i) [0..<bsize (st p1)] st"

definition bitmask_eor :: "bstore \<Rightarrow> nat \<Rightarrow> nat \<Rightarrow> nat \<Rightarrow> bstore" where
  "bitmask_eor st p1 p2 p3 = bit_loop p1 (\<lambda>i s. getbit (s p2) i \<noteq> getbit (s p3) i) [0..<bsize (st p1)] st"

section \<open>Iteration\<close>

text \<open>The first index of a list for which the test holds, or the index behind the list.\<close>

fun find_loop :: "(nat \<Rightarrow> bool) \<Rightarrow> nat list \<Rightarrow> nat \<Rightarrow> nat" where
  "find_loop hit [] after = after"
| "find_loop hit (i # is) after = (if hit i then i else find_loop hit is after)"

definition bitmask_next :: "bitmask \<Rightarrow> nat \<Rightarrow> nat" where
  "bitmask_next bmp i = find_loop (getbit bmp) [i..<bsize bmp] (max i (bsize bmp))"

definition bitmask_first :: "bitmask \<Rightarrow> nat" where
  "bitmask_first bmp = bitmask_next bmp 0"

text \<open>\<^verbatim>\<open>n-- == 0\<close> decrements only at set bits.\<close>

fun rel_loop :: "bitmask \<Rightarrow> nat list \<Rightarrow> nat \<Rightarrow> nat \<Rightarrow> nat" where
  "rel_loop bmp [] n after = after"
| "rel_loop bmp (i # is) n after =
     (if getbit bmp i then (if n = 0 then i else rel_loop bmp is (n - 1) after) else rel_loop bmp is n after)"

definition bitmask_rel_to_abs_pos :: "bitmask \<Rightarrow> nat \<Rightarrow> nat" where
  "bitmask_rel_to_abs_pos bmp n = rel_loop bmp [0..<bsize bmp] n (bsize bmp)"

definition bitmask_abs_to_rel_pos :: "bitmask \<Rightarrow> nat \<Rightarrow> nat" where
  "bitmask_abs_to_rel_pos bmp n =
     (if \<not> getbit bmp n then bsize bmp
      else fold (\<lambda>i w. if getbit bmp i then w + 1 else w) [0..<n] 0)"

definition bitmask_last :: "bitmask \<Rightarrow> nat" where
  "bitmask_last bmp = fold (\<lambda>i m. if getbit bmp i then i else m) [0..<bsize bmp] (bsize bmp)"

end
