(* ===== verification/Bitmask_Props.thy ===== *)
theory Bitmask_Props
  imports Bitmask
begin

text \<open>
  What the operations on masks compute, as sets of bit numbers: the updates also when the result is
  one of the operands, the shifts with their 32-bit index arithmetic, the queries, and the maps
  between bit numbers and ranks.
\<close>

section \<open>The contract of a bit array and of loops over it\<close>

locale bit_array =
  fixes sz :: "'a \<Rightarrow> nat" and get :: "'a \<Rightarrow> nat \<Rightarrow> bool" and put :: "'a \<Rightarrow> nat \<Rightarrow> bool \<Rightarrow> 'a" and ok :: "'a \<Rightarrow> bool"
  assumes get_range: "get a i \<Longrightarrow> i < sz a"
    and sz_put: "sz (put a i v) = sz a"
    and ok_put: "ok a \<Longrightarrow> ok (put a i v)"
    and get_put: "ok a \<Longrightarrow> get (put a i v) j = (if i = j \<and> j < sz a then v else get a j)"
begin

definition put_at :: "nat \<Rightarrow> nat \<Rightarrow> bool \<Rightarrow> (nat \<Rightarrow> 'a) \<Rightarrow> (nat \<Rightarrow> 'a)" where
  "put_at p i v st = st(p := put (st p) i v)"

definition loop :: "nat \<Rightarrow> (nat \<Rightarrow> (nat \<Rightarrow> 'a) \<Rightarrow> bool) \<Rightarrow> nat list \<Rightarrow> (nat \<Rightarrow> 'a) \<Rightarrow> (nat \<Rightarrow> 'a)" where
  "loop p v is st = fold (\<lambda>i s. put_at p i (v i s) s) is st"

text \<open>The value for \<open>i\<close> depends on the store only through the bits with numbers in \<open>R i\<close>.\<close>

definition reads :: "(nat \<Rightarrow> (nat \<Rightarrow> 'a) \<Rightarrow> bool) \<Rightarrow> (nat \<Rightarrow> nat set) \<Rightarrow> bool" where
  "reads v R \<longleftrightarrow> (\<forall>i s s'. (\<forall>q. \<forall>j \<in> R i. get (s q) j = get (s' q) j) \<longrightarrow> v i s = v i s')"

lemma loop_nil [simp]: "loop p v [] st = st"
  by (simp add: loop_def)

lemma loop_snoc [simp]: "loop p v (is @ [i]) st = put_at p i (v i (loop p v is st)) (loop p v is st)"
  by (simp add: loop_def)

lemma loop_other: "q \<noteq> p \<Longrightarrow> loop p v is st q = st q"
  by (induction "is" rule: rev_induct) (simp_all add: put_at_def)

lemma loop_sz: "sz (loop p v is st q) = sz (st q)"
  by (induction "is" arbitrary: q rule: rev_induct) (simp_all add: put_at_def sz_put)

lemma loop_ok: "ok (st p) \<Longrightarrow> ok (loop p v is st p)"
  by (induction "is" rule: rev_induct) (simp_all add: put_at_def ok_put)

text \<open>A loop that reads no bit number it has already written computes every bit from the first store, whichever
  of the masks are the same.\<close>

lemma loop_get:
  assumes "ok (st p)" "distinct is" "reads v R" "\<And>xs i ys. is = xs @ i # ys \<Longrightarrow> set xs \<inter> R i = {}"
  shows "get (loop p v is st q) j = (if q = p \<and> j \<in> set is \<and> j < sz (st p) then v j st else get (st q) j)"
  using assms(2, 4)
proof (induction "is" arbitrary: q j rule: rev_induct)
  case Nil
  then show ?case by simp
next
  case (snoc i "is")
  have d: "distinct is" "i \<notin> set is" using snoc.prems(1) by auto
  have pre: "set xs \<inter> R k = {}" if "is = xs @ k # ys" for xs k ys using snoc.prems(2) [of xs k "ys @ [i]"] that by simp
  note IH = snoc.IH [OF d(1) pre]
  have "set is \<inter> R i = {}" using snoc.prems(2) [of "is" i "[]"] by simp
  then have "\<forall>q. \<forall>k \<in> R i. get (loop p v is st q) k = get (st q) k" using IH by auto
  then have v: "v i (loop p v is st) = v i st" using assms(3) unfolding reads_def by blast
  show ?case
    using IH loop_ok [of st p v "is", OF assms(1)] d(2)
    by (auto simp: put_at_def get_put v loop_sz)
qed

end

definition mask_ok :: "bitmask \<Rightarrow> bool" where
  "mask_ok bmp \<longleftrightarrow> bsize bmp < 2 ^ 32 \<and> length (maskp bmp) = longsperbits (bsize bmp)"

lemma getbit_bit: "getbit bmp n \<longleftrightarrow> n < bsize bmp \<and> bit (maskp bmp ! (n div 64)) (n mod 64)"
  by (simp add: getbit_def bitsperlong_def bit_drop_bit_eq)

lemma setbit_word: "(m::nat) < 64 \<Longrightarrow> k < 64 \<Longrightarrow>
    bit (if v then w OR push_bit k (1 :: 64 word) else w AND NOT (push_bit k 1)) m = (if m = k then v else bit w m)"
  by (auto simp: bit_or_iff bit_and_iff bit_not_iff bit_exp_iff)

lemma setbit_getbit:
  assumes "mask_ok bmp"
  shows "getbit (setbit bmp i v) j = (if i = j \<and> j < bsize bmp then v else getbit bmp j)"
proof (cases "i < bsize bmp \<and> j < bsize bmp")
  case True
  then have l: "i div 64 < length (maskp bmp)" "j div 64 < length (maskp bmp)"
    using assms by (auto simp: mask_ok_def longsperbits_def howmany_def bitsperlong_def)
  have e: "i = j \<longleftrightarrow> i div 64 = j div 64 \<and> i mod 64 = j mod 64" by (metis div_mult_mod_eq)
  have "getbit (setbit bmp i v) j \<longleftrightarrow>
      bit (if i div 64 = j div 64 then
             (if v then maskp bmp ! (i div 64) OR push_bit (i mod 64) 1 else maskp bmp ! (i div 64) AND NOT (push_bit (i mod 64) 1))
           else maskp bmp ! (j div 64)) (j mod 64)"
    using True l by (simp add: getbit_bit setbit_def bitsperlong_def Let_def nth_list_update)
  also have "\<dots> = (if i = j then v else getbit bmp j)"
  proof (cases "i div 64 = j div 64")
    case same: True
    have "bit (if v then maskp bmp ! (i div 64) OR push_bit (i mod 64) 1 else maskp bmp ! (i div 64) AND NOT (push_bit (i mod 64) 1)) (j mod 64)
        = (if j mod 64 = i mod 64 then v else bit (maskp bmp ! (i div 64)) (j mod 64))"
      by (rule setbit_word) simp_all
    then show ?thesis using same e True by (auto simp: getbit_bit)
  qed (use e True in \<open>auto simp: getbit_bit\<close>)
  finally show ?thesis using True by simp
next
  case False
  then show ?thesis by (auto simp: getbit_bit setbit_def Let_def)
qed

lemma bsize_setbit [simp]: "bsize (setbit bmp i v) = bsize bmp"
  by (simp add: setbit_def Let_def)

lemma mask_ok_setbit: "mask_ok bmp \<Longrightarrow> mask_ok (setbit bmp i v)"
  by (simp add: mask_ok_def setbit_def Let_def)

interpretation ba: bit_array bsize getbit setbit mask_ok
  by unfold_locales (auto simp: mask_ok_setbit setbit_getbit, simp add: getbit_bit)

lemma store_bit_put: "store_bit = ba.put_at"
  by (intro ext) (simp add: store_bit_def ba.put_at_def)

lemma bit_loop_loop: "bit_loop = ba.loop"
  by (intro ext) (simp add: bit_loop_def ba.loop_def store_bit_put)

section \<open>Updates\<close>

lemma upt_split_before: "[0..<n] = xs @ i # ys \<Longrightarrow> k \<in> set xs \<Longrightarrow> k < i"
  using sorted_wrt_upt [of 0 n] by (auto simp: sorted_wrt_append)

lemma rev_upt_split_before:
  assumes "rev [0..<n] = xs @ i # ys" "k \<in> set xs"
  shows "i < k"
proof -
  have "rev (rev [0..<n]) = rev (xs @ i # ys)" using assms(1) by (rule arg_cong)
  then have "[0..<n] = rev ys @ i # rev xs" by simp
  then show ?thesis using assms(2) sorted_wrt_upt [of 0 n] by (auto simp: sorted_wrt_append)
qed

text \<open>A pointwise loop: the value for \<open>i\<close> is read at \<open>i\<close>.\<close>

lemma pointwise_loop:
  assumes "mask_ok (st p)" "\<And>i s s'. \<forall>q. getbit (s q) i = getbit (s' q) i \<Longrightarrow> v i s = v i s'"
  shows "getbit (bit_loop p v [a..<b] st q) j =
     (if q = p \<and> a \<le> j \<and> j < b \<and> j < bsize (st p) then v j st else getbit (st q) j)"
proof -
  have r: "ba.reads v (\<lambda>i. {i})" unfolding ba.reads_def using assms(2) by auto
  have "set xs \<inter> {i} = {}" if "[a..<b] = xs @ i # ys" for xs i ys
    using distinct_upt [of a b] that by auto
  then show ?thesis
    unfolding bit_loop_loop using ba.loop_get [of st p "[a..<b]" v "\<lambda>i. {i}" q j, OF assms(1) distinct_upt r] by auto
qed

text \<open>What an update of \<open>p\<close> promises: the bits of \<open>p\<close> become \<open>S\<close>, cut to its size; other masks, the size and the layout
  stay.\<close>

definition bits :: "bitmask \<Rightarrow> nat set" where
  "bits bmp = {i. getbit bmp i}"

definition assigns :: "nat \<Rightarrow> bstore \<Rightarrow> nat set \<Rightarrow> bstore \<Rightarrow> bool" where
  "assigns p st S st' \<longleftrightarrow>
     bits (st' p) = S \<inter> {..<bsize (st p)} \<and> (\<forall>q. q \<noteq> p \<longrightarrow> st' q = st q) \<and> bsize (st' p) = bsize (st p) \<and> mask_ok (st' p)"

lemma assigns_trans: "assigns p st S st1 \<Longrightarrow> assigns p st1 T st2 \<Longrightarrow> assigns p st T st2"
  by (auto simp: assigns_def)

lemma bits_bound: "getbit bmp i \<Longrightarrow> i < bsize bmp"
  by (simp add: getbit_bit)

lemma mem_bits [simp]: "i \<in> bits bmp \<longleftrightarrow> getbit bmp i"
  by (simp add: bits_def)

lemma bits_filter [code]: "bits bmp = set (filter (getbit bmp) [0..<bsize bmp])"
  using bits_bound [of bmp] by auto

lemma loop_assigns:
  assumes "mask_ok (st p)" "\<And>j. j < bsize (st p) \<Longrightarrow> getbit (bit_loop p v is st p) j \<longleftrightarrow> j \<in> S"
  shows "assigns p st S (bit_loop p v is st)"
  unfolding assigns_def
proof (intro conjI)
  show sz: "bsize (bit_loop p v is st p) = bsize (st p)" by (simp add: bit_loop_loop ba.loop_sz)
  show "bits (bit_loop p v is st p) = S \<inter> {..<bsize (st p)}"
    using assms(2) bits_bound [of "bit_loop p v is st p"] unfolding sz by (auto simp: set_eq_iff)
qed (use assms(1) in \<open>simp_all add: bit_loop_loop ba.loop_other ba.loop_ok\<close>)

lemma pointwise_assigns:
  assumes "mask_ok (st p)" "\<And>i s s'. \<forall>q. getbit (s q) i = getbit (s' q) i \<Longrightarrow> v i s = v i s'"
    "\<And>j. j < bsize (st p) \<Longrightarrow> (if a \<le> j \<and> j < b then v j st else j \<in> bits (st p)) \<longleftrightarrow> j \<in> S"
  shows "assigns p st S (bit_loop p v [a..<b] st)"
proof (rule loop_assigns [where p = p and st = st, OF assms(1)])
  fix j assume "j < bsize (st p)"
  then show "getbit (bit_loop p v [a..<b] st p) j \<longleftrightarrow> j \<in> S"
    using assms(3) [of j] pointwise_loop [of st p v a b p j, OF assms(1, 2)] by auto
qed

lemma setrange_assigns:
  "mask_ok (st p) \<Longrightarrow> assigns p st (bits (st p) \<union> {i..<j}) (bitmask_setrange st p i j)"
  unfolding bitmask_setrange_def by (rule pointwise_assigns) auto

lemma clearrange_assigns:
  "mask_ok (st p) \<Longrightarrow> assigns p st (bits (st p) - {i..<j}) (bitmask_clearrange st p i j)"
  unfolding bitmask_clearrange_def by (rule pointwise_assigns) auto

lemma setall_assigns: "mask_ok (st p) \<Longrightarrow> assigns p st {..<bsize (st p)} (bitmask_setall st p)"
  unfolding bitmask_setall_def by (rule pointwise_assigns) auto

lemma clearall_assigns: "mask_ok (st p) \<Longrightarrow> assigns p st {} (bitmask_clearall st p)"
  unfolding bitmask_clearall_def by (rule pointwise_assigns) auto

lemma keeprange_assigns:
  assumes "mask_ok (st p)"
  shows "assigns p st (bits (st p) \<inter> {i..<j}) (bitmask_keeprange st p i j)"
proof -
  let ?s = "bitmask_clearrange st p 0 i"
  have a: "assigns p st (bits (st p) - {0..<i}) ?s" using assms by (rule clearrange_assigns)
  then have ok: "mask_ok (?s p)" and sz: "bsize (?s p) = bsize (st p)" and b: "bits (?s p) = bits (st p) - {0..<i}"
    using bits_bound [of "st p"] by (auto simp: assigns_def)
  have "assigns p st (bits (?s p) - {j..<bsize (?s p)}) (bitmask_clearrange ?s p j (bsize (?s p)))"
    by (rule assigns_trans [OF a clearrange_assigns [where p = p and st = ?s, OF ok]])
  then show ?thesis
    unfolding bitmask_keeprange_def Let_def b sz by (auto simp: assigns_def)
qed

lemma store_bit_bits:
  "mask_ok (st p) \<Longrightarrow> assigns p st (if v then insert i (bits (st p)) else bits (st p) - {i}) (store_bit p i v st)"
  using bits_bound [of "st p"]
  by (auto simp: assigns_def store_bit_def mask_ok_setbit setbit_getbit split: if_splits)

text \<open>
  C15: the assignments and the Boolean operations give the mask \<open>p1\<close> exactly the bits of the set operation on the
  operands as they were before the call, cut to the size of \<open>p1\<close>, whichever of the three masks are the
  same and whatever their sizes, and change nothing else.
\<close>

theorem bitmask_ops_alias:
  assumes "mask_ok (st p1)"
  shows "assigns p1 st (bits (st p2)) (bitmask_copy st p1 p2) \<and>
    assigns p1 st (- bits (st p2)) (bitmask_complement st p1 p2) \<and>
    assigns p1 st (bits (st p2) \<inter> bits (st p3)) (bitmask_and st p1 p2 p3) \<and>
    assigns p1 st (bits (st p2) - bits (st p3)) (bitmask_andnot st p1 p2 p3) \<and>
    assigns p1 st (bits (st p2) \<union> bits (st p3)) (bitmask_or st p1 p2 p3) \<and>
    assigns p1 st ((bits (st p2) - bits (st p3)) \<union> (bits (st p3) - bits (st p2))) (bitmask_eor st p1 p2 p3)"
  unfolding bitmask_copy_def bitmask_complement_def bitmask_and_def bitmask_andnot_def bitmask_or_def bitmask_eor_def
  by (intro conjI pointwise_assigns [where p = p1 and st = st, OF assms]) auto

theorem bitmask_ops_alias_witness:
  "assigns 0 (\<lambda>p. \<lparr>bsize = 5, maskp = [11]\<rparr>) {2, 4} (bitmask_complement (\<lambda>p. \<lparr>bsize = 5, maskp = [11]\<rparr>) 0 0)"
proof -
  let ?st = "\<lambda>p :: nat. \<lparr>bsize = 5, maskp = [11 :: 64 word]\<rparr>"
  have ok: "mask_ok (?st 0)" by (simp add: mask_ok_def longsperbits_def howmany_def bitsperlong_def)
  have "assigns 0 ?st (- bits (?st 0)) (bitmask_complement ?st 0 0)" using bitmask_ops_alias [of ?st 0 0 0, OF ok] by blast
  moreover have "bits (?st 0) = {0, 1, 3}" by code_simp
  ultimately have "assigns 0 ?st (- {0, 1, 3}) (bitmask_complement ?st 0 0)" by simp
  moreover have "- {0, 1, 3} \<inter> {..<5} = {2, 4} \<inter> {..<5 :: nat}" by auto
  ultimately show ?thesis by (simp add: assigns_def)
qed

lemma shiftright_assigns:
  assumes "mask_ok (st p1)" "bsize (st p1) + n \<le> 2 ^ 32"
  shows "assigns p1 st {i. i + n \<in> bits (st p2)} (bitmask_shiftright st p1 p2 n)"
  unfolding bitmask_shiftright_def
proof (rule loop_assigns [where p = p1 and st = st, OF assms(1)])
  let ?v = "\<lambda>i s. getbit (s p2) (u32 (i + n))"
  fix j assume j: "j < bsize (st p1)"
  define R where "R i = (if i < bsize (st p1) then {i + n} else UNIV)" for i
  have r: "ba.reads ?v R" using assms(2) by (auto simp: ba.reads_def u32_def R_def)
  have "set xs \<inter> R i = {}" if "[0..<bsize (st p1)] = xs @ i # ys" for xs i ys
  proof -
    have "i \<in> set [0..<bsize (st p1)]" unfolding that by simp
    then show ?thesis using upt_split_before [OF that] by (fastforce simp: R_def)
  qed
  then show "getbit (bit_loop p1 ?v [0..<bsize (st p1)] st p1) j \<longleftrightarrow> j \<in> {i. i + n \<in> bits (st p2)}"
    unfolding bit_loop_loop using ba.loop_get [of st p1 "[0..<bsize (st p1)]" ?v R p1 j, OF assms(1) distinct_upt r] j assms(2)
    by (simp add: u32_def)
qed

lemma u32_minus:
  assumes "n < 2 ^ 32" "i < 2 ^ 32"
  shows "u32 (i + 2 ^ 32 - n) = (if n \<le> i then i - n else i + 2 ^ 32 - n)"
proof (cases "n \<le> i")
  case True
  then have e: "i + 2 ^ 32 - n = (i - n) + 2 ^ 32" by simp
  have "((i - n) + 2 ^ 32) mod 2 ^ 32 = i - n" using assms(2) by simp
  then show ?thesis using True unfolding u32_def e by simp
qed (use assms in \<open>simp add: u32_def\<close>)

lemma shiftleft_assigns:
  assumes "mask_ok (st p1)" "bsize (st p1) + n \<le> 2 ^ 32" "bsize (st p2) + n \<le> 2 ^ 32" "n < 2 ^ 32" "bsize (st p1) \<le> 2 ^ 31"
  shows "assigns p1 st ((\<lambda>i. i + n) ` bits (st p2)) (bitmask_shiftleft st p1 p2 n)"
proof -
  let ?v = "\<lambda>i s. getbit (s p2) (u32 (i + 2 ^ 32 - n))"
  let ?is = "rev [0..<bsize (st p1)]"
  have "assigns p1 st ((\<lambda>i. i + n) ` bits (st p2)) (bit_loop p1 ?v ?is st)"
  proof (rule loop_assigns [where p = p1 and st = st, OF assms(1)])
    fix j assume j: "j < bsize (st p1)"
    define R where "R i = (if i < bsize (st p1) then {u32 (i + 2 ^ 32 - n)} else UNIV)" for i
    have r: "ba.reads ?v R" by (auto simp: ba.reads_def R_def)
    have "set xs \<inter> R i = {}" if "?is = xs @ i # ys" for xs i ys
    proof -
      have i: "i \<in> set ?is" and xs: "set xs \<subseteq> set ?is" unfolding that by auto
      have "u32 (i + 2 ^ 32 - n) \<noteq> k" if k: "k \<in> set xs" for k
        using k xs rev_upt_split_before [OF \<open>?is = xs @ i # ys\<close> k] u32_minus [OF assms(4), of i] i assms(2, 5)
        by (auto split: if_splits)
      then show ?thesis using i by (auto simp: R_def)
    qed
    then have "getbit (bit_loop p1 ?v ?is st p1) j \<longleftrightarrow> u32 (j + 2 ^ 32 - n) \<in> bits (st p2)"
      unfolding bit_loop_loop using ba.loop_get [of st p1 ?is ?v R p1 j, OF assms(1) _ r] j by simp
    also have "\<dots> \<longleftrightarrow> j \<in> (\<lambda>i. i + n) ` bits (st p2)"
    proof (cases "n \<le> j")
      case True
      then show ?thesis using u32_minus [OF assms(4), of j] j assms(5) by (auto simp: image_iff intro: bexI [of _ "j - n"])
    next
      case False
      then show ?thesis
        using u32_minus [OF assms(4), of j] j assms(3, 5) bits_bound [of "st p2" "j + 2 ^ 32 - n"] by auto
    qed
    finally show "getbit (bit_loop p1 ?v ?is st p1) j \<longleftrightarrow> j \<in> (\<lambda>i. i + n) ` bits (st p2)" .
  qed
  then show ?thesis using assms(5) by (simp add: bitmask_shiftleft_def)
qed

text \<open>
  C22: as long as the index sums stay below $2^{32}$, the shifts move every bit of the operand as it was before the
  call by \<open>n\<close> places and fill with zeros, also when a mask is shifted onto itself: the right shift because its
  loop runs upwards, the left shift because its loop runs downwards.
\<close>

theorem bitmask_shift_alias:
  assumes "mask_ok (st p1)" "bsize (st p1) + n \<le> 2 ^ 32" "bsize (st p2) + n \<le> 2 ^ 32" "n < 2 ^ 32" "bsize (st p1) \<le> 2 ^ 31"
  shows "assigns p1 st {i. i + n \<in> bits (st p2)} (bitmask_shiftright st p1 p2 n) \<and>
    assigns p1 st ((\<lambda>i. i + n) ` bits (st p2)) (bitmask_shiftleft st p1 p2 n)"
  using shiftright_assigns [of st p1 n p2, OF assms(1, 2)] shiftleft_assigns [of st p1 n p2, OF assms] by blast

theorem bitmask_shift_alias_witness:
  "bits (bitmask_shiftleft (\<lambda>p. \<lparr>bsize = 5, maskp = [11]\<rparr>) 0 0 1 0) = {1, 2, 4}"
proof -
  let ?st = "\<lambda>p :: nat. \<lparr>bsize = 5, maskp = [11 :: 64 word]\<rparr>"
  have ok: "mask_ok (?st 0)" by (simp add: mask_ok_def longsperbits_def howmany_def bitsperlong_def)
  have "assigns 0 ?st ((\<lambda>i. i + 1) ` bits (?st 0)) (bitmask_shiftleft ?st 0 0 1)"
    using bitmask_shift_alias [of ?st 0 1 0, OF ok] by simp
  moreover have "bits (?st 0) = {0, 1, 3}" by code_simp
  ultimately have "assigns 0 ?st ((\<lambda>i. i + 1) ` {0, 1, 3}) (bitmask_shiftleft ?st 0 0 1)" by simp
  then show ?thesis by (auto simp: assigns_def)
qed

text \<open>
  C25: a fresh mask is empty and well formed; setting or clearing one bit, a range or all bits, and keeping a range,
  change the bits of the mask by exactly that set, cut to its size, and nothing else.
\<close>

theorem bitmask_range_ops:
  assumes "mask_ok (st p)" "n < 2 ^ 32"
  shows "(\<exists>bmp. bitmask_alloc True True n = Some bmp \<and> mask_ok bmp \<and> bsize bmp = n \<and> bits bmp = {}) \<and>
    assigns p st {..<bsize (st p)} (bitmask_setall st p) \<and> assigns p st {} (bitmask_clearall st p) \<and>
    assigns p st (insert i (bits (st p))) (bitmask_setbit st p i) \<and>
    assigns p st (bits (st p) - {i}) (bitmask_clearbit st p i) \<and>
    assigns p st (bits (st p) \<union> {i..<j}) (bitmask_setrange st p i j) \<and>
    assigns p st (bits (st p) - {i..<j}) (bitmask_clearrange st p i j) \<and>
    assigns p st (bits (st p) \<inter> {i..<j}) (bitmask_keeprange st p i j)"
proof (intro conjI)
  show "\<exists>bmp. bitmask_alloc True True n = Some bmp \<and> mask_ok bmp \<and> bsize bmp = n \<and> bits bmp = {}"
    using assms(2) by (auto simp: bitmask_alloc_def mask_ok_def bits_def getbit_bit longsperbits_def howmany_def bitsperlong_def)
  show "assigns p st (insert i (bits (st p))) (bitmask_setbit st p i)"
    using store_bit_bits [of st p True i, OF assms(1)] by (simp add: bitmask_setbit_def)
  show "assigns p st (bits (st p) - {i}) (bitmask_clearbit st p i)"
    using store_bit_bits [of st p False i, OF assms(1)] by (simp add: bitmask_clearbit_def)
qed (use assms(1) in \<open>rule setall_assigns clearall_assigns setrange_assigns clearrange_assigns keeprange_assigns\<close>)+

theorem bitmask_range_ops_witness:
  "bits (bitmask_keeprange (\<lambda>p. \<lparr>bsize = 5, maskp = [11]\<rparr>) 0 1 4 0) = {1, 3}"
proof -
  let ?st = "\<lambda>p :: nat. \<lparr>bsize = 5, maskp = [11 :: 64 word]\<rparr>"
  have ok: "mask_ok (?st 0)" by (simp add: mask_ok_def longsperbits_def howmany_def bitsperlong_def)
  have "assigns 0 ?st (bits (?st 0) \<inter> {1..<4}) (bitmask_keeprange ?st 0 1 4)"
    using bitmask_range_ops [of ?st 0 5 1 4, OF ok] by simp
  moreover have "bits (?st 0) = {0, 1, 3}" by code_simp
  ultimately have "assigns 0 ?st ({0, 1, 3} \<inter> {1..<4}) (bitmask_keeprange ?st 0 1 4)" by simp
  then show ?thesis by (auto simp: assigns_def)
qed

section \<open>Queries\<close>

lemma count_loop: "fold (\<lambda>i w. if P i then w + 1 else w) is k = k + length (filter P is)"
  by (induction "is" arbitrary: k) auto

lemma check_loop_all: "check_loop ok is \<longleftrightarrow> (\<forall>i \<in> set is. ok i)"
  by (induction "is") auto

lemma check_loop_upt: "check_loop ok [0..<n] \<longleftrightarrow> (\<forall>i<n. ok i)"
  by (auto simp: check_loop_all)

lemma finite_bits [simp]: "finite (bits bmp)"
  by (simp add: bits_filter)

lemma count_below: "length (filter (getbit bmp) [0..<n]) = card {i \<in> bits bmp. i < n}"
proof -
  have "set (filter (getbit bmp) [0..<n]) = {i \<in> bits bmp. i < n}" by auto
  then show ?thesis using distinct_card [of "filter (getbit bmp) [0..<n]"] by simp
qed

lemma weight_card: "bitmask_weight bmp = card (bits bmp)"
proof -
  have "{i \<in> bits bmp. i < bsize bmp} = bits bmp" using bits_bound [of bmp] by auto
  then show ?thesis using count_below [of bmp "bsize bmp"] by (simp add: bitmask_weight_def count_loop)
qed

text \<open>
  C24: the queries answer the questions about sets of bits, also for masks of different sizes: the weight is the number of
  bits, two masks are equal, ordered, disjoint or overlapping when their sets of bits are, and a mask is all set or
  all clear when its set is everything below its size or nothing.
\<close>

theorem bitmask_queries:
  "bitmask_weight bmp1 = card (bits bmp1) \<and>
   (bitmask_isbitset bmp1 i \<longleftrightarrow> i \<in> bits bmp1) \<and> (bitmask_isbitclear bmp1 i \<longleftrightarrow> i \<notin> bits bmp1) \<and>
   (bitmask_isallset bmp1 \<longleftrightarrow> bits bmp1 = {..<bsize bmp1}) \<and> (bitmask_isallclear bmp1 \<longleftrightarrow> bits bmp1 = {}) \<and>
   (bitmask_equal bmp1 bmp2 \<longleftrightarrow> bits bmp1 = bits bmp2) \<and> (bitmask_subset bmp1 bmp2 \<longleftrightarrow> bits bmp1 \<subseteq> bits bmp2) \<and>
   (bitmask_disjoint bmp1 bmp2 \<longleftrightarrow> bits bmp1 \<inter> bits bmp2 = {}) \<and>
   (bitmask_intersects bmp1 bmp2 \<longleftrightarrow> bits bmp1 \<inter> bits bmp2 \<noteq> {})"
proof (intro conjI)
  note b = bits_bound [of bmp1] bits_bound [of bmp2]
  show "bitmask_equal bmp1 bmp2 \<longleftrightarrow> bits bmp1 = bits bmp2"
    using b unfolding bitmask_equal_def check_loop_upt less_max_iff_disj by (auto simp only: set_eq_iff mem_bits)
  show "bitmask_isallset bmp1 \<longleftrightarrow> bits bmp1 = {..<bsize bmp1}"
    using b(1) unfolding bitmask_isallset_def check_loop_upt by (auto simp only: set_eq_iff mem_bits lessThan_iff empty_iff)
  show "bitmask_isallclear bmp1 \<longleftrightarrow> bits bmp1 = {}"
    using b(1) unfolding bitmask_isallclear_def check_loop_upt by (auto simp only: set_eq_iff mem_bits lessThan_iff empty_iff)
  show "bitmask_subset bmp1 bmp2 \<longleftrightarrow> bits bmp1 \<subseteq> bits bmp2"
    using b(1) unfolding bitmask_subset_def check_loop_upt by (auto simp only: set_eq_iff subset_iff Int_iff mem_bits empty_iff less_bool_def)
  show "bitmask_disjoint bmp1 bmp2 \<longleftrightarrow> bits bmp1 \<inter> bits bmp2 = {}"
    using b(1) unfolding bitmask_disjoint_def check_loop_upt by (auto simp only: set_eq_iff subset_iff Int_iff mem_bits empty_iff less_bool_def)
  show "bitmask_intersects bmp1 bmp2 \<longleftrightarrow> bits bmp1 \<inter> bits bmp2 \<noteq> {}"
    using b(1) unfolding bitmask_intersects_def check_loop_upt by (auto simp only: set_eq_iff subset_iff Int_iff mem_bits empty_iff less_bool_def)
qed (simp_all add: weight_card bitmask_isbitset_def bitmask_isbitclear_def)

section \<open>Iteration and ranks\<close>

lemma find_loop_filter:
  "find_loop hit is after = (case filter hit is of [] \<Rightarrow> after | i # _ \<Rightarrow> i)"
  by (induction "is") auto

lemma rel_loop_filter:
  "rel_loop bmp is n after = (let xs = filter (getbit bmp) is in if n < length xs then xs ! n else after)"
  by (induction "is" arbitrary: n) (auto simp: Let_def nth_Cons')

lemma last_loop: "fold (\<lambda>i m. if P i then i else m) is d = (if filter P is = [] then d else last (filter P is))"
  by (induction "is" arbitrary: d) auto

lemma upt_filter_rank:
  assumes "P i" "i < n"
  shows "length (filter P [0..<i]) < length (filter P [0..<n]) \<and> filter P [0..<n] ! length (filter P [0..<i]) = i"
proof -
  have "[0..<n] = [0..<i] @ i # [Suc i..<n]" using assms(2) by (metis less_imp_le_nat upt_add_eq_append upt_conv_Cons le0 le_add_diff_inverse)
  then show ?thesis using assms(1) by (simp add: nth_append)
qed

lemma upt_filter_nth:
  assumes "k < length (filter P [0..<n])"
  shows "length (filter P [0..<filter P [0..<n] ! k]) = k"
proof -
  let ?i = "filter P [0..<n] ! k"
  have i: "P ?i" "?i < n" using nth_mem [OF assms] by auto
  note r = upt_filter_rank [of P, OF i]
  show ?thesis using nth_eq_iff_index_eq [of "filter P [0..<n]" "length (filter P [0..<?i])" k] r assms by simp
qed

lemma abs_to_rel: "getbit bmp i \<Longrightarrow> bitmask_abs_to_rel_pos bmp i = length (filter (getbit bmp) [0..<i])"
  by (simp add: bitmask_abs_to_rel_pos_def count_loop)

lemma rel_to_abs: "bitmask_rel_to_abs_pos bmp k =
    (let xs = filter (getbit bmp) [0..<bsize bmp] in if k < length xs then xs ! k else bsize bmp)"
  by (simp add: bitmask_rel_to_abs_pos_def rel_loop_filter)

lemma weight_length: "bitmask_weight bmp = length (filter (getbit bmp) [0..<bsize bmp])"
  by (simp add: bitmask_weight_def count_loop)

lemma sorted_hd_Min:
  assumes "sorted xs" "xs \<noteq> []"
  shows "hd xs = Min (set xs)" "last xs = Max (set xs)"
proof -
  have "x \<in> set xs \<Longrightarrow> hd xs \<le> x" for x using assms by (cases xs) auto
  then show "hd xs = Min (set xs)" using assms(2) by (intro Min_eqI [symmetric]) auto
  have "x \<in> set xs \<Longrightarrow> x \<le> last xs" for x using assms by (cases xs rule: rev_cases) (auto simp: sorted_append)
  then show "last xs = Max (set xs)" using assms(2) by (intro Max_eqI [symmetric]) auto
qed

lemma sorted_filter_upt: "sorted (filter P [i..<j])"
  by (rule sorted_wrt_filter) simp

lemma next_least: "i \<le> bsize bmp \<Longrightarrow>
    bitmask_next bmp i = (if {j \<in> bits bmp. i \<le> j} = {} then bsize bmp else Min {j \<in> bits bmp. i \<le> j})"
proof -
  assume i: "i \<le> bsize bmp"
  let ?xs = "filter (getbit bmp) [i..<bsize bmp]"
  have s: "set ?xs = {j \<in> bits bmp. i \<le> j}" using bits_bound [of bmp] by auto
  have "bitmask_next bmp i = (if ?xs = [] then bsize bmp else hd ?xs)"
    using i by (simp add: bitmask_next_def find_loop_filter max_def split: list.splits)
  then show ?thesis using sorted_hd_Min(1) [of ?xs] s by (metis set_empty sorted_filter_upt)
qed

lemma last_greatest: "bitmask_last bmp = (if bits bmp = {} then bsize bmp else Max (bits bmp))"
  unfolding bitmask_last_def last_loop bits_filter [of bmp]
  using sorted_hd_Min(2) [of "filter (getbit bmp) [0..<bsize bmp]"] by (metis set_empty sorted_filter_upt)

lemma pos_inverse:
  assumes "getbit bmp i"
  shows "bitmask_rel_to_abs_pos bmp (bitmask_abs_to_rel_pos bmp i) = i"
  using upt_filter_rank [of "getbit bmp", OF assms bits_bound [OF assms]] by (simp add: rel_to_abs abs_to_rel [OF assms])

lemma rank_inverse:
  assumes "k < bitmask_weight bmp"
  shows "getbit bmp (bitmask_rel_to_abs_pos bmp k)" "bitmask_abs_to_rel_pos bmp (bitmask_rel_to_abs_pos bmp k) = k"
proof -
  have k: "k < length (filter (getbit bmp) [0..<bsize bmp])" using assms by (simp add: weight_length)
  then have e: "bitmask_rel_to_abs_pos bmp k = filter (getbit bmp) [0..<bsize bmp] ! k" by (simp add: rel_to_abs)
  show g: "getbit bmp (bitmask_rel_to_abs_pos bmp k)" using nth_mem [OF k] e by simp
  show "bitmask_abs_to_rel_pos bmp (bitmask_rel_to_abs_pos bmp k) = k"
    using abs_to_rel [OF g] upt_filter_nth [OF k] e by simp
qed

text \<open>
  C23: \<^verbatim>\<open>bitmask_first\<close>, \<^verbatim>\<open>bitmask_next\<close> and \<^verbatim>\<open>bitmask_last\<close> find the least bit, the least bit from \<open>i\<close> on and the greatest bit, and
  \<^verbatim>\<open>rel_to_abs_pos\<close> and \<^verbatim>\<open>abs_to_rel_pos\<close> are inverse bijections between the ranks below the weight and
  the bits, in the order of the bits; what does not exist is the size of the mask.
\<close>

theorem bitmask_positions:
  "(\<forall>i \<in> bits bmp. bitmask_abs_to_rel_pos bmp i = card {j \<in> bits bmp. j < i} \<and>
      bitmask_rel_to_abs_pos bmp (bitmask_abs_to_rel_pos bmp i) = i) \<and>
   (\<forall>k < bitmask_weight bmp. bitmask_rel_to_abs_pos bmp k \<in> bits bmp \<and>
      bitmask_abs_to_rel_pos bmp (bitmask_rel_to_abs_pos bmp k) = k) \<and>
   (\<forall>i. i \<notin> bits bmp \<longrightarrow> bitmask_abs_to_rel_pos bmp i = bsize bmp) \<and>
   (\<forall>k \<ge> bitmask_weight bmp. bitmask_rel_to_abs_pos bmp k = bsize bmp) \<and>
   bitmask_first bmp = (if bits bmp = {} then bsize bmp else Min (bits bmp)) \<and>
   (\<forall>i \<le> bsize bmp. bitmask_next bmp i = (if {j \<in> bits bmp. i \<le> j} = {} then bsize bmp else Min {j \<in> bits bmp. i \<le> j})) \<and>
   bitmask_last bmp = (if bits bmp = {} then bsize bmp else Max (bits bmp))"
proof (intro conjI allI ballI impI)
  fix i assume "i \<in> bits bmp"
  then show "bitmask_abs_to_rel_pos bmp i = card {j \<in> bits bmp. j < i}"
    "bitmask_rel_to_abs_pos bmp (bitmask_abs_to_rel_pos bmp i) = i"
    using abs_to_rel [of bmp i] count_below [of bmp i] pos_inverse [of bmp i] by simp_all
next
  show "bitmask_first bmp = (if bits bmp = {} then bsize bmp else Min (bits bmp))"
    using next_least [of 0 bmp] unfolding bitmask_first_def by (simp only: le0 simp_thms Collect_mem_eq)
next
  fix k assume "k < bitmask_weight bmp"
  then show "bitmask_rel_to_abs_pos bmp k \<in> bits bmp" "bitmask_abs_to_rel_pos bmp (bitmask_rel_to_abs_pos bmp k) = k"
    using rank_inverse [of k bmp] by simp_all
qed (auto simp: rel_to_abs weight_length bitmask_abs_to_rel_pos_def next_least last_greatest)

theorem bitmask_positions_witness:
  "bitmask_abs_to_rel_pos \<lparr>bsize = 5, maskp = [11]\<rparr> 3 = 2 \<and> bitmask_rel_to_abs_pos \<lparr>bsize = 5, maskp = [11]\<rparr> 2 = 3"
proof -
  let ?b = "\<lparr>bsize = 5, maskp = [11 :: 64 word]\<rparr>"
  have "bits ?b = {0, 1, 3}" by code_simp
  then have "3 \<in> bits ?b" by simp
  then have "bitmask_rel_to_abs_pos ?b (bitmask_abs_to_rel_pos ?b 3) = 3" using bitmask_positions [of ?b] by blast
  moreover have "bitmask_abs_to_rel_pos ?b 3 = 2" by code_simp
  ultimately show ?thesis by simp
qed

end
