(* ===== verification/Bitmask_Text.thy ===== *)
theory Bitmask_Text
  imports Bitmask
begin

text \<open>
  The text forms of the masks of \<^verbatim>\<open>libbitmask.c\<close>: lists of numbers and ranges, and hexadecimal words. A pointer
  into a string is the rest of the string from there, so that of two pointers into one string the
  smaller one has the longer rest.
\<close>

section \<open>Output\<close>

text \<open>\<^verbatim>\<open>cnt += snprintf(buf + cnt, MAX(buflen - cnt, 0), ...)\<close> on the string in \<^verbatim>\<open>buf\<close> and the count.\<close>

definition snprintf_at :: "nat \<Rightarrow> string \<Rightarrow> string \<times> nat \<Rightarrow> string \<times> nat" where
  "snprintf_at buflen s = (\<lambda>(buf, cnt).
     (if cnt < buflen then take cnt buf @ snprintf (buflen - cnt) s else buf, cnt + length s))"

definition HEXCHUNKSZ :: nat where "HEXCHUNKSZ = 32"
definition HEXCHARSZ :: nat where "HEXCHARSZ = 8"

definition hex_digit :: "nat \<Rightarrow> char" where
  "hex_digit d = (if d < 10 then char_of (48 + d) else char_of (87 + d))"

text \<open>\<^verbatim>\<open>%0*x\<close> with width \<open>n\<close> of a value that needs no more.\<close>

fun hex_fixed :: "nat \<Rightarrow> nat \<Rightarrow> string" where
  "hex_fixed 0 v = []"
| "hex_fixed (Suc n) v = hex_fixed n (v div 16) @ [hex_digit (v mod 16)]"

definition chunk_val :: "bitmask \<Rightarrow> nat \<Rightarrow> nat" where
  "chunk_val bmp chunk =
     fold (\<lambda>b val. u32 (2 * val) + (if getbit bmp (chunk * HEXCHUNKSZ + b) then 1 else 0)) (rev [0..<HEXCHUNKSZ]) 0"

fun hex_chunks :: "bitmask \<Rightarrow> nat \<Rightarrow> nat list \<Rightarrow> string \<Rightarrow> string \<times> nat \<Rightarrow> string \<times> nat" where
  "hex_chunks bmp buflen [] sep out = out"
| "hex_chunks bmp buflen (chunk # cs) sep out =
     hex_chunks bmp buflen cs '','' (snprintf_at buflen (sep @ hex_fixed HEXCHARSZ (chunk_val bmp chunk)) out)"

text \<open>The string in the buffer, \<open>None\<close> if it is not touched, and the return value. The number of chunks is
  computed with 32-bit unsigned numbers. The bit number \<^verbatim>\<open>chunk * HEXCHUNKSZ + bit\<close> is an \<^verbatim>\<open>int\<close> in the source, which
  overflows for masks of more than \<open>2 ^ 31\<close> bits; the theorems about this function exclude those.\<close>

definition bitmask_displayhex :: "nat \<Rightarrow> bitmask \<Rightarrow> string option \<times> nat" where
  "bitmask_displayhex buflen bmp =
     (if buflen < 1 then (None, 0)
      else let (buf, cnt) = hex_chunks bmp buflen (rev [0..<u32 (bsize bmp + (HEXCHUNKSZ - 1)) div HEXCHUNKSZ]) [] ([], 0) in (Some buf, cnt))"

definition emit :: "nat \<Rightarrow> nat \<Rightarrow> nat \<Rightarrow> string \<times> nat \<Rightarrow> string \<times> nat" where
  "emit buflen rbot rtop out =
     (let out1 = (if snd out > 0 then snprintf_at buflen '','' out else out);
          num = (\<lambda>n. show_int (to_signed 32 (int n)))
      in if rbot = rtop then snprintf_at buflen (num rbot) out1
         else snprintf_at buflen (num rbot @ ''-'' @ num rtop) out1)"

lemma find_loop_ge: "(\<And>i. i \<in> set is \<Longrightarrow> k \<le> i) \<Longrightarrow> k \<le> after \<Longrightarrow> k \<le> find_loop hit is after"
  by (induction "is") auto

lemma bitmask_next_ge: "i \<le> bitmask_next bmp i"
  unfolding bitmask_next_def by (rule find_loop_ge) auto

function display_loop :: "bitmask \<Rightarrow> nat \<Rightarrow> nat \<Rightarrow> nat \<Rightarrow> string \<times> nat \<Rightarrow> string \<times> nat" where
  "display_loop bmp buflen cur rbot out =
     (if cur < bsize bmp then
        let rtop = cur; cur' = bitmask_next bmp (cur + 1) in
        if cur' \<ge> bsize bmp \<or> cur' > rtop + 1 then display_loop bmp buflen cur' cur' (emit buflen rbot rtop out)
        else display_loop bmp buflen cur' rbot out
      else out)"
  by pat_completeness auto
termination
proof (relation "measure (\<lambda>(bmp, b, cur, r, out). bsize bmp - cur)", goal_cases)
  case (2 bmp buflen cur rbot out rtop cur')
  then have "bsize bmp - cur' < bsize bmp - cur" using bitmask_next_ge [of "cur + 1" bmp] by linarith
  then show ?case by simp
next
  case (3 bmp buflen cur rbot out rtop cur')
  then have "bsize bmp - cur' < bsize bmp - cur" using bitmask_next_ge [of "cur + 1" bmp] by linarith
  then show ?case by simp
qed simp

declare display_loop.simps [simp del]

definition bitmask_displaylist :: "nat \<Rightarrow> bitmask \<Rightarrow> string option \<times> nat" where
  "bitmask_displaylist buflen bmp =
     (let cur = bitmask_first bmp; (buf, len) = display_loop bmp buflen cur cur ([], 0)
      in (if buflen > 0 then Some buf else None, len))"

section \<open>Input\<close>

definition strchr :: "string \<Rightarrow> char \<Rightarrow> string option" where
  "strchr q sep = (if sep \<in> set q then Some (dropWhile (\<lambda>c. c \<noteq> sep) q) else None)"

definition nexttoken :: "string option \<Rightarrow> char \<Rightarrow> string option" where
  "nexttoken q sep = (case q of None \<Rightarrow> None | Some s \<Rightarrow> map_option tl (strchr s sep))"

lemma nexttoken_shorter: "nexttoken (Some s) sep = Some t \<Longrightarrow> length t < length s"
proof -
  assume "nexttoken (Some s) sep = Some t"
  then have s: "sep \<in> set s" "t = tl (dropWhile (\<lambda>c. c \<noteq> sep) s)" by (auto simp: nexttoken_def strchr_def split: if_splits)
  have "length (dropWhile (\<lambda>c. c \<noteq> sep) s) \<le> length s" by (rule length_dropWhile_le)
  moreover have "0 < length s" using s(1) by (cases s) auto
  ultimately have "length (dropWhile (\<lambda>c. c \<noteq> sep) s) - 1 < length s" by linarith
  then show ?thesis using s(2) by simp
qed

function count_tokens :: "string option \<Rightarrow> nat" where
  "count_tokens None = 0"
| "count_tokens (Some s) = Suc (count_tokens (nexttoken (Some s) (CHR '','')))"
  by pat_completeness auto
termination
proof (relation "measure (\<lambda>q. case q of None \<Rightarrow> 0 | Some s \<Rightarrow> Suc (length s))", goal_cases)
  case (2 s)
  show ?case using nexttoken_shorter [of s "CHR '',''"] by (auto split: option.splits)
qed simp

definition hex_val :: "char \<Rightarrow> nat" where
  "hex_val c =
     (if isdigit c then chr_code c - 48
      else if 97 \<le> chr_code c \<and> chr_code c \<le> 102 then chr_code c - 87
      else if 65 \<le> chr_code c \<and> chr_code c \<le> 70 then chr_code c - 55 else 16)"

text \<open>\<^verbatim>\<open>strtoul(p, &endptr, 16)\<close>: the value and the rest.\<close>

definition strtoul16 :: "string \<Rightarrow> nat \<times> string" where
  "strtoul16 p =
     (let s = dropWhile isspace p;
          neg = (s \<noteq> [] \<and> hd s = CHR ''-'');
          t = (if s \<noteq> [] \<and> (hd s = CHR ''-'' \<or> hd s = CHR ''+'') then tl s else s);
          u = (if length t \<ge> 3 \<and> t ! 0 = CHR ''0'' \<and> (t ! 1 = CHR ''x'' \<or> t ! 1 = CHR ''X'') \<and> hex_val (t ! 2) < 16
               then drop 2 t else t);
          ds = takeWhile (\<lambda>c. hex_val c < 16) u;
          v = foldl (\<lambda>n c. 16 * n + hex_val c) 0 ds
      in if ds = [] then (0, p)
         else if v \<ge> 2 ^ 64 then (2 ^ 64 - 1, drop (length ds) u)
         else (if neg then (2 ^ 64 - v) mod 2 ^ 64 else v, drop (length ds) u))"

text \<open>The loop over the bits of a chunk, downwards; \<open>False\<close> if it leaves through \<^verbatim>\<open>err\<close>.\<close>

fun hex_bits :: "nat \<Rightarrow> nat \<Rightarrow> nat \<Rightarrow> nat \<Rightarrow> nat list \<Rightarrow> bstore \<Rightarrow> bool \<times> bstore" where
  "hex_bits p chunk val sz [] st = (True, st)"
| "hex_bits p chunk val sz (b # bs) st =
     (let n = chunk * HEXCHUNKSZ + b in
      if n \<ge> sz then (False, st) else hex_bits p chunk val sz bs (store_bit p n (bit val b) st))"

function hex_loop :: "nat \<Rightarrow> nat \<Rightarrow> nat \<Rightarrow> string option \<Rightarrow> bstore \<Rightarrow> bool \<times> bstore" where
  "hex_loop p sz chunk None st = (True, st)"
| "hex_loop p sz chunk (Some s) st =
     (let q = nexttoken (Some s) (CHR '','');
          (val, rest) = strtoul16 s;
          nchars_read = length s - length rest
      in if nchars_read < 1 \<or> nchars_read > HEXCHARSZ then (False, st)
         else if q \<noteq> None \<and> length rest \<noteq> length (the q) + 1 then (False, st)
         else (case hex_bits p chunk (u32 val) sz (rev [0..<HEXCHUNKSZ]) st of
             (False, st') \<Rightarrow> (False, st')
           | (True, st') \<Rightarrow> hex_loop p sz (chunk - 1) q st'))"
  by pat_completeness auto
termination
proof (relation "measure (\<lambda>(p, sz, c, q, st). case q of None \<Rightarrow> 0 | Some s \<Rightarrow> Suc (length s))", goal_cases)
  case (2 p sz chunk s st)
  then show ?case using nexttoken_shorter [of s "CHR '',''"] by (auto split: option.splits)
qed simp

definition bitmask_parsehex :: "string \<Rightarrow> bstore \<Rightarrow> nat \<Rightarrow> int \<times> bstore" where
  "bitmask_parsehex buf st p =
     (let st1 = bitmask_clearall st p;
          sz = u32 (longsperbits (bsize (st1 p)) * 8 * 8);
          nchunks = count_tokens (Some buf)
      in case hex_loop p sz (nchunks - 1) (Some buf) st1 of
           (True, st2) \<Rightarrow> (0, st2)
         | (False, st2) \<Rightarrow> (- 1, bitmask_clearall st2 p))"

text \<open>\<^verbatim>\<open>sscanf(p, "%u%c", &a, &nextc)\<close>: the number of matches, the number and the next character. A number
  that does not fit has no defined conversion.\<close>

definition scan_u :: "string \<Rightarrow> (int \<times> nat \<times> char) outcome" where
  "scan_u p =
     (let s = dropWhile isspace p;
          neg = (s \<noteq> [] \<and> hd s = CHR ''-'');
          t = (if s \<noteq> [] \<and> (hd s = CHR ''-'' \<or> hd s = CHR ''+'') then tl s else s);
          ds = takeWhile isdigit t;
          v = digits_val ds;
          rest = dropWhile isdigit t
      in if s = [] then Ok (- 1, 0, NUL)
         else if ds = [] then Ok (0, 0, NUL)
         else if v \<ge> 2 ^ 32 then UB
         else if rest = [] then Ok (1, if neg then u32 (2 ^ 32 - v) else v, NUL)
         else Ok (2, if neg then u32 (2 ^ 32 - v) else v, hd rest))"

definition scan_was_ok :: "int \<Rightarrow> char \<Rightarrow> string \<Rightarrow> bool" where
  "scan_was_ok sret nextc ok_next_chars = (sret = 1 \<or> (sret = 2 \<and> nextc \<in> set ok_next_chars))"

text \<open>A stride of 0 keeps the loop where it is.\<close>

partial_function (option) stride_loop :: "nat \<Rightarrow> nat \<Rightarrow> nat \<Rightarrow> nat \<Rightarrow> bstore \<Rightarrow> bstore option" where
  "stride_loop p a b s st =
     (if a \<le> b then stride_loop p (u32 (a + s)) b s (store_bit p a True st) else Some st)"

declare stride_loop.simps [code]

text \<open>\<^verbatim>\<open>c1 != NULL && (c2 == NULL || c1 < c2)\<close>\<close>

definition before :: "string option \<Rightarrow> string option \<Rightarrow> bool" where
  "before c1 c2 = (c1 \<noteq> None \<and> (c2 = None \<or> length (the c1) > length (the c2)))"

text \<open>The numbers of one term: begin, end and stride, or \<open>None\<close> for the way through \<^verbatim>\<open>err\<close>.\<close>

definition scan_term :: "string \<Rightarrow> (nat \<times> nat \<times> nat) option outcome" where
  "scan_term p =
     obind (scan_u p) (\<lambda>(sret, a, nextc).
       if \<not> scan_was_ok sret nextc '',-'' then Ok None
       else
         let c1 = nexttoken (Some p) (CHR ''-''); c2 = nexttoken (Some p) (CHR '','') in
         if before c1 c2 then
           obind (scan_u (the c1)) (\<lambda>(sret, b, nextc).
             if \<not> scan_was_ok sret nextc '',:'' then Ok None
             else
               let c3 = nexttoken c1 (CHR '':'') in
               if before c3 c2 then
                 obind (scan_u (the c3)) (\<lambda>(sret, s, nextc).
                   if \<not> scan_was_ok sret nextc '','' then Ok None else Ok (Some (a, b, s)))
               else Ok (Some (a, b, 1)))
         else Ok (Some (a, a, 1)))"

function list_loop :: "nat \<Rightarrow> string option \<Rightarrow> bstore \<Rightarrow> (bool \<times> bstore) run" where
  "list_loop p None st = Some (Ok (True, st))"
| "list_loop p (Some s) st =
     rbind (Some (scan_term s)) (\<lambda>r. case r of
         None \<Rightarrow> Some (Ok (False, st))
       | Some (a, b, stride) \<Rightarrow>
           if \<not> a \<le> b \<or> b \<ge> bsize (st p) then Some (Ok (False, st))
           else (case stride_loop p a b stride st of
               None \<Rightarrow> None
             | Some st' \<Rightarrow> list_loop p (nexttoken (Some s) (CHR '','')) st'))"
  by pat_completeness auto
termination
proof (relation "measure (\<lambda>(p, q, st). case q of None \<Rightarrow> 0 | Some s \<Rightarrow> Suc (length s))", goal_cases)
  case (2 p s st)
  then show ?case using nexttoken_shorter [of s "CHR '',''"] by (auto split: option.splits)
qed simp

definition bitmask_parselist :: "string \<Rightarrow> bstore \<Rightarrow> nat \<Rightarrow> (int \<times> bstore) run" where
  "bitmask_parselist buf st p =
     rbind (list_loop p (Some buf) (bitmask_clearall st p)) (\<lambda>(ok, st').
       if ok then Some (Ok (0, st')) else Some (Ok (- 1, bitmask_clearall st' p)))"

end
