(* ===== verification/Bitmask_List.thy ===== *)
theory Bitmask_List
  imports Bitmask_Props Bitmask_Text
begin

text \<open>
  The list form of masks: what \<^verbatim>\<open>bitmask_parselist\<close> does with every list of numbers, ranges and strided ranges, and
  that it reads back what \<^verbatim>\<open>bitmask_displaylist\<close> writes.
\<close>

section \<open>Terms\<close>

datatype bterm = Num nat | Range nat nat | Stride nat nat nat

fun render :: "bterm \<Rightarrow> string" where
  "render (Num a) = show_nat a"
| "render (Range a b) = show_nat a @ ''-'' @ show_nat b"
| "render (Stride a b s) = show_nat a @ ''-'' @ show_nat b @ '':'' @ show_nat s"

fun render_list :: "bterm list \<Rightarrow> string" where
  "render_list [] = []"
| "render_list [t] = render t"
| "render_list (t # t' # ts) = render t @ '','' @ render_list (t' # ts)"

fun numbers :: "bterm \<Rightarrow> nat \<times> nat \<times> nat" where
  "numbers (Num a) = (a, a, 1)"
| "numbers (Range a b) = (a, b, 1)"
| "numbers (Stride a b s) = (a, b, s)"

definition term_bits :: "bterm \<Rightarrow> nat set" where
  "term_bits t = (let (a, b, s) = numbers t in {x. a \<le> x \<and> x \<le> b \<and> s dvd (x - a)})"

definition in_range :: "nat \<Rightarrow> bterm \<Rightarrow> bool" where
  "in_range sz t = (let (a, b, s) = numbers t in a \<le> b \<and> b < sz)"

text \<open>The numbers fit 32 bits and the stride neither is 0 nor leads past $2^{32}$.\<close>

definition term_ok :: "bterm \<Rightarrow> bool" where
  "term_ok t = (let (a, b, s) = numbers t in a < 2 ^ 32 \<and> s > 0 \<and> b + s < 2 ^ 32)"

definition term_fits :: "bterm \<Rightarrow> bool" where
  "term_fits t = (let (a, b, s) = numbers t in a < 2 ^ 32 \<and> b < 2 ^ 32 \<and> s < 2 ^ 32)"

lemma term_ok_fits: "term_ok t \<Longrightarrow> term_fits t"
  by (auto simp: term_ok_def term_fits_def)

lemma term_bits_filter [code]:
  "term_bits t = (let (a, b, s) = numbers t in set (filter (\<lambda>x. s dvd (x - a)) [a..<Suc b]))"
  by (auto simp: term_bits_def)

section \<open>Reading one term\<close>

lemma nexttoken_append: "sep \<notin> set w \<Longrightarrow> nexttoken (Some (w @ s)) sep = nexttoken (Some s) sep"
  by (induction w) (auto simp: nexttoken_def strchr_def)

lemma nexttoken_nil [simp]: "nexttoken (Some []) sep = None"
  by (simp add: nexttoken_def strchr_def)

lemma nexttoken_cons [simp]:
  "nexttoken (Some (c # s)) sep = (if c = sep then Some s else nexttoken (Some s) sep)"
  by (simp add: nexttoken_def strchr_def)

lemma nexttoken_le: "nexttoken (Some s) sep = Some t \<Longrightarrow> length t \<le> length s"
  using nexttoken_shorter [of s sep t] by simp

lemma sep_not_in_show [simp]: "CHR '','' \<notin> set (show_nat n)" "CHR ''-'' \<notin> set (show_nat n)" "CHR '':'' \<notin> set (show_nat n)"
  using show_nat_digits [of _ n] digit_not_sep by blast+

lemmas nexttoken_show [simp] = nexttoken_append [OF sep_not_in_show(1)] nexttoken_append [OF sep_not_in_show(2)]
  nexttoken_append [OF sep_not_in_show(3)]

definition starts_sep :: "string \<Rightarrow> bool" where
  "starts_sep r \<longleftrightarrow> r = [] \<or> \<not> isdigit (hd r)"

lemma scan_u_show:
  assumes "n < 2 ^ 32" "starts_sep r"
  shows "scan_u (show_nat n @ r) = Ok (if r = [] then 1 else 2, n, if r = [] then NUL else hd r)"
proof -
  define p where "p = show_nat n @ r"
  note s = show_nat_scan [OF assms(2) [unfolded starts_sep_def], of n, folded p_def]
  show ?thesis using assms(1) unfolding p_def [symmetric] scan_u_def Let_def s(1) by (simp add: s digits_val_show)
qed

definition ends_term :: "string \<Rightarrow> bool" where
  "ends_term r \<longleftrightarrow> r = [] \<or> hd r = CHR '',''"

lemma ends_term_cases:
  assumes "ends_term r"
  obtains "r = []" | q where "r = CHR '','' # q"
  using assms by (cases r) (auto simp: ends_term_def)

lemma before_later: "sep \<noteq> CHR '','' \<Longrightarrow> ends_term r \<Longrightarrow> \<not> before (nexttoken (Some r) sep) (nexttoken (Some r) (CHR '',''))"
  using nexttoken_le by (fastforce elim!: ends_term_cases simp: before_def)

lemma comma_after: "ends_term r \<Longrightarrow> nexttoken (Some r) (CHR '','') = Some q \<Longrightarrow> length q < length r"
  by (auto elim!: ends_term_cases)

lemma before_rest: "ends_term r \<Longrightarrow> before (Some (w @ r)) (nexttoken (Some r) (CHR '',''))"
  using comma_after [of r] by (cases "nexttoken (Some r) (CHR '','')") (fastforce simp: before_def)+

lemma scan_last:
  assumes "n < 2 ^ 32" "ends_term r" "CHR '','' \<in> set ok"
  obtains sret c where "scan_u (show_nat n @ r) = Ok (sret, n, c)" "scan_was_ok sret c ok"
proof
  have "starts_sep r" using assms(2) by (auto simp: starts_sep_def ends_term_def isdigit_def)
  then show "scan_u (show_nat n @ r) = Ok (if r = [] then 1 else 2, n, if r = [] then NUL else hd r)"
    using assms(1) by (intro scan_u_show)
  show "scan_was_ok (if r = [] then 1 else 2) (if r = [] then NUL else hd r) ok"
    using assms(2, 3) by (auto simp: scan_was_ok_def ends_term_def)
qed

lemma scan_sep: "n < 2 ^ 32 \<Longrightarrow> \<not> isdigit c \<Longrightarrow> scan_u (show_nat n @ c # r) = Ok (2, n, c)"
  using scan_u_show [of n "c # r"] by (simp add: starts_sep_def)

lemma scan_term_render:
  assumes "term_fits t" "ends_term r"
  shows "scan_term (render t @ r) = Ok (Some (numbers t))"
proof (cases t)
  case (Num a)
  then have "a < 2 ^ 32" using assms(1) by (simp add: term_fits_def)
  then obtain sret c where "scan_u (show_nat a @ r) = Ok (sret, a, c)" "scan_was_ok sret c '',-''"
    by (rule scan_last [OF _ assms(2), of _ "'',-''"]) auto
  then show ?thesis using Num assms(2) before_later [of "CHR ''-''" r] by (simp add: scan_term_def Let_def)
next
  case (Range a b)
  then have ab: "a < 2 ^ 32" "b < 2 ^ 32" using assms(1) by (auto simp: term_fits_def)
  obtain sret c where b: "scan_u (show_nat b @ r) = Ok (sret, b, c)" "scan_was_ok sret c '',:''"
    by (rule scan_last [OF ab(2) assms(2), of "'',:''"]) auto
  have a: "scan_u (show_nat a @ CHR ''-'' # show_nat b @ r) = Ok (2, a, CHR ''-'')"
    using ab(1) by (intro scan_sep) (simp_all add: isdigit_def)
  show ?thesis
    using Range b before_later [of "CHR '':''" r, OF _ assms(2)] before_rest [of r "show_nat b", OF assms(2)]
    by (simp add: scan_term_def Let_def a scan_was_ok_def)
next
  case (Stride a b s)
  then have abs: "a < 2 ^ 32" "b < 2 ^ 32" "s < 2 ^ 32" using assms(1) by (auto simp: term_fits_def)
  obtain sret c where b: "scan_u (show_nat s @ r) = Ok (sret, s, c)" "scan_was_ok sret c '',''"
    by (rule scan_last [OF abs(3) assms(2), of "'',''"]) auto
  have a: "scan_u (show_nat a @ CHR ''-'' # show_nat b @ CHR '':'' # show_nat s @ r) = Ok (2, a, CHR ''-'')"
    "scan_u (show_nat b @ CHR '':'' # show_nat s @ r) = Ok (2, b, CHR '':'')"
    using abs by (simp_all add: scan_sep isdigit_def)
  show ?thesis
    using Stride b before_rest [of r "show_nat b @ CHR '':'' # show_nat s", OF assms(2)]
      before_rest [of r "show_nat s", OF assms(2)]
    by (simp add: scan_term_def Let_def a scan_was_ok_def)
qed

section \<open>Setting the bits of a term\<close>

lemma stride_set:
  assumes "(s::nat) > 0" "a \<le> b"
  shows "{x. a \<le> x \<and> x \<le> b \<and> s dvd (x - a)} = insert a {x. a + s \<le> x \<and> x \<le> b \<and> s dvd (x - (a + s))}"
    (is "?L = insert a ?R")
proof (rule set_eqI)
  fix x
  show "x \<in> ?L \<longleftrightarrow> x \<in> insert a ?R"
  proof (cases "a + s \<le> x")
    case True
    then have "x - a = (x - (a + s)) + s" by simp
    then have "s dvd (x - a) \<longleftrightarrow> s dvd (x - (a + s))" by (simp only: dvd_add_left_iff dvd_refl)
    then show ?thesis using True assms(1) by auto
  next
    case False
    have "s dvd (x - a) \<longleftrightarrow> x = a" if "a \<le> x"
    proof
      assume "s dvd (x - a)"
      then show "x = a" using False that dvd_imp_le [of s "x - a"] by linarith
    qed simp
    then show ?thesis using False assms(2) by auto
  qed
qed

lemma assigns_seq:
  assumes "assigns p st (bits (st p) \<union> S) st1" "assigns p st1 (bits (st1 p) \<union> T) st2"
  shows "assigns p st (bits (st p) \<union> (S \<union> T)) st2"
  using assms by (auto simp: assigns_def)

lemma stride_loop_ok:
  assumes "mask_ok (st p)" "s > 0" "b + s < 2 ^ 32"
  shows "\<exists>st'. stride_loop p a b s st = Some st' \<and> assigns p st (bits (st p) \<union> {x. a \<le> x \<and> x \<le> b \<and> s dvd (x - a)}) st'"
  using assms
proof (induction "Suc b - a" arbitrary: a st rule: less_induct)
  case less
  show ?case
  proof (cases "a \<le> b")
    case True
    let ?s = "store_bit p a True st"
    have u: "u32 (a + s) = a + s" using True less.prems(3) by (simp add: u32_def)
    have a1: "assigns p st (bits (st p) \<union> {a}) ?s" using store_bit_bits [of st p True a] less.prems(1) by simp
    then have "mask_ok (?s p)" by (simp add: assigns_def)
    moreover have "Suc b - (a + s) < Suc b - a" using less.prems(2) True by linarith
    ultimately obtain st' where st': "stride_loop p (a + s) b s ?s = Some st'"
      "assigns p ?s (bits (?s p) \<union> {x. a + s \<le> x \<and> x \<le> b \<and> s dvd (x - (a + s))}) st'"
      using less.hyps [of "a + s" ?s, OF _ _ less.prems(2, 3)] by blast
    then have "stride_loop p a b s st = Some st'" using True by (subst stride_loop.simps) (simp add: u)
    moreover have "assigns p st (bits (st p) \<union> {x. a \<le> x \<and> x \<le> b \<and> s dvd (x - a)}) st'"
      using assigns_seq [OF a1 st'(2)] stride_set [OF less.prems(2) True] by simp
    ultimately show ?thesis by blast
  next
    case False
    then have "stride_loop p a b s st = Some st" by (subst stride_loop.simps) simp
    moreover have "assigns p st (bits (st p) \<union> {x. a \<le> x \<and> x \<le> b \<and> s dvd (x - a)}) st"
      using False less.prems(1) bits_bound [of "st p"] by (auto simp: assigns_def)
    ultimately show ?thesis by blast
  qed
qed

section \<open>Reading a list\<close>

lemma render_no_comma: "CHR '','' \<notin> set (render t)"
  by (cases t) auto

lemma render_list_cons: "render_list (t # ts) = render t @ (if ts = [] then [] else CHR '','' # render_list ts)"
  by (cases ts) auto

declare list_loop.simps(2) [simp del]

lemma list_loop_render:
  assumes "ts \<noteq> []" "\<forall>t \<in> set ts. term_ok t" "mask_ok (st p)"
  shows "\<exists>ok st'. list_loop p (Some (render_list ts)) st = Some (Ok (ok, st')) \<and>
    (ok \<longleftrightarrow> (\<forall>t \<in> set ts. in_range (bsize (st p)) t)) \<and>
    (\<exists>S. assigns p st S st' \<and> (ok \<longrightarrow> S = bits (st p) \<union> (\<Union>t \<in> set ts. term_bits t)))"
  using assms
proof (induction ts arbitrary: st)
  case Nil
  then show ?case by simp
next
  case (Cons t ts)
  let ?r = "if ts = [] then [] else CHR '','' # render_list ts"
  have r: "ends_term ?r" by (simp add: ends_term_def)
  obtain a b s where n: "numbers t = (a, b, s)" by (cases "numbers t")
  have t: "term_ok t" using Cons.prems(2) by simp
  have sc: "scan_term (render t @ ?r) = Ok (Some (a, b, s))" using scan_term_render [OF term_ok_fits [OF t] r] n by simp
  have refl: "assigns p st (bits (st p)) st" using Cons.prems(3) bits_bound [of "st p"] by (auto simp: assigns_def)
  show ?case
  proof (cases "in_range (bsize (st p)) t")
    case True
    then have ab: "a \<le> b" "b < bsize (st p)" by (simp_all add: in_range_def n)
    obtain st1 where st1: "stride_loop p a b s st = Some st1" "assigns p st (bits (st p) \<union> term_bits t) st1"
      using stride_loop_ok [of st p s b a] Cons.prems(3) t by (auto simp: term_ok_def term_bits_def n)
    have nx: "nexttoken (Some (render t @ ?r)) (CHR '','') = (if ts = [] then None else Some (render_list ts))"
      using render_no_comma by (simp add: nexttoken_append)
    have step: "list_loop p (Some (render_list (t # ts))) st = list_loop p (if ts = [] then None else Some (render_list ts)) st1"
      using ab by (simp add: list_loop.simps(2) render_list_cons sc st1(1) nx)
    show ?thesis
    proof (cases "ts = []")
      case True
      then show ?thesis using step st1(2) \<open>in_range (bsize (st p)) t\<close> by auto
    next
      case False
      have sz: "bsize (st1 p) = bsize (st p)" and ok: "mask_ok (st1 p)" using st1(2) by (simp_all add: assigns_def)
      have ts: "\<forall>t \<in> set ts. term_ok t" using Cons.prems(2) by simp
      obtain k st2 where k12: "list_loop p (Some (render_list ts)) st1 = Some (Ok (k, st2))"
        "k \<longleftrightarrow> (\<forall>t \<in> set ts. in_range (bsize (st p)) t)"
        and S: "\<exists>S. assigns p st1 S st2 \<and> (k \<longrightarrow> S = bits (st1 p) \<union> (\<Union>t \<in> set ts. term_bits t))"
        using Cons.IH [of st1, OF False ts ok] unfolding sz by blast
      obtain S where S: "assigns p st1 S st2" "k \<longrightarrow> S = bits (st1 p) \<union> (\<Union>t \<in> set ts. term_bits t)" using S by blast
      note k = k12 S
      have "\<exists>S. assigns p st S st2 \<and> (k \<longrightarrow> S = bits (st p) \<union> (\<Union>t \<in> set (t # ts). term_bits t))"
      proof (cases k)
        case True
        then have "assigns p st1 (bits (st1 p) \<union> (\<Union>t \<in> set ts. term_bits t)) st2" using k by simp
        from assigns_seq [OF st1(2) this] show ?thesis by auto
      qed (use assigns_trans [OF st1(2) k(3)] in auto)
      then show ?thesis using step False k(1, 2) \<open>in_range (bsize (st p)) t\<close> by auto
    qed
  next
    case False
    then have "\<not> a \<le> b \<or> b \<ge> bsize (st p)" by (auto simp: in_range_def n)
    then have "list_loop p (Some (render_list (t # ts))) st = Some (Ok (False, st))"
      by (auto simp: list_loop.simps(2) render_list_cons sc)
    then show ?thesis using False refl by auto
  qed
qed

lemma parselist_render:
  assumes "ts \<noteq> []" "\<forall>t \<in> set ts. term_ok t" "mask_ok (st p)"
  shows "\<exists>st'. bitmask_parselist (render_list ts) st p =
      Some (Ok (if \<forall>t \<in> set ts. in_range (bsize (st p)) t then 0 else - 1, st')) \<and>
    assigns p st (if \<forall>t \<in> set ts. in_range (bsize (st p)) t then \<Union>t \<in> set ts. term_bits t else {}) st'"
proof -
  let ?c = "bitmask_clearall st p"
  have c: "assigns p st {} ?c" using clearall_assigns [of st p] assms(3) by simp
  then have ok: "mask_ok (?c p)" and sz: "bsize (?c p) = bsize (st p)" and e: "bits (?c p) = {}" by (simp_all add: assigns_def)
  obtain k st1 where k: "list_loop p (Some (render_list ts)) ?c = Some (Ok (k, st1))"
    "k \<longleftrightarrow> (\<forall>t \<in> set ts. in_range (bsize (st p)) t)"
    and S: "\<exists>S. assigns p ?c S st1 \<and> (k \<longrightarrow> S = bits (?c p) \<union> (\<Union>t \<in> set ts. term_bits t))"
    using list_loop_render [of ts ?c p, OF assms(1, 2) ok] unfolding sz by blast
  obtain S where S: "assigns p ?c S st1" "k \<longrightarrow> S = (\<Union>t \<in> set ts. term_bits t)" using S e by auto
  have a: "assigns p st S st1" by (rule assigns_trans [OF c S(1)])
  show ?thesis
  proof (cases k)
    case True
    then show ?thesis using a S(2) k(2) by (simp add: bitmask_parselist_def k(1))
  next
    case False
    have "mask_ok (st1 p)" using a by (simp add: assigns_def)
    then have "assigns p st {} (bitmask_clearall st1 p)" using assigns_trans [OF a clearall_assigns [of st1 p]] by simp
    moreover have "\<not> (\<forall>t \<in> set ts. in_range (bsize (st p)) t)" using False k(2) by blast
    ultimately show ?thesis using False by (simp only: bitmask_parselist_def k(1)) simp
  qed
qed

text \<open>
  C17: \<^verbatim>\<open>bitmask_parselist\<close> on a list of numbers, ranges and strided ranges whose numbers fit into 32 bits, whose strides
  are positive and whose last number plus the stride stays below \<open>2 ^ 32\<close>: for every such list it returns, with 0 and
  exactly the bits the terms name when every term is ordered and below the size of the mask, and otherwise with -1
  and the mask empty; no other mask changes.
\<close>

theorem parselist_correct:
  assumes "ts \<noteq> []" "\<forall>t \<in> set ts. term_ok t" "mask_ok (st p)"
  shows "\<exists>st'. bitmask_parselist (render_list ts) st p =
      Some (Ok (if \<forall>t \<in> set ts. in_range (bsize (st p)) t then 0 else - 1, st')) \<and>
    assigns p st (if \<forall>t \<in> set ts. in_range (bsize (st p)) t then \<Union>t \<in> set ts. term_bits t else {}) st'"
  using assms by (rule parselist_render)

theorem parselist_correct_witness:
  "\<exists>st'. bitmask_parselist ''0-3:2,8-15:4'' (\<lambda>p. \<lparr>bsize = 20, maskp = [1]\<rparr>) 0 = Some (Ok (0, st')) \<and>
    bits (st' 0) = {0, 2, 8, 12}"
proof -
  let ?st = "\<lambda>p :: nat. \<lparr>bsize = 20, maskp = [1 :: 64 word]\<rparr>" and ?ts = "[Stride 0 3 2, Stride 8 15 4]"
  have ok: "mask_ok (?st 0)" by (simp add: mask_ok_def longsperbits_def howmany_def bitsperlong_def)
  have t: "\<forall>t \<in> set ?ts. term_ok t" by (simp add: term_ok_def)
  have r: "\<forall>t \<in> set ?ts. in_range 20 t" by (simp add: in_range_def)
  have s: "render_list ?ts = ''0-3:2,8-15:4''" by code_simp
  have "(\<Union>t \<in> set ?ts. term_bits t) = {0, 2, 8, 12}" by code_simp
  then show ?thesis using parselist_correct [of ?ts ?st 0, OF _ t ok] r unfolding s by (fastforce simp: assigns_def)
qed

lemma stride_zero_loop: "stride_loop p a b s st = Some st' \<Longrightarrow> s = 0 \<longrightarrow> \<not> a \<le> b"
proof (rule stride_loop.raw_induct [where P = "\<lambda>p a b s st st'. s = 0 \<longrightarrow> \<not> a \<le> b"], goal_cases)
  case (1 f p a b s st y)
  show ?case
  proof (intro impI notI)
    assume "s = 0" "a \<le> b"
    then have "f p (u32 a) b s (store_bit p a True st) = Some y" using 1(3) by simp
    then have "\<not> u32 a \<le> b" using 1(2) \<open>s = 0\<close> by blast
    moreover have "u32 a \<le> a" by (simp add: u32_def)
    ultimately show False using \<open>a \<le> b\<close> by simp
  qed
qed

text \<open>
  C27: a term with stride 0, such as \<^verbatim>\<open>0-7:0\<close>, that is in range keeps \<^verbatim>\<open>bitmask_parselist\<close> in its loop forever,
  whatever terms follow it.
\<close>

theorem parselist_stride_zero:
  assumes "a \<le> b" "b < bsize (st p)" "mask_ok (st p)" "ends_term r"
  shows "bitmask_parselist (render (Stride a b 0) @ r) st p = None"
proof -
  let ?c = "bitmask_clearall st p"
  have sz: "bsize (?c p) = bsize (st p)" using clearall_assigns [of st p] assms(3) by (simp add: assigns_def)
  have "term_fits (Stride a b 0)" using assms(1, 2, 3) by (auto simp: term_fits_def mask_ok_def)
  then have sc: "scan_term (render (Stride a b 0) @ r) = Ok (Some (a, b, 0))" using scan_term_render [OF _ assms(4)] by fastforce
  have "stride_loop p a b 0 ?c = None" using stride_zero_loop [of p a b 0 ?c] assms(1) by (cases "stride_loop p a b 0 ?c") auto
  then have "list_loop p (Some (render (Stride a b 0) @ r)) ?c = None"
    using assms(1, 2) sc sz by (simp add: list_loop.simps(2) del: render.simps)
  then show ?thesis by (simp add: bitmask_parselist_def del: render.simps)
qed

theorem parselist_stride_zero_witness: "bitmask_parselist ''0-7:0'' (\<lambda>p. \<lparr>bsize = 8, maskp = [0]\<rparr>) 0 = None"
proof -
  have "render (Stride 0 7 0) @ [] = ''0-7:0''" by code_simp
  then show ?thesis
    using parselist_stride_zero [of 0 7 "\<lambda>p. \<lparr>bsize = 8, maskp = [0]\<rparr>" 0 "[]"]
    by (simp add: mask_ok_def longsperbits_def howmany_def bitsperlong_def ends_term_def del: render.simps)
qed

section \<open>Writing a list\<close>

text \<open>The buffer and the count after the text \<open>t\<close> has been written.\<close>

definition shown :: "nat \<Rightarrow> string \<Rightarrow> string \<times> nat" where
  "shown buflen t = (take (buflen - 1) t, length t)"

lemma snprintf_at_shown [simp]: "snprintf_at buflen s (shown buflen t) = shown buflen (t @ s)"
  by (auto simp: snprintf_at_def snprintf_def shown_def min_def)

text \<open>The term that \<^verbatim>\<open>emit\<close> writes.\<close>

definition run_term :: "nat \<Rightarrow> nat \<Rightarrow> bterm" where
  "run_term rbot rtop = (if rbot = rtop then Num rbot else Range rbot rtop)"

lemma show_int_nat: "n < 2 ^ 31 \<Longrightarrow> show_int (to_signed 32 (int n)) = show_nat n"
  using to_signed_id [of 32 "int n"] by (simp add: fits_signed_def show_int_def)

lemma emit_shown:
  assumes "rbot < 2 ^ 31" "rtop < 2 ^ 31"
  shows "emit buflen rbot rtop (shown buflen t) =
    shown buflen (t @ (if t = [] then [] else '','') @ render (run_term rbot rtop))"
proof -
  have "snd (shown buflen t) > 0 \<longleftrightarrow> t \<noteq> []" by (simp add: shown_def)
  then show ?thesis
    using assms by (simp add: emit_def Let_def show_int_nat run_term_def)
qed

lemma render_list_snoc: "render_list (ts @ [t]) = render_list ts @ (if ts = [] then [] else '','') @ render t"
  by (induction ts) (simp_all add: render_list_cons)

lemma render_nonempty [simp]: "render t \<noteq> []"
  by (cases t) auto

lemma render_list_empty [simp]: "render_list ts = [] \<longleftrightarrow> ts = []"
  by (cases ts) (auto simp: render_list_cons)

lemma run_term_bits: "a \<le> b \<Longrightarrow> term_bits (run_term a b) = {a..b}"
  by (cases "a = b") (auto simp: run_term_def term_bits_def)

lemma runs_split:
  assumes "{a..<b} \<subseteq> S" "b \<in> S" "a \<le> b" "\<And>i. b < i \<Longrightarrow> i < n \<Longrightarrow> i \<notin> S" "b < n"
  shows "{a..b} \<union> {i \<in> S. n \<le> i} = {i \<in> S. a \<le> (i :: nat)}"
proof (intro equalityI subsetI)
  fix i assume "i \<in> {i \<in> S. a \<le> i}"
  then show "i \<in> {a..b} \<union> {i \<in> S. n \<le> i}" using assms(4) [of i] by (cases "i \<le> b"; cases "i < n") auto
next
  fix i assume "i \<in> {a..b} \<union> {i \<in> S. n \<le> i}"
  then show "i \<in> {i \<in> S. a \<le> i}" using assms(1, 2, 3, 5) by (cases "i = b") (auto simp: subset_iff)
qed

text \<open>From a set bit on, the loop writes the terms of the runs that are left; \<open>rbot\<close> starts the run \<open>cur\<close> is in.\<close>

lemma display_loop_shown:
  assumes "bsize bmp \<le> 2 ^ 31" "rbot \<le> cur" "{rbot..<cur} \<subseteq> bits bmp" "cur < bsize bmp \<longrightarrow> cur \<in> bits bmp"
    "cur \<ge> bsize bmp \<longrightarrow> rbot = cur"
  shows "\<exists>ts'. (\<forall>buflen ts.
      display_loop bmp buflen cur rbot (shown buflen (render_list ts)) = shown buflen (render_list (ts @ ts'))) \<and>
    (\<Union>t \<in> set ts'. term_bits t) = {i \<in> bits bmp. rbot \<le> i} \<and> (\<forall>t \<in> set ts'. in_range (bsize bmp) t \<and> snd (snd (numbers t)) = 1)"
  using assms(2-5)
proof (induction "bsize bmp - cur" arbitrary: cur rbot rule: less_induct)
  case less
  show ?case
  proof (cases "cur < bsize bmp")
    case True
    let ?n = "bitmask_next bmp (cur + 1)"
    have nx: "?n = (if {j \<in> bits bmp. cur + 1 \<le> j} = {} then bsize bmp else Min {j \<in> bits bmp. cur + 1 \<le> j})"
      using next_least [of "cur + 1" bmp] True by simp
    have fin: "finite {j \<in> bits bmp. cur + 1 \<le> j}" using finite_bits [of bmp] by (rule rev_finite_subset) blast
    have gap: "i \<notin> bits bmp" if "cur < i" "i < ?n" for i
      using that Min_le [OF fin, of i] nx bits_bound [of bmp i] by (auto split: if_splits)
    have nset: "?n < bsize bmp \<longrightarrow> ?n \<in> bits bmp" using nx Min_in [OF fin] by (auto split: if_splits)
    have gt: "cur < ?n" using bitmask_next_ge [of "cur + 1" bmp] by simp
    have m: "bsize bmp - ?n < bsize bmp - cur" using gt True by linarith
    show ?thesis
    proof (cases "?n \<ge> bsize bmp \<or> ?n > cur + 1")
      case brk: True
      let ?t = "run_term rbot cur"
      have e: "emit buflen rbot cur (shown buflen (render_list ts)) = shown buflen (render_list (ts @ [?t]))" for buflen ts
        using emit_shown [of rbot cur buflen "render_list ts"] True less.prems(1) assms(1) by (simp add: render_list_snoc)
      have step: "display_loop bmp buflen cur rbot (shown buflen (render_list ts)) =
          display_loop bmp buflen ?n ?n (shown buflen (render_list (ts @ [?t])))" for buflen ts
        using True brk by (subst display_loop.simps) (simp add: Let_def e)
      have "\<exists>ts'. (\<forall>buflen ts.
          display_loop bmp buflen ?n ?n (shown buflen (render_list ts)) = shown buflen (render_list (ts @ ts'))) \<and>
        (\<Union>t \<in> set ts'. term_bits t) = {i \<in> bits bmp. ?n \<le> i} \<and>
        (\<forall>t \<in> set ts'. in_range (bsize bmp) t \<and> snd (snd (numbers t)) = 1)"
        by (rule less.hyps [OF m]) (use nset in simp_all)
      then obtain ts' where ts': "\<forall>buflen ts. display_loop bmp buflen ?n ?n (shown buflen (render_list ts)) =
          shown buflen (render_list (ts @ ts'))" "(\<Union>t \<in> set ts'. term_bits t) = {i \<in> bits bmp. ?n \<le> i}"
        "\<forall>t \<in> set ts'. in_range (bsize bmp) t \<and> snd (snd (numbers t)) = 1"
        by blast
      have "(\<Union>t \<in> set (?t # ts'). term_bits t) = {rbot..cur} \<union> {i \<in> bits bmp. ?n \<le> i}"
        using ts'(2) less.prems(1) by (simp add: run_term_bits)
      also have "\<dots> = {i \<in> bits bmp. rbot \<le> i}"
        by (rule runs_split) (use less.prems True gap gt in simp_all)
      finally have "(\<Union>t \<in> set (?t # ts'). term_bits t) = {i \<in> bits bmp. rbot \<le> i}" .
      moreover have "in_range (bsize bmp) ?t \<and> snd (snd (numbers ?t)) = 1"
        using True less.prems(1) by (simp add: run_term_def in_range_def)
      moreover have "\<forall>buflen ts.
          display_loop bmp buflen cur rbot (shown buflen (render_list ts)) = shown buflen (render_list (ts @ ?t # ts'))"
        using step ts'(1) [rule_format, of _ "_ @ [?t]"] by (intro allI) (simp only: append_assoc append_Cons append_Nil)
      ultimately show ?thesis using ts'(3) by (intro exI [of _ "?t # ts'"]) (simp only: set_simps ball_simps simp_thms)
    next
      case cont: False
      then have n: "?n = cur + 1" "cur + 1 < bsize bmp" using gt by auto
      have step: "display_loop bmp buflen cur rbot (shown buflen (render_list ts)) =
          display_loop bmp buflen (cur + 1) rbot (shown buflen (render_list ts))" for buflen ts
        using True n by (subst display_loop.simps) (simp add: Let_def)
      have "{rbot..<cur + 1} \<subseteq> bits bmp" using less.prems True by (auto simp: less_Suc_eq)
      then show ?thesis
        unfolding step by (intro less.hyps) (use less.prems(1) m nset n in simp_all)
    qed
  next
    case False
    then have "display_loop bmp buflen cur rbot out = out" for buflen out by (subst display_loop.simps) simp
    moreover have "{i \<in> bits bmp. rbot \<le> i} = {}"
    proof (rule equals0I)
      fix i assume "i \<in> {i \<in> bits bmp. rbot \<le> i}"
      then show False using bits_bound [of bmp i] less.prems(4) False by auto
    qed
    ultimately show ?thesis by (intro exI [of _ "[]"]) simp
  qed
qed

lemma displaylist_shown:
  assumes "bsize bmp \<le> 2 ^ 31"
  shows "\<exists>ts. (\<forall>buflen. bitmask_displaylist buflen bmp =
      (if buflen = 0 then None else Some (take (buflen - 1) (render_list ts)), length (render_list ts))) \<and>
    (\<Union>t \<in> set ts. term_bits t) = bits bmp \<and> (\<forall>t \<in> set ts. in_range (bsize bmp) t \<and> term_ok t)"
proof -
  let ?f = "bitmask_first bmp"
  have f: "?f = (if bits bmp = {} then bsize bmp else Min (bits bmp))"
    using next_least [of 0 bmp] unfolding bitmask_first_def by (simp only: le0 simp_thms Collect_mem_eq)
  have "?f < bsize bmp \<longrightarrow> ?f \<in> bits bmp" using f Min_in [OF finite_bits, of bmp] by (auto split: if_splits)
  then obtain ts where all: "\<forall>buflen us.
      display_loop bmp buflen ?f ?f (shown buflen (render_list us)) = shown buflen (render_list (us @ ts))"
    and ts23: "(\<Union>t \<in> set ts. term_bits t) = {i \<in> bits bmp. ?f \<le> i}" "\<forall>t \<in> set ts. in_range (bsize bmp) t \<and> snd (snd (numbers t)) = 1"
    using display_loop_shown [of bmp ?f ?f, OF assms] by auto
  have "\<forall>buflen. display_loop bmp buflen ?f ?f (shown buflen []) = shown buflen (render_list ts)"
    using all [rule_format, of _ "[]"] by simp
  note ts = this ts23
  have "{i \<in> bits bmp. ?f \<le> i} = bits bmp" using f Min_le [OF finite_bits, of _ bmp] by auto
  moreover have "\<forall>t \<in> set ts. term_ok t" using ts(3) assms by (fastforce simp: in_range_def term_ok_def split: prod.splits)
  moreover have "\<forall>buflen. bitmask_displaylist buflen bmp =
      (if buflen = 0 then None else Some (take (buflen - 1) (render_list ts)), length (render_list ts))"
    using ts(1) by (simp add: bitmask_displaylist_def Let_def shown_def)
  ultimately show ?thesis using ts(2, 3) by auto
qed

text \<open>
  C16: what \<^verbatim>\<open>bitmask_displaylist\<close> writes for a mask that is not empty, into a buffer with room for it,
  \<^verbatim>\<open>bitmask_parselist\<close> reads back without error into a mask of at least that size, which then has exactly the same bits.
\<close>

theorem displaylist_parselist:
  assumes "bits bmp \<noteq> {}" "bsize bmp \<le> 2 ^ 31" "bitmask_displaylist buflen bmp = (Some buf, len)" "len < buflen"
    "mask_ok (st p)" "bsize bmp \<le> bsize (st p)"
  shows "\<exists>st'. bitmask_parselist buf st p = Some (Ok (0, st')) \<and> assigns p st (bits bmp) st' \<and> bits (st' p) = bits bmp"
proof -
  have "0 < buflen" using assms(4) by simp
  then obtain ts where ts: "buf = render_list ts" "(\<Union>t \<in> set ts. term_bits t) = bits bmp"
    "\<forall>t \<in> set ts. in_range (bsize bmp) t \<and> term_ok t"
    using displaylist_shown [of bmp, OF assms(2)] assms(3, 4) by auto
  have "ts \<noteq> []" using ts(2) assms(1) by auto
  moreover have r: "\<forall>t \<in> set ts. in_range (bsize (st p)) t" using ts(3) assms(6) by (fastforce simp: in_range_def)
  ultimately obtain st' where "bitmask_parselist buf st p = Some (Ok (0, st'))" "assigns p st (bits bmp) st'"
    using parselist_render [of ts st p] ts assms(5) by auto
  moreover have "bits bmp \<inter> {..<bsize (st p)} = bits bmp" using bits_bound [of bmp] assms(6) by fastforce
  ultimately show ?thesis by (auto simp: assigns_def)
qed

theorem displaylist_parselist_witness:
  "\<exists>st'. bitmask_parselist ''0-1,3'' (\<lambda>p. \<lparr>bsize = 5, maskp = [4]\<rparr>) 0 = Some (Ok (0, st')) \<and> bits (st' 0) = {0, 1, 3}"
proof -
  let ?b = "\<lparr>bsize = 5, maskp = [11 :: 64 word]\<rparr>" and ?st = "\<lambda>p :: nat. \<lparr>bsize = 5, maskp = [4 :: 64 word]\<rparr>"
  have b: "bits ?b = {0, 1, 3}" by code_simp
  have ok: "mask_ok (?st 0)" by (simp add: mask_ok_def longsperbits_def howmany_def bitsperlong_def)
  have "bitmask_displaylist 6 ?b = (Some ''0-1,3'', 5)" by code_simp
  from displaylist_parselist [of ?b _ _ _ ?st 0, OF _ _ this _ ok] b show ?thesis by auto
qed

end
