(* ===== verification/Bitmask_Hex.thy ===== *)
theory Bitmask_Hex
  imports Bitmask_List
begin

text \<open>
  The hexadecimal form of masks: \<^verbatim>\<open>bitmask_parsehex\<close> reads back what \<^verbatim>\<open>bitmask_displayhex\<close> writes, and both display
  functions write a prefix of one text that does not depend on the buffer.
\<close>

section \<open>The value of a chunk\<close>

lemma chunk_fold:
  assumes "k \<le> 32" "v < 2 ^ (32 - k)"
  shows "fold (\<lambda>b val. u32 (2 * val) + (if g b then 1 else 0)) (rev [0..<k]) v =
    v * 2 ^ k + horner_sum of_bool 2 (map g [0..<k])"
  using assms
proof (induction k arbitrary: v)
  case 0
  then show ?case by simp
next
  case (Suc k)
  have p: "(2::nat) ^ (32 - k) = 2 * 2 ^ (32 - Suc k)" using Suc.prems(1) by (metis Suc_diff_Suc Suc_le_lessD power_Suc)
  have "2 ^ (32 - k) \<le> (2::nat) ^ 32" by (intro power_increasing) simp_all
  then have u: "u32 (2 * v) = 2 * v" using Suc.prems(2) p by (simp add: u32_def)
  have "2 * v + (if g k then 1 else 0) < 2 ^ (32 - k)" using Suc.prems(2) p by simp
  then have "fold (\<lambda>b val. u32 (2 * val) + (if g b then 1 else 0)) (rev [0..<k]) (2 * v + (if g k then 1 else 0)) =
      (2 * v + (if g k then 1 else 0)) * 2 ^ k + horner_sum of_bool 2 (map g [0..<k])"
    using Suc by (intro Suc.IH) simp_all
  moreover have "horner_sum of_bool (2::nat) (map g [0..<Suc k]) = horner_sum of_bool 2 (map g [0..<k]) + 2 ^ k * (if g k then 1 else 0)"
    by (simp add: horner_sum_append)
  moreover have "(2 * v + (if g k then 1 else 0)) * 2 ^ k = v * 2 ^ Suc k + 2 ^ k * (if g k then 1 else 0)" by simp
  ultimately show ?case by (simp only: upt_Suc le0 if_True rev_append rev.simps append.simps fold_simps u)
qed

lemma chunk_val_bits: "chunk_val bmp c = horner_sum of_bool 2 (map (\<lambda>b. getbit bmp (c * 32 + b)) [0..<32])"
  using chunk_fold [of 32 0 "\<lambda>b. getbit bmp (c * 32 + b)"] by (simp add: chunk_val_def HEXCHUNKSZ_def)

lemma bit_chunk_val: "bit (chunk_val bmp c) b \<longleftrightarrow> b < 32 \<and> getbit bmp (c * 32 + b)"
  unfolding chunk_val_bits bit_horner_sum_bit_iff by auto

lemma chunk_val_bound: "chunk_val bmp c < 2 ^ 32"
proof -
  have "take_bit 32 (chunk_val bmp c) = chunk_val bmp c"
    by (rule bit_eqI) (auto simp: bit_take_bit_iff bit_chunk_val)
  then show ?thesis by (metis take_bit_nat_less_exp)
qed

section \<open>Writing\<close>

fun hex_text :: "bitmask \<Rightarrow> nat \<Rightarrow> string" where
  "hex_text bmp 0 = []"
| "hex_text bmp (Suc n) = hex_fixed 8 (chunk_val bmp n) @ (if n = 0 then [] else CHR '','' # hex_text bmp n)"

lemma hex_chunks_shown:
  "hex_chunks bmp buflen (rev [0..<n]) sep (shown buflen t) =
    shown buflen (t @ (if n = 0 then [] else sep @ hex_text bmp n))"
  by (induction n arbitrary: sep t) (simp_all add: HEXCHARSZ_def)

definition hex_count :: "bitmask \<Rightarrow> nat" where
  "hex_count bmp = (bsize bmp + 31) div 32"

lemma displayhex_shown:
  assumes "0 < buflen" "bsize bmp \<le> 2 ^ 31"
  shows "bitmask_displayhex buflen bmp =
    (Some (take (buflen - 1) (hex_text bmp (hex_count bmp))), length (hex_text bmp (hex_count bmp)))"
proof -
  have "u32 (bsize bmp + (HEXCHUNKSZ - 1)) div HEXCHUNKSZ = hex_count bmp"
    using assms(2) by (simp add: HEXCHUNKSZ_def u32_def hex_count_def)
  moreover have "([], 0) = shown buflen []" by (simp add: shown_def)
  ultimately show ?thesis
    using assms(1) hex_chunks_shown [of bmp buflen "hex_count bmp" "[]" "[]"]
    by (auto simp: bitmask_displayhex_def shown_def)
qed

section \<open>Reading\<close>

lemma hex_val_digit: "d < 16 \<Longrightarrow> hex_val (hex_digit d) = d"
  by (simp add: hex_val_def hex_digit_def isdigit_def)

lemma length_hex_fixed [simp]: "length (hex_fixed k v) = k"
  by (induction k arbitrary: v) auto

lemma hex_fixed_digits: "c \<in> set (hex_fixed k v) \<Longrightarrow> hex_val c < 16"
  by (induction k arbitrary: v) (auto simp: hex_val_digit)

lemma hex_val_other: "hex_val c < 16 \<Longrightarrow> c \<noteq> CHR '','' \<and> c \<noteq> CHR ''-'' \<and> c \<noteq> CHR ''+'' \<and> c \<noteq> CHR ''x'' \<and> c \<noteq> CHR ''X'' \<and> \<not> isspace c"
  by (auto simp: hex_val_def isdigit_def isspace_def split: if_splits)

lemma hex_fixed_val: "foldl (\<lambda>n c. 16 * n + hex_val c) a (hex_fixed k v) = a * 16 ^ k + v mod 16 ^ k"
proof (induction k arbitrary: v)
  case (Suc k)
  have "v mod (16 * 16 ^ k) = 16 * (v div 16 mod 16 ^ k) + v mod 16" by (simp add: mod_mult2_eq)
  then show ?case using Suc by (simp add: hex_val_digit algebra_simps)
qed simp

lemma strtoul16_hex:
  assumes "v < 2 ^ 32" "ends_term r"
  shows "strtoul16 (hex_fixed 8 v @ r) = (v, r)"
proof -
  define p where "p = hex_fixed 8 v @ r"
  obtain d e ds where d: "hex_fixed 8 v = d # e # ds" using length_hex_fixed [of 8 v]
    by (cases "hex_fixed 8 v" rule: remdups_adj.cases) auto
  have dig: "hex_val d < 16" "hex_val e < 16" using hex_fixed_digits [of _ 8 v] d by auto
  note o = hex_val_other [OF dig(1)] hex_val_other [OF dig(2)]
  have s: "dropWhile isspace p = p" "p \<noteq> []" "hd p \<noteq> CHR ''-''" "hd p \<noteq> CHR ''+''" "p ! Suc 0 \<noteq> CHR ''x''" "p ! Suc 0 \<noteq> CHR ''X''"
    "hex_fixed 8 v \<noteq> []"
    using o d by (auto simp: p_def)
  have "r = [] \<or> \<not> hex_val (hd r) < 16" using assms(2) hex_val_other by (auto simp: ends_term_def)
  then have r: "takeWhile (\<lambda>c. hex_val c < 16) r = []" by (cases r) auto
  then have w: "takeWhile (\<lambda>c. hex_val c < 16) p = hex_fixed 8 v" "drop 8 p = r"
    using hex_fixed_digits [of _ 8 v] by (simp_all add: p_def takeWhile_append)
  have "foldl (\<lambda>n c. 16 * n + hex_val c) 0 (hex_fixed 8 v) = v" using assms(1) by (simp add: hex_fixed_val)
  then show ?thesis
    using assms(1) unfolding p_def [symmetric] strtoul16_def Let_def s(1) by (simp add: s w)
qed

lemma assigns_cong: "assigns p st S st' \<Longrightarrow> S \<inter> {..<bsize (st p)} = T \<inter> {..<bsize (st p)} \<Longrightarrow> assigns p st T st'"
  by (simp add: assigns_def)

lemma chunk_step_sets:
  assumes "A' = (if v then insert n A else A - {n}) \<inter> U" "n \<notin> B" "D' = (if v then insert n D else D)"
  shows "((A' - B) \<union> D) \<inter> U = ((A - insert n B) \<union> D') \<inter> U"
  using assms by auto

abbreviation chunk_bits :: "nat \<Rightarrow> nat \<Rightarrow> nat set \<Rightarrow> nat set" where
  "chunk_bits c val bs \<equiv> (\<lambda>b. c * 32 + b) ` {b \<in> bs. bit val b}"

lemma chunk_bits_insert:
  "chunk_bits c val (insert b bs) = (if bit val b then insert (c * 32 + b) (chunk_bits c val bs) else chunk_bits c val bs)"
  by auto

lemma hex_bits_ok:
  assumes "\<forall>b \<in> set bs. c * 32 + b < sz" "mask_ok (st p)" "distinct bs"
  shows "\<exists>st'. hex_bits p c val sz bs st = (True, st') \<and>
    assigns p st ((bits (st p) - (\<lambda>b. c * 32 + b) ` set bs) \<union> chunk_bits c val (set bs)) st'"
  using assms
proof (induction bs arbitrary: st)
  case Nil
  then show ?case using bits_bound [of "st p"] by (auto simp: assigns_def)
next
  case (Cons b bs)
  let ?s = "store_bit p (c * 32 + b) (bit val b) st"
  have a: "assigns p st (if bit val b then insert (c * 32 + b) (bits (st p)) else bits (st p) - {c * 32 + b}) ?s"
    using store_bit_bits [of st p] Cons.prems(2) by simp
  then have ok: "mask_ok (?s p)" by (simp add: assigns_def)
  have bs: "\<forall>b \<in> set bs. c * 32 + b < sz" "distinct bs" using Cons.prems(1, 3) by simp_all
  obtain st' where st': "hex_bits p c val sz bs ?s = (True, st')"
    "assigns p ?s ((bits (?s p) - (\<lambda>b. c * 32 + b) ` set bs) \<union> chunk_bits c val (set bs)) st'"
    using Cons.IH [of ?s, OF bs(1) ok bs(2)] by blast
  have "hex_bits p c val sz (b # bs) st = (True, st')" using st'(1) Cons.prems(1) by (simp add: HEXCHUNKSZ_def Let_def)
  moreover have "assigns p st ((bits (st p) - insert (c * 32 + b) ((\<lambda>b. c * 32 + b) ` set bs)) \<union>
      chunk_bits c val (insert b (set bs))) st'"
  proof (rule assigns_cong [OF assigns_trans [OF a st'(2)]], rule chunk_step_sets)
    show "bits (?s p) = (if bit val b then insert (c * 32 + b) (bits (st p)) else bits (st p) - {c * 32 + b}) \<inter> {..<bsize (st p)}"
      using a by (simp add: assigns_def)
    show "c * 32 + b \<notin> (\<lambda>b. c * 32 + b) ` set bs" using Cons.prems(3) by auto
  qed (rule chunk_bits_insert)
  ultimately show ?case by auto
qed

lemma hex_text_comma: "nexttoken (Some (hex_fixed 8 v @ r)) (CHR '','') = nexttoken (Some r) (CHR '','')"
  using hex_fixed_digits [of _ 8 v] hex_val_other by (intro nexttoken_append) blast

lemma hex_text_next:
  "nexttoken (Some (hex_text bmp (Suc n))) (CHR '','') = (if n = 0 then None else Some (hex_text bmp n))"
  using hex_text_comma [of "chunk_val bmp n"] hex_text_comma [of "chunk_val bmp n" "[]"] by simp

lemma count_hex_text: "0 < n \<Longrightarrow> count_tokens (Some (hex_text bmp n)) = n"
proof (induction n)
  case (Suc n)
  then show ?case by (cases "n = 0") (simp_all add: hex_text_next del: hex_text.simps)
qed simp

lemma chunk_bits_val: "chunk_bits c (chunk_val bmp c) (set (rev [0..<32])) = {x \<in> bits bmp. c * 32 \<le> x \<and> x < c * 32 + 32}"
proof (intro equalityI subsetI)
  fix x assume "x \<in> {x \<in> bits bmp. c * 32 \<le> x \<and> x < c * 32 + 32}"
  then show "x \<in> chunk_bits c (chunk_val bmp c) (set (rev [0..<32]))"
    by (auto simp: bit_chunk_val intro!: image_eqI [of _ _ "x - c * 32"])
qed (auto simp: bit_chunk_val)

declare hex_loop.simps(2) [simp del]

lemma hex_loop_step:
  assumes "32 * Suc n \<le> sz" "mask_ok (st p)"
  shows "\<exists>st1. hex_loop p sz n (Some (hex_text bmp (Suc n))) st =
      hex_loop p sz (n - 1) (if n = 0 then None else Some (hex_text bmp n)) st1 \<and>
    assigns p st ((bits (st p) - {n * 32..<n * 32 + 32}) \<union> {x \<in> bits bmp. n * 32 \<le> x \<and> x < n * 32 + 32}) st1"
proof -
  let ?v = "chunk_val bmp n" and ?r = "if n = 0 then [] else CHR '','' # hex_text bmp n" and ?bs = "rev [0..<32]"
  have st: "strtoul16 (hex_text bmp (Suc n)) = (?v, ?r)"
    using strtoul16_hex [OF chunk_val_bound, of ?r bmp n] by (simp add: ends_term_def)
  have len: "length (hex_text bmp (Suc n)) = 8 + length ?r" by simp
  have u: "u32 ?v = ?v" using chunk_val_bound [of bmp n] by (simp add: u32_def)
  have im: "(\<lambda>b. n * 32 + b) ` set ?bs = {n * 32..<n * 32 + 32}"
    using image_add_atLeastLessThan [of "n * 32" 0 32] by (simp add: atLeast0LessThan add.commute)
  have b: "\<forall>b \<in> set ?bs. n * 32 + b < sz" using assms(1) by auto
  obtain st1 where st1: "hex_bits p n ?v sz ?bs st = (True, st1)"
    "assigns p st ((bits (st p) - {n * 32..<n * 32 + 32}) \<union> {x \<in> bits bmp. n * 32 \<le> x \<and> x < n * 32 + 32}) st1"
    using hex_bits_ok [of ?bs n sz st p ?v, OF b assms(2)] unfolding im chunk_bits_val by auto
  have "hex_loop p sz n (Some (hex_text bmp (Suc n))) st =
      hex_loop p sz (n - 1) (if n = 0 then None else Some (hex_text bmp n)) st1"
    unfolding hex_loop.simps(2) hex_text_next st Let_def prod.case len HEXCHUNKSZ_def HEXCHARSZ_def u st1(1) by simp
  then show ?thesis using st1(2) by blast
qed

lemma hex_loop_text:
  assumes "32 * Suc n \<le> sz" "mask_ok (st p)"
  shows "\<exists>st'. hex_loop p sz n (Some (hex_text bmp (Suc n))) st = (True, st') \<and>
    assigns p st ({x \<in> bits (st p). 32 * Suc n \<le> x} \<union> {x \<in> bits bmp. x < 32 * Suc n}) st'"
  using assms
proof (induction n arbitrary: st)
  case 0
  obtain st1 where st1: "hex_loop p sz 0 (Some (hex_text bmp (Suc 0))) st = (True, st1)"
    "assigns p st ((bits (st p) - {0..<32}) \<union> {x \<in> bits bmp. x < 32}) st1"
    using hex_loop_step [of 0 sz st p bmp] "0.prems" by auto
  then show ?case by (intro exI [of _ st1] conjI) (auto elim!: assigns_cong)
next
  case (Suc n)
  obtain st1 where st1: "hex_loop p sz (Suc n) (Some (hex_text bmp (Suc (Suc n)))) st = hex_loop p sz n (Some (hex_text bmp (Suc n))) st1"
    and a1: "assigns p st ((bits (st p) - {Suc n * 32..<Suc n * 32 + 32}) \<union>
      {x \<in> bits bmp. Suc n * 32 \<le> x \<and> x < Suc n * 32 + 32}) st1"
    using hex_loop_step [of "Suc n" sz st p bmp, OF Suc.prems] by (auto simp del: hex_text.simps)
  have ok: "mask_ok (st1 p)" using a1 by (simp add: assigns_def)
  obtain st2 where st2: "hex_loop p sz n (Some (hex_text bmp (Suc n))) st1 = (True, st2)"
    and a2: "assigns p st1 ({x \<in> bits (st1 p). 32 * Suc n \<le> x} \<union> {x \<in> bits bmp. x < 32 * Suc n}) st2"
    using Suc.IH [of st1, OF _ ok] Suc.prems(1) by (auto simp del: hex_text.simps)
  have b1: "bits (st1 p) = ((bits (st p) - {Suc n * 32..<Suc n * 32 + 32}) \<union>
      {x \<in> bits bmp. Suc n * 32 \<le> x \<and> x < Suc n * 32 + 32}) \<inter> {..<bsize (st p)}" using a1 by (simp add: assigns_def)
  have "assigns p st ({x \<in> bits (st p). 32 * Suc (Suc n) \<le> x} \<union> {x \<in> bits bmp. x < 32 * Suc (Suc n)}) st2"
    by (rule assigns_cong [OF assigns_trans [OF a1 a2]], unfold b1) auto
  moreover have "hex_loop p sz (Suc n) (Some (hex_text bmp (Suc (Suc n)))) st = (True, st2)" unfolding st1 by (rule st2)
  ultimately show ?case by blast
qed

section \<open>The round trip\<close>

text \<open>
  C18: what \<^verbatim>\<open>bitmask_displayhex\<close> writes for a mask with at least one bit position, into a buffer with room for
  it, \<^verbatim>\<open>bitmask_parsehex\<close> reads back without error into a mask of at least that size, which then has exactly the same bits.
\<close>

theorem displayhex_parsehex:
  assumes "0 < bsize bmp" "bsize bmp \<le> bsize (st p)" "bsize (st p) \<le> 2 ^ 31" "mask_ok (st p)"
    "bitmask_displayhex buflen bmp = (Some buf, cnt)" "cnt < buflen"
  shows "\<exists>st'. bitmask_parsehex buf st p = (0, st') \<and> assigns p st (bits bmp) st' \<and> bits (st' p) = bits bmp"
proof -
  let ?c = "bitmask_clearall st p"
  obtain n where n: "hex_count bmp = Suc n" using assms(1) by (cases "hex_count bmp") (auto simp: hex_count_def)
  have buf: "buf = hex_text bmp (Suc n)"
    using displayhex_shown [of buflen bmp] assms n by (auto simp del: hex_text.simps)
  have c: "assigns p st {} ?c" using clearall_assigns [of st p] assms(4) by simp
  then have ok: "mask_ok (?c p)" and sz: "bsize (?c p) = bsize (st p)" and e: "bits (?c p) = {}" by (simp_all add: assigns_def)
  let ?sz = "u32 (longsperbits (bsize (st p)) * 8 * 8)"
  define k where "k = (bsize (st p) + 63) div 64"
  have "?sz = k * 64"
    using assms(3) by (simp add: u32_def longsperbits_def howmany_def bitsperlong_def k_def)
  moreover have "bsize (st p) \<le> k * 64" unfolding k_def by presburger
  moreover have "32 * Suc n \<le> bsize bmp + 31" using n by (simp add: hex_count_def)
  moreover have "Suc n \<le> 2 * k" using calculation(2, 3) assms(2) by simp
  ultimately have "32 * Suc n \<le> ?sz" by simp
  then obtain st' where st': "hex_loop p ?sz n (Some buf) ?c = (True, st')" "assigns p ?c {x \<in> bits bmp. x < 32 * Suc n} st'"
    using hex_loop_text [of n ?sz ?c p bmp, OF _ ok] e buf by (auto simp del: hex_text.simps)
  have "bsize bmp \<le> 32 * Suc n" using n by (simp add: hex_count_def)
  then have "{x \<in> bits bmp. x < 32 * Suc n} = bits bmp" using bits_bound [of bmp] by fastforce
  then have a: "assigns p st (bits bmp) st'" using assigns_trans [OF c st'(2)] by simp
  moreover have "bits bmp \<inter> {..<bsize (st p)} = bits bmp" using bits_bound [of bmp] assms(2) by fastforce
  moreover have "bitmask_parsehex buf st p = (0, st')"
    using st'(1) count_hex_text [of "Suc n" bmp] unfolding bitmask_parsehex_def Let_def sz buf by (simp del: hex_text.simps)
  ultimately show ?thesis by (auto simp: assigns_def)
qed

theorem displayhex_parsehex_witness:
  "\<exists>st'. bitmask_parsehex ''0000000b'' (\<lambda>p. \<lparr>bsize = 5, maskp = [4]\<rparr>) 0 = (0, st') \<and> bits (st' 0) = {0, 1, 3}"
proof -
  let ?b = "\<lparr>bsize = 5, maskp = [11 :: 64 word]\<rparr>" and ?st = "\<lambda>p :: nat. \<lparr>bsize = 5, maskp = [4 :: 64 word]\<rparr>"
  have b: "bits ?b = {0, 1, 3}" by code_simp
  have ok: "mask_ok (?st 0)" by (simp add: mask_ok_def longsperbits_def howmany_def bitsperlong_def)
  have "chunk_val ?b 0 = 11" by (simp add: chunk_val_bits getbit_bit upt_conv_Cons)
  moreover have "hex_fixed 8 11 = ''0000000b''" by code_simp
  ultimately have "hex_text ?b (hex_count ?b) = ''0000000b''" by (simp add: hex_count_def)
  then have "bitmask_displayhex 9 ?b = (Some ''0000000b'', 8)" using displayhex_shown [of 9 ?b] by simp
  from displayhex_parsehex [of ?b ?st 0, OF _ _ _ ok this] b show ?thesis by auto
qed

text \<open>
  C26: for every mask of at most \<open>2 ^ 31\<close> bits there is one list text and one hexadecimal text such that both display
  functions leave, in a buffer of any positive size, the longest prefix of the text that fits with the terminating zero
  and return the length of the whole text, so they never write past the buffer. With a buffer of size 0 neither writes
  anything; \<^verbatim>\<open>bitmask_displaylist\<close> still returns the length of its text, \<^verbatim>\<open>bitmask_displayhex\<close> returns 0.
\<close>

theorem display_truncates:
  assumes "bsize bmp \<le> 2 ^ 31"
  shows "\<exists>t h. \<forall>buflen.
    bitmask_displaylist buflen bmp = (if buflen = 0 then None else Some (take (buflen - 1) t), length t) \<and>
    bitmask_displayhex buflen bmp = (if buflen = 0 then (None, 0) else (Some (take (buflen - 1) h), length h))"
proof -
  obtain ts where "\<forall>buflen. bitmask_displaylist buflen bmp =
      (if buflen = 0 then None else Some (take (buflen - 1) (render_list ts)), length (render_list ts))"
    using displaylist_shown [of bmp, OF assms] by blast
  moreover have "bitmask_displayhex 0 bmp = (None, 0)" by (simp add: bitmask_displayhex_def)
  ultimately show ?thesis
    using displayhex_shown [of _ bmp, OF _ assms]
    by (intro exI [of _ "render_list ts"] exI [of _ "hex_text bmp (hex_count bmp)"]) (simp del: hex_text.simps)
qed

theorem display_truncates_witness:
  "\<exists>t h. \<forall>buflen. bitmask_displaylist buflen \<lparr>bsize = 5, maskp = [11]\<rparr> = (if buflen = 0 then None else Some (take (buflen - 1) t), length t) \<and>
    bitmask_displayhex buflen \<lparr>bsize = 5, maskp = [11]\<rparr> = (if buflen = 0 then (None, 0) else (Some (take (buflen - 1) h), length h))"
  using display_truncates [of "\<lparr>bsize = 5, maskp = [11]\<rparr>"] by simp

end
