(* ===== verification/Kver.thy ===== *)
theory Kver
  imports Res_Flags
begin

text \<open>
  The comparison of kernel versions of \<^verbatim>\<open>lib/tst_kvercmp.c\<close>, with which tests decide whether the running kernel is
  new enough. The release string of \<^verbatim>\<open>uname\<close> and the contents of \<^verbatim>\<open>/etc/os-release\<close> are a record; a message of
  \<^verbatim>\<open>tst_resm\<close> is an entry of the log that is returned.
\<close>

section \<open>Parsing\<close>

text \<open>\<^verbatim>\<open>strtoul(str, &end, 10)\<close>: the value, saturated at 64 bits, and the rest.\<close>

definition strtoul10 :: "string \<Rightarrow> nat \<times> string" where
  "strtoul10 str =
     (let s = dropWhile isspace str;
          neg = (s \<noteq> [] \<and> hd s = CHR ''-'');
          t = (if s \<noteq> [] \<and> (hd s = CHR ''-'' \<or> hd s = CHR ''+'') then tl s else s);
          ds = takeWhile isdigit t;
          v = digits_val ds
      in if ds = [] then (0, str)
         else (if v \<ge> 2 ^ 64 then 2 ^ 64 - 1 else if neg then (2 ^ 64 - v) mod 2 ^ 64 else v, dropWhile isdigit t))"

definition parse_digit :: "string \<Rightarrow> (int \<times> string) option" where
  "parse_digit str =
     (let (v, rest) = strtoul10 str in
      if length rest = length str then None
      else if v > 2 ^ 31 - 1 then None
      else Some (int v, rest))"

text \<open>The return value and the three numbers.\<close>

definition tst_parse_kver :: "string \<Rightarrow> int \<times> int \<times> int \<times> int" where
  "tst_parse_kver str_kver =
     (case parse_digit str_kver of
        None \<Rightarrow> (1, 0, 0, 0)
      | Some (v1, s1) \<Rightarrow>
          if cat s1 0 \<noteq> CHR ''.'' then (1, v1, 0, 0)
          else (case parse_digit (drop 1 s1) of
              None \<Rightarrow> (1, v1, 0, 0)
            | Some (v2, s2) \<Rightarrow>
                if cat s2 0 = CHR '' '' \<or> cat s2 0 = NUL \<or> cat s2 0 = CHR ''-'' then (0, v1, v2, 0)
                else if cat s2 0 \<noteq> CHR ''.'' then (1, v1, v2, 0)
                else (case parse_digit (drop 1 s2) of
                    None \<Rightarrow> (1, v1, v2, 0)
                  | Some (v3, _) \<Rightarrow> (0, v1, v2, v3))))"

section \<open>Comparing three numbers\<close>

text \<open>The left shift of a negative number, or one that does not fit, is undefined.\<close>

definition shl :: "int \<Rightarrow> nat \<Rightarrow> int outcome" where
  "shl x k = (if x < 0 then UB else arith 32 (x * 2 ^ k))"

definition kver_code :: "int \<Rightarrow> int \<Rightarrow> int \<Rightarrow> int outcome" where
  "kver_code r1 r2 r3 =
     obind (shl r1 16) (\<lambda>x. obind (shl r2 8) (\<lambda>y. obind (arith 32 (x + y)) (\<lambda>z. arith 32 (z + r3))))"

definition tst_kvcmp :: "string \<Rightarrow> int \<Rightarrow> int \<Rightarrow> int \<Rightarrow> (report list \<times> int) outcome" where
  "tst_kvcmp cur_kver r1 r2 r3 =
     (let (bad, a1, a2, a3) = tst_parse_kver cur_kver;
          out = (if bad \<noteq> 0 then [(TWARN, ''Invalid kernel version '' @ cur_kver @ '', expected %d.%d.%d'')] else [])
      in obind (kver_code r1 r2 r3) (\<lambda>testver. obind (kver_code a1 a2 a3) (\<lambda>currver.
           obind (arith 32 (currver - testver)) (\<lambda>d. Ok (out, d)))))"

section \<open>Comparing five numbers\<close>

text \<open>A conversion \<^verbatim>\<open>%d\<close> of \<^verbatim>\<open>sscanf\<close>: \<open>None\<close> if no number is there; a number that does not fit has no defined value.\<close>

definition scan_d :: "string \<Rightarrow> (int \<times> string) option outcome" where
  "scan_d p =
     (let s = dropWhile isspace p;
          neg = (s \<noteq> [] \<and> hd s = CHR ''-'');
          t = (if s \<noteq> [] \<and> (hd s = CHR ''-'' \<or> hd s = CHR ''+'') then tl s else s);
          ds = takeWhile isdigit t;
          v = (if neg then - int (digits_val ds) else int (digits_val ds))
      in if ds = [] then Ok None
         else if \<not> fits_signed 32 v then UB
         else Ok (Some (v, dropWhile isdigit t)))"

text \<open>The fields that \<^verbatim>\<open>sscanf(ver, "%d.%d.%d-%d.%d", ...)\<close> converts: each character of the first argument, then a number.\<close>

fun scan_fields :: "string \<Rightarrow> string \<Rightarrow> int list outcome" where
  "scan_fields [] s = Ok []"
| "scan_fields (sep # seps) s =
     (if s = [] \<or> hd s \<noteq> sep then Ok []
      else obind (scan_d (tl s)) (\<lambda>r. case r of
          None \<Rightarrow> Ok []
        | Some (v, s') \<Rightarrow> obind (scan_fields seps s') (\<lambda>vs. Ok (v # vs))))"

definition scan_exv :: "string \<Rightarrow> int list outcome" where
  "scan_exv ver =
     obind (scan_d ver) (\<lambda>r. case r of
         None \<Rightarrow> Ok (replicate 5 0)
       | Some (v, s) \<Rightarrow> obind (scan_fields ''..-.'' s) (\<lambda>vs. Ok (v # vs @ replicate (4 - length vs) 0)))"

fun diff_fields :: "int list \<Rightarrow> int list \<Rightarrow> int outcome" where
  "diff_fields (c # cs) (t # ts) =
     obind (arith 32 (c - t)) (\<lambda>ret. if ret \<noteq> 0 then Ok ret else diff_fields cs ts)"
| "diff_fields _ _ = Ok 0"

definition tst_kvexcmp :: "string \<Rightarrow> string \<Rightarrow> int outcome" where
  "tst_kvexcmp tst_exv cur_ver =
     obind (scan_exv cur_ver) (\<lambda>c. obind (scan_exv tst_exv) (\<lambda>t. diff_fields c t))"

section \<open>The name of the distribution\<close>

record kv_env =
  kv_release :: string
  os_release :: "string option"

definition toupper :: "char \<Rightarrow> char" where
  "toupper c = (if islower c then char_of (chr_code c - 32) else c)"

text \<open>\<^verbatim>\<open>sscanf(line, "ID=%s", distname)\<close>\<close>

definition scan_id :: "string \<Rightarrow> string option" where
  "scan_id line =
     (if take 3 line \<noteq> ''ID='' then None
      else let w = takeWhile (\<lambda>c. \<not> isspace c) (dropWhile isspace (drop 3 line)) in if w = [] then None else Some w)"

definition BUFSIZ :: nat where "BUFSIZ = 8192"

text \<open>The loop of \<^verbatim>\<open>file_lines_scanf\<close> over the lines of the file.\<close>

function lines_scan :: "string \<Rightarrow> string option" where
  "lines_scan file =
     (case fgets BUFSIZ file of
        None \<Rightarrow> None
      | Some (line, rest) \<Rightarrow> (case scan_id line of Some w \<Rightarrow> Some w | None \<Rightarrow> lines_scan rest))"
  by pat_completeness auto
termination
  by (relation "measure length") (auto simp: BUFSIZ_def dest: fgets_shorter)

declare lines_scan.simps [simp del]

text \<open>The identifier has to fit the 64 bytes of \<^verbatim>\<open>distname\<close>; a quote at its start is skipped, the next one ends it.
  A file without such a line breaks the test; the number of conversions is left out of the message.\<close>

definition tst_kvcmp_distname :: "kv_env \<Rightarrow> string option outcome" where
  "tst_kvcmp_distname e =
     (if strstr (kv_release e) ''.el7'' \<noteq> None then Ok (Some ''RHEL7'')
      else if strstr (kv_release e) ''.el8'' \<noteq> None then Ok (Some ''RHEL8'')
      else if strstr (kv_release e) ''.el9'' \<noteq> None then Ok (Some ''RHEL9'')
      else (case os_release e of
          None \<Rightarrow> Ok None
        | Some file \<Rightarrow> (case lines_scan file of
              None \<Rightarrow> Brk (TBROK, ''Expected 1 conversions'')
            | Some w \<Rightarrow>
                if length w \<ge> 64 then UB
                else let p = (if hd w = DQUOTE then tl w else w) in
                  Ok (Some (map toupper (takeWhile (\<lambda>c. c \<noteq> DQUOTE) p))))))"

section \<open>The comparisons\<close>

definition tst_kvercmp :: "kv_env \<Rightarrow> int \<Rightarrow> int \<Rightarrow> int \<Rightarrow> (report list \<times> int) outcome" where
  "tst_kvercmp e r1 r2 r3 = tst_kvcmp (kv_release e) r1 r2 r3"

fun find_exv :: "(string \<times> string) list \<Rightarrow> string \<Rightarrow> string option" where
  "find_exv [] name = None"
| "find_exv ((dist_name, extra_ver) # vers) name = (if dist_name = name then Some extra_ver else find_exv vers name)"

definition tst_kvercmp2 :: "kv_env \<Rightarrow> int \<Rightarrow> int \<Rightarrow> int \<Rightarrow> (string \<times> string) list \<Rightarrow> (report list \<times> int) outcome" where
  "tst_kvercmp2 e r1 r2 r3 vers =
     obind (tst_kvcmp_distname e) (\<lambda>dist. case dist of
         None \<Rightarrow> tst_kvercmp e r1 r2 r3
       | Some cur_dist_name \<Rightarrow>
           (case find_exv vers cur_dist_name of
              Some extra_ver \<Rightarrow> obind (tst_kvexcmp extra_ver (kv_release e)) (\<lambda>d.
                Ok ([(TINFO, ''Detected '' @ cur_dist_name @ '' using kernel version '' @ kv_release e)], d))
            | None \<Rightarrow> tst_kvcmp (kv_release e) r1 r2 r3))"

end
