(* ===== verification/Kver_Props.thy ===== *)
theory Kver_Props
  imports Kver
begin

text \<open>
  The comparisons of kernel versions decide the lexicographic order: of three numbers as long as the second and third
  fit a byte, of five numbers for every number that fits an int.
\<close>

section \<open>The reference order and printed versions\<close>

fun lex_sgn :: "nat list \<Rightarrow> nat list \<Rightarrow> int" where
  "lex_sgn (x # xs) (y # ys) = (if x < y then - 1 else if y < x then 1 else lex_sgn xs ys)"
| "lex_sgn _ _ = 0"

fun show_fields :: "string \<Rightarrow> nat list \<Rightarrow> string" where
  "show_fields (c # seps) (n # ns) = c # show_nat n @ show_fields seps ns"
| "show_fields _ _ = []"

text \<open>As in \<open>4.8.1-52.3\<close>.\<close>

definition show_ver :: "nat list \<Rightarrow> string" where
  "show_ver ns = show_nat (hd ns) @ show_fields ''..-.'' (tl ns)"

definition no_digit :: "string \<Rightarrow> bool" where
  "no_digit r \<longleftrightarrow> r = [] \<or> \<not> isdigit (hd r)"

section \<open>Three numbers\<close>

lemma parse_digit_show:
  assumes "n < 2 ^ 31" "no_digit r"
  shows "parse_digit (show_nat n @ r) = Some (int n, r)"
proof -
  define p where "p = show_nat n @ r"
  note s = show_nat_scan [OF assms(2) [unfolded no_digit_def], of n, folded p_def]
  have l: "length r \<noteq> length p" by (simp add: p_def)
  show ?thesis
    using assms(1) l unfolding p_def [symmetric] parse_digit_def strtoul10_def Let_def s(1)
    by (simp add: s digits_val_show)
qed

lemma no_digit_sep: "\<not> isdigit c \<Longrightarrow> no_digit (c # r)"
  by (simp add: no_digit_def)

lemma not_digit_dot [simp]: "\<not> isdigit (CHR ''.'')" "\<not> isdigit (CHR ''-'')"
  by (simp_all add: isdigit_def)

lemma parse_kver_long:
  assumes "a1 < 2 ^ 31" "a2 < 2 ^ 31" "a3 < 2 ^ 31" "no_digit r"
  shows "tst_parse_kver (show_ver [a1, a2, a3] @ r) = (0, int a1, int a2, int a3)"
  using assms by (simp add: tst_parse_kver_def show_ver_def parse_digit_show no_digit_sep cat_def)

lemma parse_kver_short:
  assumes "a1 < 2 ^ 31" "a2 < 2 ^ 31" "r = [] \<or> hd r = CHR '' '' \<or> hd r = CHR ''-''"
  shows "tst_parse_kver (show_ver [a1, a2] @ r) = (0, int a1, int a2, 0)"
proof -
  have "no_digit r" using assms(3) by (auto simp: no_digit_def isdigit_def)
  moreover have "cat r 0 = CHR '' '' \<or> cat r 0 = NUL \<or> cat r 0 = CHR ''-''" using assms(3) by (auto simp: cat_def hd_conv_nth)
  ultimately show ?thesis using assms(1, 2) by (auto simp: tst_parse_kver_def show_ver_def parse_digit_show no_digit_sep cat_def)
qed

definition in_code :: "nat \<Rightarrow> nat \<Rightarrow> nat \<Rightarrow> bool" where
  "in_code a1 a2 a3 \<longleftrightarrow> a1 < 2 ^ 15 \<and> a2 < 2 ^ 8 \<and> a3 < 2 ^ 8"

lemma kver_code_ok: "in_code a1 a2 a3 \<Longrightarrow> kver_code (int a1) (int a2) (int a3) = Ok (int (a1 * 65536 + a2 * 256 + a3))"
  by (simp add: in_code_def kver_code_def shl_def fits_signed_def arith_def)

lemma code_order:
  assumes "in_code a1 a2 a3" "in_code r1 r2 r3"
  shows "sgn (int (a1 * 65536 + a2 * 256 + a3) - int (r1 * 65536 + r2 * 256 + r3)) = lex_sgn [a1, a2, a3] [r1, r2, r3]"
  using assms unfolding in_code_def by (auto simp: sgn_if)

lemma kvcmp_parsed:
  assumes "tst_parse_kver cur = (0, int a1, int a2, int a3)" "in_code a1 a2 a3" "in_code r1 r2 r3"
  shows "\<exists>d. tst_kvcmp cur (int r1) (int r2) (int r3) = Ok ([], d) \<and> sgn d = lex_sgn [a1, a2, a3] [r1, r2, r3]"
proof -
  let ?d = "int (a1 * 65536 + a2 * 256 + a3) - int (r1 * 65536 + r2 * 256 + r3)"
  have "fits_signed 32 ?d" using assms(2, 3) by (simp add: in_code_def fits_signed_def)
  then have "tst_kvcmp cur (int r1) (int r2) (int r3) = Ok ([], ?d)"
    by (simp only: tst_kvcmp_def assms(1) Let_def prod.case kver_code_ok [OF assms(2)] kver_code_ok [OF assms(3)] obind.simps arith_ok) simp
  then show ?thesis using code_order [OF assms(2, 3)] by blast
qed

text \<open>
  C20: \<^verbatim>\<open>tst_kvcmp\<close> on a release \<open>a1.a2.a3\<close>, whatever follows the third number, and on a short one \<open>a1.a2\<close>, warns about nothing and
  returns a number whose sign is the lexicographic order of the numbers, provided the second and the third numbers on
  both sides are below 256 and the first ones below $2^{15}$.
\<close>

theorem kvcmp_correct:
  assumes "in_code a1 a2 a3" "in_code r1 r2 r3" "no_digit rest" "short = [] \<or> hd short = CHR '' '' \<or> hd short = CHR ''-''"
  shows "\<exists>d d'. tst_kvcmp (show_ver [a1, a2, a3] @ rest) (int r1) (int r2) (int r3) = Ok ([], d) \<and>
    sgn d = lex_sgn [a1, a2, a3] [r1, r2, r3] \<and>
    tst_kvcmp (show_ver [a1, a2] @ short) (int r1) (int r2) (int r3) = Ok ([], d') \<and>
    sgn d' = lex_sgn [a1, a2, 0] [r1, r2, r3]"
proof -
  have a: "a1 < 2 ^ 31" "a2 < 2 ^ 31" "a3 < 2 ^ 31" and b: "in_code a1 a2 0" using assms(1) by (auto simp: in_code_def)
  have "tst_parse_kver (show_ver [a1, a2] @ short) = (0, int a1, int a2, int 0)" using parse_kver_short [OF a(1, 2) assms(4)] by simp
  from kvcmp_parsed [OF this b assms(2)] kvcmp_parsed [OF parse_kver_long [OF a assms(3)] assms(1, 2)]
  show ?thesis by blast
qed

theorem kvcmp_correct_witness:
  "\<exists>d. tst_kvcmp ''4.8.1-52-default'' 4 10 0 = Ok ([], d) \<and> d < 0"
proof -
  have s: "show_ver [4, 8, 1] @ ''-52-default'' = ''4.8.1-52-default''" by code_simp
  have "\<exists>d. tst_kvcmp (show_ver [4, 8, 1] @ ''-52-default'') (int 4) (int 10) (int 0) = Ok ([], d) \<and>
      sgn d = lex_sgn [4, 8, 1] [4, 10, 0]"
    using kvcmp_correct [of 4 8 1 4 10 0 "''-52-default''" "[]"] by (auto simp: in_code_def no_digit_def isdigit_def)
  then show ?thesis unfolding s by (auto simp: sgn_if split: if_splits)
qed

section \<open>Five numbers\<close>

lemma scan_d_show:
  assumes "n < 2 ^ 31" "no_digit r"
  shows "scan_d (show_nat n @ r) = Ok (Some (int n, r))"
proof -
  define p where "p = show_nat n @ r"
  note s = show_nat_scan [OF assms(2) [unfolded no_digit_def], of n, folded p_def]
  show ?thesis
    using assms(1) unfolding p_def [symmetric] scan_d_def Let_def s(1) by (simp add: s digits_val_show fits_signed_def)
qed

lemma show_fields_no_digit: "\<forall>c \<in> set seps. \<not> isdigit c \<Longrightarrow> no_digit r \<Longrightarrow> no_digit (show_fields seps ns @ r)"
  by (cases "(seps, ns)" rule: show_fields.cases) (auto simp: no_digit_def)

lemma scan_fields_show:
  assumes "length ns = length seps" "\<forall>n \<in> set ns. n < 2 ^ 31" "\<forall>c \<in> set seps. \<not> isdigit c" "no_digit r"
  shows "scan_fields seps (show_fields seps ns @ r) = Ok (map int ns)"
  using assms
proof (induction seps arbitrary: ns)
  case (Cons c seps)
  then obtain n ms where ns: "ns = n # ms" by (cases ns) auto
  have "no_digit (show_fields seps ms @ r)" using Cons.prems(3, 4) by (intro show_fields_no_digit) auto
  then have "scan_d (show_nat n @ show_fields seps ms @ r) = Ok (Some (int n, show_fields seps ms @ r))"
    using Cons.prems(2) ns by (intro scan_d_show) auto
  then show ?case using Cons.IH [of ms] Cons.prems ns by simp
qed simp

definition ver5 :: "nat list \<Rightarrow> bool" where
  "ver5 ns \<longleftrightarrow> length ns = 5 \<and> (\<forall>n \<in> set ns. n < 2 ^ 31)"

lemma scan_exv_show:
  assumes "ver5 ns" "no_digit r"
  shows "scan_exv (show_ver ns @ r) = Ok (map int ns)"
proof -
  obtain n ms where ns: "ns = n # ms" "length ms = 4" using assms(1) by (cases ns) (auto simp: ver5_def)
  have d: "\<forall>c \<in> set ''..-.''. \<not> isdigit c" by simp
  have "scan_d (show_nat n @ show_fields ''..-.'' ms @ r) = Ok (Some (int n, show_fields ''..-.'' ms @ r))"
    using assms ns d by (intro scan_d_show show_fields_no_digit) (auto simp: ver5_def)
  moreover have "scan_fields ''..-.'' (show_fields ''..-.'' ms @ r) = Ok (map int ms)"
    using assms ns d by (intro scan_fields_show) (auto simp: ver5_def)
  ultimately show ?thesis by (simp add: scan_exv_def show_ver_def ns)
qed

lemma diff_fields_order:
  assumes "\<forall>n \<in> set cs. n < 2 ^ 31" "\<forall>n \<in> set ts. n < 2 ^ 31"
  shows "\<exists>d. diff_fields (map int cs) (map int ts) = Ok d \<and> sgn d = lex_sgn cs ts"
  using assms
proof (induction cs ts rule: lex_sgn.induct)
  case (1 x xs y ys)
  have "fits_signed 32 (int x - int y)" using 1(2, 3) by (simp add: fits_signed_def)
  then show ?case using 1 by (auto simp: sgn_if)
qed simp_all

lemma kvexcmp_order:
  assumes "ver5 cs" "ver5 ts" "no_digit r"
  shows "\<exists>d. tst_kvexcmp (show_ver ts) (show_ver cs @ r) = Ok d \<and> sgn d = lex_sgn cs ts"
proof -
  have "scan_exv (show_ver ts) = Ok (map int ts)" using scan_exv_show [OF assms(2), of "[]"] by (simp add: no_digit_def)
  moreover have "scan_exv (show_ver cs @ r) = Ok (map int cs)" using scan_exv_show [OF assms(1, 3)] .
  ultimately show ?thesis
    using diff_fields_order [of cs ts] assms(1, 2) by (simp add: tst_kvexcmp_def ver5_def)
qed

text \<open>
  C21: on a distribution kernel \<open>a1.a2.a3-a4.a5\<close> \<^verbatim>\<open>tst_kvercmp2\<close> returns the lexicographic order against the five
  numbers of the first table entry for the distribution, if there is one, and otherwise against the three numbers of the
  caller.
\<close>

theorem kvercmp2_correct:
  assumes "kv_release e = show_ver [a1, a2, a3, a4, a5] @ rest" "no_digit rest" "ver5 [a1, a2, a3, a4, a5]"
    "in_code a1 a2 a3" "in_code r1 r2 r3" "tst_kvcmp_distname e = Ok (Some name)"
    "find_exv vers name = None \<or> find_exv vers name = Some (show_ver ts) \<and> ver5 ts"
  shows "\<exists>out d. tst_kvercmp2 e (int r1) (int r2) (int r3) vers = Ok (out, d) \<and>
    sgn d = (if find_exv vers name = None then lex_sgn [a1, a2, a3] [r1, r2, r3] else lex_sgn [a1, a2, a3, a4, a5] ts)"
proof (cases "find_exv vers name = None")
  case True
  have a: "a1 < 2 ^ 31" "a2 < 2 ^ 31" "a3 < 2 ^ 31" using assms(3) by (simp_all add: ver5_def)
  have r: "kv_release e = show_ver [a1, a2, a3] @ CHR ''-'' # show_nat a4 @ CHR ''.'' # show_nat a5 @ rest"
    by (simp add: assms(1) show_ver_def)
  have "tst_parse_kver (kv_release e) = (0, int a1, int a2, int a3)"
    unfolding r by (rule parse_kver_long [OF a]) (simp add: no_digit_def)
  from kvcmp_parsed [OF this assms(4, 5)] show ?thesis using True assms(6) by (auto simp: tst_kvercmp2_def)
next
  case False
  then have f: "find_exv vers name = Some (show_ver ts)" and ts: "ver5 ts" using assms(7) by auto
  obtain d where "tst_kvexcmp (show_ver ts) (kv_release e) = Ok d" "sgn d = lex_sgn [a1, a2, a3, a4, a5] ts"
    using kvexcmp_order [OF assms(3) ts assms(2)] unfolding assms(1) by blast
  then show ?thesis using f assms(6) by (auto simp: tst_kvercmp2_def)
qed

theorem kvercmp2_correct_witness:
  "\<exists>out d. tst_kvercmp2 \<lparr>kv_release = ''4.18.0-305.25.el8'', os_release = None\<rparr> 5 4 0 [(''RHEL8'', ''4.18.0-240.10'')] = Ok (out, d) \<and> 0 < d"
proof -
  let ?e = "\<lparr>kv_release = ''4.18.0-305.25.el8'', os_release = None\<rparr>" and ?v = "[(''RHEL8'', ''4.18.0-240.10'')]"
  have r: "kv_release ?e = show_ver [4, 18, 0, 305, 25] @ ''.el8''" by code_simp
  have t: "find_exv ?v ''RHEL8'' = Some (show_ver [4, 18, 0, 240, 10])" by code_simp
  have n: "tst_kvcmp_distname ?e = Ok (Some ''RHEL8'')" by (simp add: tst_kvcmp_distname_def)
  have "\<exists>out d. tst_kvercmp2 ?e (int 5) (int 4) (int 0) ?v = Ok (out, d) \<and>
      sgn d = lex_sgn [4, 18, 0, 305, 25] [4, 18, 0, 240, 10]"
    using kvercmp2_correct [of ?e 4 18 0 305 25 "''.el8''" 5 4 0 "''RHEL8''" ?v "[4, 18, 0, 240, 10]", OF r _ _ _ _ n] t
    by (auto simp: in_code_def no_digit_def isdigit_def ver5_def)
  then show ?thesis by (auto simp: sgn_if split: if_splits)
qed

text \<open>Outside these bounds the packed codes run into each other: a stable release \<open>4.9.256\<close> counts as \<open>4.10.0\<close>.\<close>

lemma kvcmp_sublevel: "tst_kvcmp ''4.9.256'' 4 10 0 = Ok ([], 0)"
  by (simp add: tst_kvcmp_def tst_parse_kver_def parse_digit_def strtoul10_def Let_def isspace_def isdigit_def digits_val_def
      cat_def kver_code_def shl_def arith_def fits_signed_def)

end
