(* ===== verification/Guarded_Buffers.thy ===== *)
theory Guarded_Buffers
  imports Res_Flags
begin

text \<open>
  The guarded buffers of \<^verbatim>\<open>lib/tst_buffers.c\<close>: a buffer ends where a page without access begins, and the rest of its
  first page, below the buffer, holds canary bytes that are checked when all buffers are released. The memory is a
  function from addresses to bytes with a second one for access; the addresses that \<^verbatim>\<open>mmap\<close> chooses, the
  success of \<^verbatim>\<open>malloc\<close> and the bytes of \<^verbatim>\<open>random\<close> are a record, indexed by the number of the call.
\<close>

section \<open>State\<close>

record bmap =
  addr :: nat
  msize :: nat
  buf_shift :: nat

datatype buf_msg = Using_guarded | Modified nat int

record benv =
  page_size :: nat
  malloc_ok :: "nat \<Rightarrow> bool"
  mmap_addr :: "nat \<Rightarrow> nat option"
  random_byte :: "nat \<Rightarrow> char"

record bstate =
  mem :: "nat \<Rightarrow> char"
  rw :: "nat \<Rightarrow> bool"
  maps :: "bmap list"
  print_msg :: bool
  msgs :: "buf_msg list"
  allocs :: nat
  rands :: nat

section \<open>Canaries\<close>

definition canary_step :: "benv \<Rightarrow> bmap \<Rightarrow> nat \<Rightarrow> bstate \<Rightarrow> bstate" where
  "canary_step e m i st =
     (let c = random_byte e (rands st) in
      st\<lparr>mem := (mem st)(addr m + buf_shift m - i - 1 := c, addr m + i := c), rands := rands st + 1\<rparr>)"

definition setup_canary :: "benv \<Rightarrow> bmap \<Rightarrow> bstate \<Rightarrow> bstate" where
  "setup_canary e m st = fold (canary_step e m) [0..<buf_shift m div 2] st"

definition check_canary :: "(nat \<Rightarrow> char) \<Rightarrow> bmap \<Rightarrow> buf_msg list" where
  "check_canary b m =
     map (\<lambda>i. Modified (addr m + buf_shift m) (- int i - 1))
       (filter (\<lambda>i. b (addr m + buf_shift m - i - 1) \<noteq> b (addr m + i)) [0..<buf_shift m div 2])"

section \<open>Allocation\<close>

definition pages_of :: "benv \<Rightarrow> nat \<Rightarrow> nat" where
  "pages_of e sz = u32 (sz div page_size e + (if sz mod page_size e \<noteq> 0 then 1 else 0) + 1)"

definition say_guarded :: "bstate \<Rightarrow> bstate" where
  "say_guarded st = (if print_msg st then st\<lparr>msgs := msgs st @ [Using_guarded], print_msg := False\<rparr> else st)"

text \<open>\<^verbatim>\<open>mmap\<close> of fresh zero pages at \<open>a\<close>, and \<^verbatim>\<open>mprotect\<close> of the last one.\<close>

definition map_pages :: "benv \<Rightarrow> nat \<Rightarrow> nat \<Rightarrow> bstate \<Rightarrow> bstate" where
  "map_pages e a pages st =
     st\<lparr>mem := (\<lambda>x. if a \<le> x \<and> x < a + page_size e * pages then NUL else mem st x),
        rw := (\<lambda>x. if a \<le> x \<and> x < a + page_size e * pages then x < a + (pages - 1) * page_size e else rw st x)\<rparr>"

text \<open>A break of the test carries its own report only: the message that guarded buffers are in use, printed before a
  failing \<^verbatim>\<open>mmap\<close>, is not part of it. \<^verbatim>\<open>mprotect\<close>, whose result the source ignores, is taken to succeed.\<close>

definition tst_alloc :: "benv \<Rightarrow> nat \<Rightarrow> bstate \<Rightarrow> (nat \<times> bstate) outcome" where
  "tst_alloc e sz st =
     (let pages = pages_of e sz in
      if \<not> malloc_ok e (allocs st) then Brk (TBROK OR TERRNO, ''malloc(32) failed'')
      else (case mmap_addr e (allocs st) of
          None \<Rightarrow> Brk (TBROK OR TERRNO, ''mmap((nil),'' @ show_nat (page_size e * pages) @ '',3,34,-1,0) failed'')
        | Some ret \<Rightarrow>
            let st1 = map_pages e ret pages (say_guarded st);
                m = \<lparr>addr = ret, msize = pages * page_size e,
                     buf_shift = (if sz mod page_size e \<noteq> 0 then page_size e - sz mod page_size e else 0)\<rparr>;
                st2 = st1\<lparr>maps := m # maps st1, allocs := allocs st1 + 1\<rparr>
            in Ok (ret + buf_shift m, setup_canary e m st2)))"

text \<open>The array of sizes ends at the first -1; without one the loop reads past it.\<close>

definition count_iovec :: "int list \<Rightarrow> nat outcome" where
  "count_iovec sizes = (if - 1 \<in> set sizes then Ok (length (takeWhile (\<lambda>s. s \<noteq> - 1) sizes)) else UB)"

text \<open>A pointer or length of 8 bytes in memory, the low byte first.\<close>

fun store_le :: "nat \<Rightarrow> nat \<Rightarrow> nat \<Rightarrow> (nat \<Rightarrow> char) \<Rightarrow> (nat \<Rightarrow> char)" where
  "store_le a 0 v b = b"
| "store_le a (Suc n) v b = store_le (a + 1) n (v div 256) (b(a := char_of (v mod 256)))"

definition store_word :: "nat \<Rightarrow> nat \<Rightarrow> bstate \<Rightarrow> bstate" where
  "store_word a v st = st\<lparr>mem := store_le a 8 v (mem st)\<rparr>"

definition size_t :: "int \<Rightarrow> nat" where "size_t x = nat (x mod 2 ^ 64)"

text \<open>The elements of the array of \<^verbatim>\<open>struct iovec\<close> at \<open>iov\<close>, 16 bytes each: base, then length. For an empty element the
  code stores the base twice.\<close>

fun iovec_loop :: "benv \<Rightarrow> nat \<Rightarrow> int list \<Rightarrow> bstate \<Rightarrow> bstate outcome" where
  "iovec_loop e iov [] st = Ok st"
| "iovec_loop e iov (s # ss) st =
     (if s \<noteq> 0 then
        obind (tst_alloc e (size_t s) st) (\<lambda>(p, st1).
          iovec_loop e (iov + 16) ss (store_word (iov + 8) (size_t s) (store_word iov p st1)))
      else iovec_loop e (iov + 16) ss (store_word iov 0 (store_word iov 0 st)))"

definition tst_iovec_alloc :: "benv \<Rightarrow> int list \<Rightarrow> bstate \<Rightarrow> (nat option \<times> bstate) outcome" where
  "tst_iovec_alloc e sizes st =
     obind (count_iovec sizes) (\<lambda>cnt.
       if cnt = 0 then Ok (None, st)
       else obind (tst_alloc e (16 * cnt) st) (\<lambda>(iovec, st1).
         obind (iovec_loop e iovec (take cnt sizes) st1) (\<lambda>st2. Ok (Some iovec, st2))))"

text \<open>The pointers stored through the descriptions, which are the elements before the one with a null pointer.\<close>

fun tst_buffers_alloc :: "benv \<Rightarrow> (nat \<times> int list) list \<Rightarrow> bstate \<Rightarrow> (nat option list \<times> bstate) outcome" where
  "tst_buffers_alloc e [] st = Ok ([], st)"
| "tst_buffers_alloc e ((sz, iov_sizes) # bufs) st =
     obind (if sz \<noteq> 0 then obind (tst_alloc e sz st) (\<lambda>(p, st1). Ok (Some p, st1)) else tst_iovec_alloc e iov_sizes st)
       (\<lambda>(p, st1). obind (tst_buffers_alloc e bufs st1) (\<lambda>(ps, st2). Ok (p # ps, st2)))"

fun strcpy :: "nat \<Rightarrow> string \<Rightarrow> (nat \<Rightarrow> char) \<Rightarrow> (nat \<Rightarrow> char)" where
  "strcpy p [] b = b(p := NUL)"
| "strcpy p (c # s) b = strcpy (p + 1) s (b(p := c))"

definition tst_strdup :: "benv \<Rightarrow> string \<Rightarrow> bstate \<Rightarrow> (nat \<times> bstate) outcome" where
  "tst_strdup e str st =
     obind (tst_alloc e (length str + 1) st) (\<lambda>(ret, st1). Ok (ret, st1\<lparr>mem := strcpy ret str (mem st1)\<rparr>))"

section \<open>Release\<close>

definition unmap :: "bmap \<Rightarrow> bstate \<Rightarrow> bstate" where
  "unmap m st = st\<lparr>rw := (\<lambda>x. if addr m \<le> x \<and> x < addr m + msize m then False else rw st x)\<rparr>"

fun free_loop :: "bmap list \<Rightarrow> bstate \<Rightarrow> bstate" where
  "free_loop [] st = st"
| "free_loop (m # ms) st = free_loop ms (unmap m (st\<lparr>msgs := msgs st @ check_canary (mem st) m\<rparr>))"

definition tst_free_all :: "bstate \<Rightarrow> bstate" where
  "tst_free_all st = (free_loop (maps st) st)\<lparr>maps := []\<rparr>"

end
