(* ===== verification/Guarded_Buffers_Props.thy ===== *)
theory Guarded_Buffers_Props
  imports Guarded_Buffers
begin

text \<open>
  What the guarded buffers promise: the invariant of the list of mappings, kept by every allocation at fresh
  addresses; where a buffer and its guard page lie; and that the check at the end reports nothing if the test wrote only
  to its buffers, and reports every single changed canary byte.
\<close>

section \<open>Layout\<close>

definition region :: "bmap \<Rightarrow> nat set" where
  "region m = {addr m..<addr m + msize m}"

definition buffer :: "benv \<Rightarrow> bmap \<Rightarrow> nat set" where
  "buffer e m = {addr m + buf_shift m..<addr m + msize m - page_size e}"

definition canary :: "bmap \<Rightarrow> nat set" where
  "canary m = (\<lambda>i. addr m + i) ` {..<buf_shift m div 2} \<union> (\<lambda>i. addr m + buf_shift m - i - 1) ` {..<buf_shift m div 2}"

definition canary_ok :: "(nat \<Rightarrow> char) \<Rightarrow> bmap \<Rightarrow> bool" where
  "canary_ok b m \<longleftrightarrow> (\<forall>i < buf_shift m div 2. b (addr m + buf_shift m - i - 1) = b (addr m + i))"

definition map_ok :: "benv \<Rightarrow> bstate \<Rightarrow> bmap \<Rightarrow> bool" where
  "map_ok e st m \<longleftrightarrow> buf_shift m < page_size e \<and> buf_shift m + page_size e \<le> msize m \<and>
     (\<forall>x \<in> region m. rw st x \<longleftrightarrow> x < addr m + msize m - page_size e) \<and> canary_ok (mem st) m"

definition bufs_ok :: "benv \<Rightarrow> bstate \<Rightarrow> bool" where
  "bufs_ok e st \<longleftrightarrow> (\<forall>m \<in> set (maps st). map_ok e st m) \<and> sorted_wrt (\<lambda>m m'. region m \<inter> region m' = {}) (maps st)"

lemma canary_ok_cong:
  assumes "\<And>x. x \<in> canary m \<Longrightarrow> b' x = b x"
  shows "canary_ok b' m = canary_ok b m"
proof -
  have "b' (addr m + i) = b (addr m + i)" "b' (addr m + buf_shift m - i - 1) = b (addr m + buf_shift m - i - 1)"
    if "i < buf_shift m div 2" for i
    using that assms by (auto simp: canary_def)
  then show ?thesis unfolding canary_ok_def by auto
qed

lemma canary_below: "x \<in> canary m \<Longrightarrow> addr m \<le> x \<and> x < addr m + buf_shift m"
  by (auto simp: canary_def)

lemma canary_region: "map_ok e st m \<Longrightarrow> canary m \<subseteq> region m - buffer e m"
  using canary_below [of _ m] by (fastforce simp: map_ok_def region_def buffer_def)

lemma check_canary_nil: "check_canary b m = [] \<longleftrightarrow> canary_ok b m"
  by (auto simp: check_canary_def canary_ok_def filter_empty_conv)

text \<open>The two bytes of a pair are different cells, so changing one of them breaks the pair.\<close>

lemma canary_changed:
  assumes "canary_ok b m" "x \<in> canary m" "c \<noteq> b x"
  shows "\<not> canary_ok (b(x := c)) m"
proof -
  from assms(2) obtain i where i: "i < buf_shift m div 2" "x = addr m + i \<or> x = addr m + buf_shift m - i - 1"
    by (auto simp: canary_def)
  then have ne: "addr m + i \<noteq> addr m + buf_shift m - i - 1" by linarith
  have "b (addr m + buf_shift m - i - 1) = b (addr m + i)" using assms(1) i(1) by (simp add: canary_ok_def)
  then have "(b(x := c)) (addr m + buf_shift m - i - 1) \<noteq> (b(x := c)) (addr m + i)" using i(2) ne assms(3) by auto
  then show ?thesis using i(1) unfolding canary_ok_def by blast
qed

section \<open>Setting up the canary\<close>

text \<open>After \<open>k\<close> rounds from \<open>st\<close>.\<close>

definition canary_upto :: "bmap \<Rightarrow> nat \<Rightarrow> bstate \<Rightarrow> bstate \<Rightarrow> bool" where
  "canary_upto m k st s \<longleftrightarrow>
     (\<forall>i<k. mem s (addr m + buf_shift m - i - 1) = mem s (addr m + i)) \<and>
     (\<forall>x. \<not> (addr m \<le> x \<and> x < addr m + buf_shift m) \<longrightarrow> mem s x = mem st x) \<and>
     rw s = rw st \<and> maps s = maps st \<and> msgs s = msgs st \<and> allocs s = allocs st"

lemma canary_step_upto:
  assumes "canary_upto m k st s" "k < buf_shift m div 2"
  shows "canary_upto m (Suc k) st (canary_step e m k s)"
proof -
  have "mem (canary_step e m k s) (addr m + buf_shift m - i - 1) = mem (canary_step e m k s) (addr m + i)" if "i < Suc k" for i
  proof (cases "i = k")
    case False
    then have "i < k" using that by simp
    then have "mem s (addr m + buf_shift m - i - 1) = mem s (addr m + i)"
      "addr m + buf_shift m - i - 1 \<notin> {addr m + buf_shift m - k - 1, addr m + k}"
      "addr m + i \<notin> {addr m + buf_shift m - k - 1, addr m + k}"
      using assms by (auto simp: canary_upto_def)
    then show ?thesis by (simp add: canary_step_def Let_def)
  qed (simp add: canary_step_def Let_def)
  moreover have "mem (canary_step e m k s) x = mem st x" if "\<not> (addr m \<le> x \<and> x < addr m + buf_shift m)" for x
  proof -
    have "x \<noteq> addr m + buf_shift m - k - 1" "x \<noteq> addr m + k" using that assms(2) by auto
    then show ?thesis using that assms(1) by (simp add: canary_step_def Let_def canary_upto_def)
  qed
  ultimately show ?thesis using assms(1) by (simp add: canary_upto_def) (simp add: canary_step_def Let_def)
qed

lemma canary_fold: "k \<le> buf_shift m div 2 \<Longrightarrow> canary_upto m k st (fold (canary_step e m) [0..<k] st)"
proof (induction k)
  case (Suc k)
  then show ?case using canary_step_upto [of m k st "fold (canary_step e m) [0..<k] st" e] by simp
qed (simp add: canary_upto_def)

lemma setup_canary_ok:
  "canary_ok (mem (setup_canary e m st)) m"
  "\<not> (addr m \<le> x \<and> x < addr m + buf_shift m) \<Longrightarrow> mem (setup_canary e m st) x = mem st x"
  "rw (setup_canary e m st) = rw st" "maps (setup_canary e m st) = maps st"
  "msgs (setup_canary e m st) = msgs st" "allocs (setup_canary e m st) = allocs st"
  using canary_fold [of "buf_shift m div 2" m st e] unfolding setup_canary_def canary_upto_def canary_ok_def by blast+

section \<open>Allocation\<close>

text \<open>The size of the mapping for a buffer, and the precondition that the call gets fresh memory for it.\<close>

definition fresh_at :: "benv \<Rightarrow> nat \<Rightarrow> bstate \<Rightarrow> nat \<Rightarrow> bool" where
  "fresh_at e sz st a \<longleftrightarrow> malloc_ok e (allocs st) \<and> mmap_addr e (allocs st) = Some a \<and>
     (\<forall>m \<in> set (maps st). region m \<inter> {a..<a + pages_of e sz * page_size e} = {})"

lemma pages_shift:
  assumes "0 < ps" "ps = page_size e" "sz div ps + 2 < 2 ^ 32"
  defines "shift \<equiv> (if sz mod ps \<noteq> 0 then ps - sz mod ps else 0)"
  shows "shift + sz + ps = pages_of e sz * ps" "shift < ps"
proof -
  have p: "pages_of e sz = sz div ps + (if sz mod ps \<noteq> 0 then 1 else 0) + 1"
    using assms(2, 3) by (simp add: pages_of_def u32_def)
  have sz: "sz = sz div ps * ps + sz mod ps" and r: "sz mod ps < ps" using assms(1) by simp_all
  show "shift + sz + ps = pages_of e sz * ps"
  proof (cases "sz mod ps = 0")
    case True
    then have "pages_of e sz * ps = sz div ps * ps + ps" by (simp add: p)
    then show ?thesis using True sz by (simp add: shift_def)
  next
    case False
    then have "pages_of e sz * ps = sz div ps * ps + ps + ps" by (simp add: p)
    moreover have "shift = ps - sz mod ps" using False by (simp add: shift_def)
    ultimately show ?thesis using sz r by linarith
  qed
  show "shift < ps" using assms(1) by (simp add: shift_def)
qed

lemma say_guarded_keeps [simp]: "mem (say_guarded st) = mem st" "rw (say_guarded st) = rw st" "maps (say_guarded st) = maps st"
  "allocs (say_guarded st) = allocs st"
  by (simp_all add: say_guarded_def)

text \<open>What an allocation gives: the new mapping at the head of the list, the buffer as its accessible end, zeroed.\<close>

lemma tst_alloc_result:
  assumes "0 < page_size e" "sz div page_size e + 2 < 2 ^ 32" "fresh_at e sz st a" "bufs_ok e st"
  shows "\<exists>m st'. tst_alloc e sz st = Ok (addr m + buf_shift m, st') \<and> maps st' = m # maps st \<and> bufs_ok e st' \<and>
    addr m = a \<and> addr m + buf_shift m + sz = addr m + msize m - page_size e \<and>
    (\<forall>x \<in> buffer e m. mem st' x = NUL) \<and> (\<forall>x. x \<notin> region m \<longrightarrow> mem st' x = mem st x)"
proof -
  let ?ps = "page_size e"
  define m where "m = \<lparr>addr = a, msize = pages_of e sz * ?ps, buf_shift = (if sz mod ?ps \<noteq> 0 then ?ps - sz mod ?ps else 0)\<rparr>"
  define st1 where "st1 = map_pages e a (pages_of e sz) (say_guarded st)"
  define st2 where "st2 = st1\<lparr>maps := m # maps st1, allocs := allocs st1 + 1\<rparr>"
  define st' where "st' = setup_canary e m st2"
  have al: "tst_alloc e sz st = Ok (addr m + buf_shift m, st')"
    using assms(3) by (simp add: tst_alloc_def fresh_at_def Let_def m_def st1_def st2_def st'_def)
  note s = pages_shift [of ?ps e sz, OF assms(1) refl assms(2)]
  have len: "buf_shift m + sz + ?ps = msize m" "buf_shift m < ?ps" using s by (simp_all add: m_def)
  have reg: "x \<in> region m \<longleftrightarrow> a \<le> x \<and> x < a + ?ps * pages_of e sz" for x by (simp add: region_def m_def mult.commute)
  have top: "a + (pages_of e sz - 1) * ?ps = addr m + msize m - ?ps"
    using len by (simp add: m_def diff_mult_distrib)
  have rw': "rw st' x = (if x \<in> region m then x < addr m + msize m - ?ps else rw st x)" for x
    by (simp add: st'_def setup_canary_ok st2_def st1_def map_pages_def reg flip: top)
  have maps': "maps st' = m # maps st" by (simp add: st'_def setup_canary_ok st2_def st1_def map_pages_def)
  have out: "mem st' x = mem st x" if "x \<notin> region m" for x
  proof -
    have "\<not> (addr m \<le> x \<and> x < addr m + buf_shift m)" using that len by (auto simp: region_def)
    then show ?thesis using that by (auto simp: st'_def setup_canary_ok(2) st2_def st1_def map_pages_def reg)
  qed
  have buf: "mem st' x = NUL" if "x \<in> buffer e m" for x
  proof -
    have "\<not> (addr m \<le> x \<and> x < addr m + buf_shift m)" "x \<in> region m" using that by (auto simp: buffer_def region_def)
    then show ?thesis by (simp add: st'_def setup_canary_ok(2) st2_def st1_def map_pages_def reg)
  qed
  have dis: "region m' \<inter> region m = {}" if "m' \<in> set (maps st)" for m'
  proof -
    have "region m = {a..<a + pages_of e sz * ?ps}" by (simp add: region_def m_def)
    then show ?thesis using assms(3) that by (simp add: fresh_at_def)
  qed
  have new: "map_ok e st' m" using len rw' by (simp add: map_ok_def st'_def setup_canary_ok(1))
  have old: "map_ok e st' m'" if m': "m' \<in> set (maps st)" for m'
  proof -
    have ok: "map_ok e st m'" using assms(4) m' by (simp add: bufs_ok_def)
    have "mem st' x = mem st x" if "x \<in> canary m'" for x using canary_region [OF ok] dis [OF m'] that by (intro out) auto
    then have "canary_ok (mem st') m'" using canary_ok_cong [of m' "mem st'" "mem st"] ok by (simp add: map_ok_def)
    moreover have "\<forall>x \<in> region m'. rw st' x = rw st x" using dis [OF m'] rw' by auto
    ultimately show ?thesis using ok by (simp add: map_ok_def)
  qed
  have "bufs_ok e st'" using new old dis assms(4) unfolding bufs_ok_def maps' by auto
  then show ?thesis using al maps' buf out len by (intro exI [of _ m] exI [of _ st']) (auto simp: m_def)
qed

section \<open>Release\<close>

lemma free_loop_msgs: "msgs (free_loop ms st) = msgs st @ concat (map (check_canary (mem st)) ms)"
  by (induction ms arbitrary: st) (simp_all add: unmap_def)

lemma free_all_msgs: "msgs (tst_free_all st) = msgs st @ concat (map (check_canary (mem st)) (maps st))"
  by (simp add: tst_free_all_def free_loop_msgs)

lemma free_all_quiet: "msgs (tst_free_all st) = msgs st \<longleftrightarrow> (\<forall>m \<in> set (maps st). canary_ok (mem st) m)"
  by (auto simp: free_all_msgs check_canary_nil)

text \<open>Writes to the buffers leave every canary alone.\<close>

lemma regions_disjoint:
  assumes "bufs_ok e st" "m \<in> set (maps st)" "m' \<in> set (maps st)" "m \<noteq> m'"
  shows "region m \<inter> region m' = {}"
  using assms sorted_wrt_nth_less [of "\<lambda>m m'. region m \<inter> region m' = {}" "maps st"]
  by (auto simp: bufs_ok_def in_set_conv_nth) (metis Int_commute linorder_neqE_nat disjoint_iff)

lemma buffer_writes_quiet:
  assumes "bufs_ok e st" "\<And>x. (\<forall>m \<in> set (maps st). x \<notin> buffer e m) \<Longrightarrow> b x = mem st x"
  shows "msgs (tst_free_all (st\<lparr>mem := b\<rparr>)) = msgs st"
proof -
  have "canary_ok b m" if m: "m \<in> set (maps st)" for m
  proof -
    have ok: "map_ok e st m" using assms(1) m by (simp add: bufs_ok_def)
    have "x \<notin> buffer e m'" if x: "x \<in> canary m" and m': "m' \<in> set (maps st)" for x m'
    proof (cases "m' = m")
      case False
      have "buffer e m' \<subseteq> region m'" by (auto simp: buffer_def region_def)
      then show ?thesis using regions_disjoint [OF assms(1) m m'] False canary_region [OF ok] x by blast
    qed (use canary_region [OF ok] x in auto)
    then have "b x = mem st x" if "x \<in> canary m" for x using assms(2) that by blast
    then show ?thesis using canary_ok_cong [of m b "mem st"] ok by (simp add: map_ok_def)
  qed
  then show ?thesis using free_all_quiet [of "st\<lparr>mem := b\<rparr>"] by simp
qed

lemma canary_write_reported:
  assumes "bufs_ok e st" "m \<in> set (maps st)" "x \<in> canary m" "c \<noteq> mem st x"
  shows "msgs (tst_free_all (st\<lparr>mem := (mem st)(x := c)\<rparr>)) \<noteq> msgs st"
proof -
  have "canary_ok (mem st) m" using assms(1, 2) by (simp add: bufs_ok_def map_ok_def)
  then have "\<not> canary_ok ((mem st)(x := c)) m" using assms(3, 4) by (rule canary_changed)
  then show ?thesis using free_all_quiet [of "st\<lparr>mem := (mem st)(x := c)\<rparr>"] assms(2) by auto
qed

text \<open>
  C19: with fresh memory from \<^verbatim>\<open>mmap\<close>, \<^verbatim>\<open>tst_alloc\<close> returns a zeroed buffer that can be accessed in all its
  bytes and is followed directly by a page that cannot; the invariant of the mappings is kept; and then \<^verbatim>\<open>tst_free_all\<close>
  reports nothing if only bytes of buffers were written, but reports the change of any one canary byte of any mapping.
\<close>

theorem tst_alloc_guarded:
  assumes "bufs_ok e st" "0 < page_size e" "sz div page_size e + 2 < 2 ^ 32" "fresh_at e sz st a"
  shows "\<exists>p st'. tst_alloc e sz st = Ok (p, st') \<and> bufs_ok e st' \<and>
    (\<forall>x \<in> {p..<p + sz}. rw st' x \<and> mem st' x = NUL) \<and> (\<forall>x \<in> {p + sz..<p + sz + page_size e}. \<not> rw st' x) \<and>
    (\<forall>b. (\<forall>x. b x = mem st' x \<or> (\<exists>m \<in> set (maps st'). x \<in> buffer e m)) \<longrightarrow>
      msgs (tst_free_all (st'\<lparr>mem := b\<rparr>)) = msgs st') \<and>
    (\<forall>m \<in> set (maps st'). \<forall>x \<in> canary m. \<forall>c. c \<noteq> mem st' x \<longrightarrow>
      msgs (tst_free_all (st'\<lparr>mem := (mem st')(x := c)\<rparr>)) \<noteq> msgs st')"
proof -
  obtain m st' where m: "tst_alloc e sz st = Ok (addr m + buf_shift m, st')" "maps st' = m # maps st" "bufs_ok e st'"
    "addr m + buf_shift m + sz = addr m + msize m - page_size e" "\<forall>x \<in> buffer e m. mem st' x = NUL"
    using tst_alloc_result [OF assms(2, 3, 4, 1)] by blast
  let ?p = "addr m + buf_shift m"
  have ok: "map_ok e st' m" using m(2, 3) by (simp add: bufs_ok_def)
  have rw: "rw st' x \<longleftrightarrow> x < ?p + sz" if "addr m \<le> x" "x < ?p + sz + page_size e" for x
    using ok that m(4) by (auto simp: map_ok_def region_def)
  have "\<forall>x \<in> {?p..<?p + sz}. rw st' x \<and> mem st' x = NUL" using rw m(4, 5) by (auto simp: buffer_def)
  moreover have "\<forall>x \<in> {?p + sz..<?p + sz + page_size e}. \<not> rw st' x" using rw by auto
  moreover have "msgs (tst_free_all (st'\<lparr>mem := b\<rparr>)) = msgs st'"
    if "\<forall>x. b x = mem st' x \<or> (\<exists>m \<in> set (maps st'). x \<in> buffer e m)" for b
    by (rule buffer_writes_quiet [OF m(3)]) (use that in blast)
  ultimately show ?thesis using m(1, 3) canary_write_reported [OF m(3)] by (intro exI conjI) blast+
qed

theorem tst_alloc_guarded_witness:
  "\<exists>p st'. tst_alloc \<lparr>page_size = 16, malloc_ok = (\<lambda>n. True), mmap_addr = (\<lambda>n. Some (n * 4096)), random_byte = (\<lambda>n. CHR ''x'')\<rparr> 10
      \<lparr>mem = (\<lambda>x. NUL), rw = (\<lambda>x. False), maps = [], print_msg = True, msgs = [], allocs = 0, rands = 0\<rparr> = Ok (p, st') \<and>
    (\<forall>x \<in> {p + 10..<p + 10 + 16}. \<not> rw st' x)"
proof -
  let ?e = "\<lparr>page_size = 16, malloc_ok = (\<lambda>n. True), mmap_addr = (\<lambda>n. Some (n * 4096)), random_byte = (\<lambda>n. CHR ''x'')\<rparr>"
  let ?s = "\<lparr>mem = (\<lambda>x. NUL), rw = (\<lambda>x. False), maps = [], print_msg = True, msgs = [], allocs = 0, rands = 0\<rparr>"
  have "bufs_ok ?e ?s" by (simp add: bufs_ok_def)
  moreover have "fresh_at ?e 10 ?s 0" by (simp add: fresh_at_def)
  ultimately show ?thesis using tst_alloc_guarded [of ?e ?s 10 0] by simp blast
qed

section \<open>Copies of strings\<close>

lemma strcpy_frame: "\<not> (p \<le> x \<and> x \<le> p + length s) \<Longrightarrow> strcpy p s b x = b x"
  by (induction s arbitrary: p b) auto

lemma strcpy_read: "i \<le> length s \<Longrightarrow> strcpy p s b (p + i) = (s @ [NUL]) ! i"
proof (induction s arbitrary: p b i)
  case (Cons c s)
  show ?case
  proof (cases i)
    case 0
    then show ?thesis using strcpy_frame [of "p + 1" p s "b(p := c)"] by simp
  next
    case (Suc j)
    then show ?thesis using Cons.IH [of j "p + 1" "b(p := c)"] Cons.prems by (simp del: fun_upd_apply)
  qed
qed simp

text \<open>The copy lies in a guarded buffer of its own and leaves the canaries as they were set up.\<close>

lemma tst_strdup_copy:
  assumes "bufs_ok e st" "0 < page_size e" "(length str + 1) div page_size e + 2 < 2 ^ 32" "fresh_at e (length str + 1) st a"
  shows "\<exists>p st'. tst_strdup e str st = Ok (p, st') \<and> bufs_ok e st' \<and> (\<forall>i \<le> length str. mem st' (p + i) = (str @ [NUL]) ! i)"
proof -
  obtain m st1 where m: "tst_alloc e (length str + 1) st = Ok (addr m + buf_shift m, st1)" "maps st1 = m # maps st" "bufs_ok e st1"
    "addr m + buf_shift m + (length str + 1) = addr m + msize m - page_size e"
    using tst_alloc_result [OF assms(2, 3, 4, 1)] by blast
  let ?p = "addr m + buf_shift m" and ?b = "strcpy (addr m + buf_shift m) str (mem st1)"
  have frame: "?b x = mem st1 x" if "x \<notin> buffer e m" for x
    using that m(4) by (intro strcpy_frame) (auto simp: buffer_def)
  have "canary_ok ?b m'" if m': "m' \<in> set (maps st1)" for m'
  proof -
    have "msgs (tst_free_all (st1\<lparr>mem := ?b\<rparr>)) = msgs st1"
      by (rule buffer_writes_quiet [OF m(3)]) (use frame m(2) in simp)
    then show ?thesis using free_all_quiet [of "st1\<lparr>mem := ?b\<rparr>"] m' by simp
  qed
  then have "bufs_ok e (st1\<lparr>mem := ?b\<rparr>)" using m(3) by (simp add: bufs_ok_def map_ok_def)
  moreover have "tst_strdup e str st = Ok (?p, st1\<lparr>mem := ?b\<rparr>)" unfolding tst_strdup_def m(1) by simp
  ultimately show ?thesis using strcpy_read [of _ str ?p "mem st1"] by (intro exI conjI) auto
qed

end
