(* ===== verification/Spec2Isabelle.thy ===== *)
theory Spec2Isabelle
  imports Kconfig_Check Timer_Props Random_Range_Props Range_Lists
    Metaparse_Comments Metaparse_Norm Metaparse_Print Metaparse_Json
    Bitmask_Hex Kver_Props Guarded_Buffers_Props
begin

text \<open>
  This development models parts of the Linux Test Project under \<^verbatim>\<open>src/ltp_src\<close>: pieces of the test
  library (\<^verbatim>\<open>lib/\<close>, \<^verbatim>\<open>include/\<close>), the metadata extractor (\<^verbatim>\<open>metadata/\<close>) and the bit masks of the cpuset tests. The
  library decides from a boolean expression over kernel options and from the kernel version whether a test can run, hands out
  guarded buffers, computes with time values, and draws random numbers for the older tests; the extractor
  reads the C source of a test and writes its description as JSON.

  \<^bold>\<open>Common theories.\<close> \<open>Ltp_Prelude\<close> has C strings, character classes, bounded printing and reading of
  lines, truncating division and the interface of a bounded stack. \<open>Res_Flags\<close> has the result flags of
  \<^verbatim>\<open>include/tst_res_flags.h\<close>, signed machine integers, decimal printing, and the type of outcomes: a value,
  a report that breaks the test (also an exit of the program), or behaviour that C leaves undefined,
  such as a write behind a buffer or a signed overflow. A theorem that gives a value excludes the other
  two.

  \<^bold>\<open>Boolean expressions\<close>, \<^verbatim>\<open>lib/tst_bool_expr.c\<close>. \<open>Bool_Expr\<close> has the tokenizer, the translation to reverse
  Polish notation with its operator stack, and the evaluation with its value stack, over the arrays of
  the code. \<open>Bool_Expr_Lex\<close>, \<open>Bool_Expr_Grammar\<close> and \<open>Bool_Expr_Eval\<close> prove the tokenizer against a
  specification of tokens, the translation against a grammar with precedence, errors included, and the
  evaluation against the meaning of the expression.

  \<^bold>\<open>Kernel configuration\<close>, \<^verbatim>\<open>lib/tst_kconfig.c\<close>. \<open>Kconfig\<close> has the lines of the configuration file, the
  variables of the expressions, the validation of one variable and the whole check; the environment
  (variables, files, the kernel release and the success of allocations) is a parameter. \<open>Kconfig_Read\<close> has
  the format of configuration files and proves what reading one stores in the variables; \<open>Kconfig_Vars\<close> and
  \<open>Kconfig_Check\<close> prove that the check succeeds exactly if every expression is true under the documented meaning
  of its variables, for files in which plain variables are set to y or m only, and fits the evaluation stack. It
  uses the parser of boolean expressions through its lemmas.

  \<^bold>\<open>Time\<close>, \<^verbatim>\<open>include/tst_timer.h\<close> and \<^verbatim>\<open>lib/tst_timer.c\<close>. \<open>Timer\<close> has the conversions, accessors, comparisons and
  arithmetic of the three time types, with the sizes of their members on an ABI, and the timer with the
  clock as a parameter. \<open>Timer_Props\<close> proves that results are normalised, exact differences, round
  trips, and when the timer expires, up to the rounding to milliseconds. The interface is the locale \<open>time_points\<close>.

  \<^bold>\<open>Ranges and random numbers\<close>, \<^verbatim>\<open>lib/random_range.c\<close>. \<open>Random_Range\<close> has the parser of range lists and the
  generators, with the value of \<^verbatim>\<open>lrand48\<close> as an argument. \<open>Random_Range_Props\<close> proves the contract of the
  generators once in the locale \<open>range_generator\<close>, interpreted for the three of them, that every
  multiple can be drawn, and that the choice of a bit ends; \<open>Range_Lists\<close> proves that the parser stays
  inside its array, names the first number that is refused and reads back printed ranges. The contract is for ends
  that are not negative. Two lemmas show inputs with negative
  ends on which the code leaves its contract.

  \<^bold>\<open>Data storage and JSON\<close>, \<^verbatim>\<open>metadata/data_storage.h\<close>. \<open>Data_Storage\<close> has the trees of strings, numbers, arrays
  and hashes. \<open>Data_Storage_Props\<close> proves that a hash with distinct keys implements a bounded map; the
  contract is the locale \<open>bounded_map\<close>, whose lemmas on replacing, adding and removing serve the extractor.
  \<open>Json_Output\<close> proves the output against the grammar of JSON, for ASCII text.

  \<^bold>\<open>Metadata extractor\<close>, \<^verbatim>\<open>metadata/metaparse.c\<close>. \<open>Metaparse_Lex\<close> has comments and tokens, \<open>Metaparse\<close> the rest up to
  \<^verbatim>\<open>main\<close>, with the file system and the size of the macro table as parameters. \<open>Metaparse_Comments\<close> proves
  when the comment loops end, \<open>Metaparse_Inv\<close> the invariant of the tree for every input, \<open>Metaparse_Norm\<close>
  the normalisation of the members over the map contract, \<open>Metaparse_Print\<close> that a printed test is read
  back, and \<open>Metaparse_Json\<close> that normalisation keeps trees printable and why it may end the program. The last
  theorem below joins them: what \<^verbatim>\<open>main\<close> does in every case, and that what it prints is JSON.

  \<^bold>\<open>Bit masks\<close>, \<^verbatim>\<open>testcases/kernel/controllers/cpuset/cpuset_lib/libbitmask.c\<close>. \<open>Bitmask\<close> has the masks as arrays of
  64-bit words in a store, so that the result of an operation may be one of its operands, and all operations as
  loops over that store; \<open>Bitmask_Text\<close> has the list and hexadecimal forms. \<open>Bitmask_Props\<close> has the contract
  of a bit array, the locale \<open>bit_array\<close>, in which it proves once that a loop that reads no bit it has written
  computes from the first store, and from it that every operation implements its set operation, also in place.
  \<open>Bitmask_List\<close> and \<open>Bitmask_Hex\<close> prove what the parsers accept and that they read back what the display
  functions write.

  \<^bold>\<open>Kernel versions\<close>, \<^verbatim>\<open>lib/tst_kvercmp.c\<close>. \<open>Kver\<close> has the parser of releases, the comparison of three and of five
  numbers and the table of distributions, with the release and the file \<^verbatim>\<open>/etc/os-release\<close> as parameters.
  \<open>Kver_Props\<close> proves that the sign of the result is the lexicographic order, with the bounds this needs, and
  shows a release outside of them that is ordered wrongly.

  \<^bold>\<open>Guarded buffers\<close>, \<^verbatim>\<open>lib/tst_buffers.c\<close>. \<open>Guarded_Buffers\<close> has the allocations on an explicit memory with access
  rights, with the answers of \<^verbatim>\<open>mmap\<close>, \<^verbatim>\<open>malloc\<close> and \<^verbatim>\<open>random\<close> as parameters. \<open>Guarded_Buffers_Props\<close> proves the
  invariant of the mappings, where a buffer and its guard page lie, and which writes the release reports.

  \<^bold>\<open>Bounds and fuel.\<close> Loops are total functions wherever the code's loop ends, by the length of the
  remaining input. The comment loops of the extractor, the bit search of \<^verbatim>\<open>random_bit\<close> and the stride loop of
  \<^verbatim>\<open>bitmask_parselist\<close> are partial functions whose value \<open>None\<close> is a loop that does not end. Only \<^verbatim>\<open>parse_array\<close> has fuel, one more than the
  number of remaining characters; the lemma \<open>parse_array_fuel\<close> shows that more fuel changes nothing.
  Buffer sizes are those of the code.

  \<^bold>\<open>Not modelled.\<close> The system call wrappers, the test runner, the device, mount, cgroup and network
  helpers and the other test cases act on the kernel through system calls, and what they compute between
  these calls is little. Where an allocation is not a parameter it is assumed to succeed, \<^verbatim>\<open>free\<close> is left out, and messages on
  standard error are left out, except for the reports of the test library. The C library functions
  that the modelled code calls are modelled as far as it uses them.
\<close>

section \<open>Properties across components\<close>

text \<open>
  C4: what \<^verbatim>\<open>main()\<close> of \<^verbatim>\<open>metadata/metaparse.c\<close> does with a file, given what \<^verbatim>\<open>parse_file()\<close> does with it. If reading
  the file does not end (an unclosed comment) or has undefined behaviour, so does \<^verbatim>\<open>main()\<close>. If the file does not
  exist or has no metadata, it ends with 0 and prints nothing. Otherwise, if the file name and the strings of
  the tree are ASCII and the member names need no escape, it either ends with 0 and prints the name of the test, a
  colon, and a JSON text that denotes the normalised tree with the file name added (unless the hash is full), or ends with exit code 1, and this
  only if a member \<^verbatim>\<open>test_variants\<close> is neither a number nor a string that reads as one.
\<close>
theorem metaparse_writes_json:
  assumes "parse_options prg opts [] = Inr paths"
  shows "case parse_file (e\<lparr>cmdline_includepath := paths\<rparr>) fname of
      None \<Rightarrow> metaparse_main e prg opts (fname # others) = None
    | Some UB \<Rightarrow> metaparse_main e prg opts (fname # others) = Some UB
    | Some (Brk b) \<Rightarrow> metaparse_main e prg opts (fname # others) = Some (Brk b)
    | Some (Ok None) \<Rightarrow> metaparse_main e prg opts (fname # others) = Some (Ok (0, []))
    | Some (Ok (Some n)) \<Rightarrow> clean_tree n \<and> ascii fname \<longrightarrow>
        (\<exists>r json. normalize n = Ok r \<and>
          metaparse_main e prg opts (fname # others) =
            Some (Ok (0, ''  '' @ [DQUOTE] @ strip_name fname @ [DQUOTE] @ '': '' @ json)) \<and>
          j_value (to_json (snd (data_node_hash_add r ''fname'' (data_node_string fname)))) json) \<or>
        (\<exists>msg m. metaparse_main e prg opts (fname # others) = Some (Brk (1, msg)) \<and>
          (''test_variants'', m) \<in> set (members n) \<and> as_int m = None)"
proof -
  let ?p = "parse_file (e\<lparr>cmdline_includepath := paths\<rparr>) fname"
  have "(\<exists>r json. normalize n = Ok r \<and>
          metaparse_main e prg opts (fname # others) =
            Some (Ok (0, ''  '' @ [DQUOTE] @ strip_name fname @ [DQUOTE] @ '': '' @ json)) \<and>
          j_value (to_json (snd (data_node_hash_add r ''fname'' (data_node_string fname)))) json) \<or>
        (\<exists>msg m. metaparse_main e prg opts (fname # others) = Some (Brk (1, msg)) \<and>
          (''test_variants'', m) \<in> set (members n) \<and> as_int m = None)"
    if p: "?p = Some (Ok (Some n))" and n: "clean_tree n" "ascii fname" for n
  proof -
    have "printable_tree n" using tree_printable [OF _ n(1)] parse_file_tree p by blast
    from normalize_printable [OF this] consider
      r where "normalize n = Ok r" "printable_tree r" | msg where "normalize n = Brk (1, msg)" "bad_variants n" by blast
    then show ?thesis
    proof cases
      case 1
      then have "printable_tree (snd (data_node_hash_add r ''fname'' (data_node_string fname)))"
        using n(2) by (intro printable_add) (simp_all add: clean_key_def unescaped_def data_node_string_def)
      from json_text [OF this, of 2] show ?thesis using assms p 1(1) by (simp add: metaparse_main_def Let_def)
    next
      case 2
      then show ?thesis using assms p by (simp add: metaparse_main_def bad_variants_def)
    qed
  qed
  then show ?thesis using assms by (simp add: metaparse_main_def split: option.split outcome.split)
qed

theorem metaparse_writes_json_witness:
  "(\<exists>r json. normalize (Node_Hash (map (member_elem [(''VARIANTS'', ''3'')]) sample_members)) = Ok r \<and>
      metaparse_main sample_env ''metaparse'' [] [''t.c''] =
        Some (Ok (0, ''  '' @ [DQUOTE] @ strip_name ''t.c'' @ [DQUOTE] @ '': '' @ json)) \<and>
      j_value (to_json (snd (data_node_hash_add r ''fname'' (data_node_string ''t.c'')))) json) \<or>
   (\<exists>msg m. metaparse_main sample_env ''metaparse'' [] [''t.c''] = Some (Brk (1, msg)) \<and>
      (''test_variants'', m) \<in> set (members (Node_Hash (map (member_elem [(''VARIANTS'', ''3'')]) sample_members))) \<and>
      as_int m = None)"
proof -
  let ?n = "Node_Hash (map (member_elem [(''VARIANTS'', ''3'')]) sample_members)"
  have e: "sample_env\<lparr>cmdline_includepath := []\<rparr> = sample_env" by (simp add: sample_env_def)
  have m: "foldl (enter_define (table_size sample_env)) [] [(''VARIANTS'', ''3'')] = [(''VARIANTS'', ''3'')]"
    by (simp add: enter_define_def hsearch_enter_def sample_env_def)
  have t: "take MAX_ELEMS (map (member_elem [(''VARIANTS'', ''3'')]) sample_members) =
      map (member_elem [(''VARIANTS'', ''3'')]) sample_members"
    by (simp add: sample_members_def MAX_ELEMS_def)
  have p: "parse_file (sample_env\<lparr>cmdline_includepath := []\<rparr>) ''t.c'' = Some (Ok (Some ?n))"
    unfolding e using parse_file_print [OF sample_ok(3,1,2)] unfolding m t .
  have c: "clean_tree ?n" "ascii ''t.c''" by code_simp+
  have o: "parse_options ''metaparse'' [] [] = Inr []" by simp
  from metaparse_writes_json [OF o, of sample_env "''t.c''" "[]", unfolded p option.case outcome.case] c show ?thesis by blast
qed

end
